theory Spec2Isabelle
  imports Main
begin

section \<open>The debug set of \<open>src/set.h\<close>: data model\<close>

text \<open>
  The container is an unbalanced binary search tree whose nodes live on the heap and
  point at each other (\<open>left\<close>, \<open>right\<close>, \<open>parent\<close>); every node also keeps the
  list \<open>share\<close> of the iterator objects that currently designate it, and its destructor
  resets those iterators. The model is an explicit store: addresses are natural
  numbers, a pointer is an \<open>addr option\<close> (\<open>None\<close> is \<open>nullptr\<close>), and the state
  holds the live nodes, the live iterator objects and the \<open>size_\<close> member of every
  live \<open>set\<close> object.

  The anchor \<open>fake_\<close> is a member of the \<open>set\<close> object, so the address of a set
  and the address of its anchor stand for each other: the set at address \<open>this\<close> has
  its anchor in \<open>nodes st this\<close> and its \<open>size'\<close> in \<open>size' st this\<close>. A plain
  \<open>sentinel_node\<close> (the anchor) has no \<open>value_\<close>; a \<open>node\<close> has one.

  Isabelle does not take a name that ends with an underscore: the members
  \<open>value_\<close>, \<open>node_\<close>, \<open>container_\<close> and \<open>size_\<close> of the source are written
  \<open>value'\<close>, \<open>node'\<close>, \<open>container'\<close> and \<open>size'\<close>.

  \<open>share_cap\<close> is the capacity of the \<open>std::vector\<close> behind \<open>share\<close>:
  \<open>push_back\<close> allocates, and so may throw \<open>std::bad_alloc\<close>, only when the vector is
  full. \<open>oom\<close> is the outcome of the allocation requests still to come (\<open>True\<close>: the
  request fails); past its end every request succeeds. \<open>brk\<close> is the next address
  the allocator hands out; addresses are never handed out twice.
\<close>

type_synonym addr = nat

record 'a sentinel_node =
  left :: "addr option"
  right :: "addr option"
  parent :: "addr option"
  share :: "addr list"
  share_cap :: nat
  value' :: "'a option"

record s_iterator =
  node' :: "addr option"
  container' :: "addr option"

record 'a state =
  nodes :: "addr \<rightharpoonup> 'a sentinel_node"
  iters :: "addr \<rightharpoonup> s_iterator"
  size' :: "addr \<rightharpoonup> nat"
  brk :: addr
  oom :: "bool list"

text \<open>
  A call returns a result and the new state, or lets \<open>std::bad_alloc\<close> escape (the
  state it leaves behind is kept, it is what the caller's handler sees), or stops the
  program: a failed \<open>assert\<close>, undefined behaviour (a null or dangling pointer is
  dereferenced, a \<open>sentinel_node\<close> is read as a \<open>node\<close>), or \<open>std::terminate\<close>
  (an exception reaches the edge of a \<open>noexcept\<close> function). A call that never
  returns is the value \<open>None\<close>.
\<close>

datatype failure = AssertFail | Undefined | Terminate

datatype ('r, 's) outcome = Returns 'r 's | Throws 's | Aborts failure

definition bind ::
  "('r, 's) outcome option \<Rightarrow> ('r \<Rightarrow> 's \<Rightarrow> ('q, 's) outcome option) \<Rightarrow> ('q, 's) outcome option" where
  "bind m f =
     (case m of
        None \<Rightarrow> None
      | Some (Returns r s) \<Rightarrow> f r s
      | Some (Throws s) \<Rightarrow> Some (Throws s)
      | Some (Aborts e) \<Rightarrow> Some (Aborts e))"

text \<open>\<open>try { m } catch (...) { h; throw; }\<close>: the handler runs on the state the exception left.\<close>

definition catch_rethrow ::
  "('r, 's) outcome option \<Rightarrow> ('s \<Rightarrow> (unit, 's) outcome option) \<Rightarrow> ('r, 's) outcome option" where
  "catch_rethrow m h =
     (case m of
        Some (Throws s) \<Rightarrow> bind (h s) (\<lambda>_ s'. Some (Throws s'))
      | _ \<Rightarrow> m)"

text \<open>A \<open>noexcept\<close> function: an exception that would leave it ends the program.\<close>

definition noexcept :: "('r, 's) outcome option \<Rightarrow> ('r, 's) outcome option" where
  "noexcept m = (case m of Some (Throws s) \<Rightarrow> Some (Aborts Terminate) | _ \<Rightarrow> m)"

lemma bind_mono [partial_function_mono]:
  assumes mf: "mono_option B" and mg: "\<And>y s. mono_option (\<lambda>f. C y s f)"
  shows "mono_option (\<lambda>f. bind (B f) (\<lambda>y s. C y s f))"
proof (rule monotoneI)
  fix f g :: "'a \<Rightarrow> 'b option"
  assume fg: "fun_ord option_ord f g"
  from mf have "option_ord (B f) (B g)"
    by (rule monotoneD [of _ _ _ f g]) (rule fg)
  then have 1: "B f = None \<or> B f = B g"
    by (simp add: flat_ord_def)
  from mg have "\<And>y s. option_ord (C y s f) (C y s g)"
    by (rule monotoneD) (rule fg)
  then have 2: "\<And>y s. C y s f = None \<or> C y s f = C y s g"
    by (simp add: flat_ord_def)
  show "option_ord (bind (B f) (\<lambda>y s. C y s f)) (bind (B g) (\<lambda>y s. C y s g))"
  proof (cases "B f")
    case None
    then show ?thesis by (simp add: flat_ord_def bind_def)
  next
    case (Some a)
    with 1 have eq: "B g = Some a" by simp
    show ?thesis
      using 2 by (cases a) (simp_all add: flat_ord_def bind_def Some eq)
  qed
qed

lemma catch_rethrow_mono [partial_function_mono]:
  assumes mf: "mono_option B"
  shows "mono_option (\<lambda>f. catch_rethrow (B f) h)"
proof (rule monotoneI)
  fix f g :: "'a \<Rightarrow> 'b option"
  assume fg: "fun_ord option_ord f g"
  from mf have "option_ord (B f) (B g)"
    by (rule monotoneD [of _ _ _ f g]) (rule fg)
  then have "B f = None \<or> B f = B g"
    by (simp add: flat_ord_def)
  then show "option_ord (catch_rethrow (B f) h) (catch_rethrow (B g) h)"
  proof
    assume "B f = None"
    then show ?thesis by (simp add: flat_ord_def catch_rethrow_def)
  next
    assume "B f = B g"
    then show ?thesis by (simp add: flat_ord_def)
  qed
qed

definition alloc_fails :: "'a state \<Rightarrow> bool" where
  "alloc_fails st = (case oom st of [] \<Rightarrow> False | b # _ \<Rightarrow> b)"

definition alloc_next :: "'a state \<Rightarrow> 'a state" where
  "alloc_next st = st\<lparr>oom := tl (oom st)\<rparr>"

section \<open>\<open>sentinel_node\<close>\<close>

text \<open>
  \<open>add_iterator\<close> is \<open>share.push_back(it)\<close>: it reallocates when the vector is full.
  The new capacity is that of libstdc++ (\<open>size() + max(size(), 1)\<close>): the capacity
  doubles, and an empty vector gets room for one entry.
\<close>

definition grown :: "nat \<Rightarrow> nat" where
  "grown n = n + max n 1"

definition add_iterator :: "'a state \<Rightarrow> addr \<Rightarrow> addr \<Rightarrow> (unit, 'a state) outcome option" where
  "add_iterator st n it =
     (case nodes st n of
        None \<Rightarrow> Some (Aborts Undefined)
      | Some nd \<Rightarrow>
          if length (share nd) < share_cap nd
          then Some (Returns () (st\<lparr>nodes := (nodes st)(n \<mapsto> nd\<lparr>share := share nd @ [it]\<rparr>)\<rparr>))
          else if alloc_fails st then Some (Throws (alloc_next st))
          else Some (Returns () ((alloc_next st)
                 \<lparr>nodes := (nodes st)(n \<mapsto> nd\<lparr>share := share nd @ [it],
                                                 share_cap := grown (length (share nd))\<rparr>)\<rparr>)))"

text \<open>\<open>remove_iterator\<close> erases the first occurrence found by \<open>std::find\<close>, if any.\<close>

definition remove_iterator :: "'a state \<Rightarrow> addr \<Rightarrow> addr \<Rightarrow> (unit, 'a state) outcome option" where
  "remove_iterator st n it =
     (case nodes st n of
        None \<Rightarrow> Some (Aborts Undefined)
      | Some nd \<Rightarrow> Some (Returns () (st\<lparr>nodes := (nodes st)(n \<mapsto> nd\<lparr>share := remove1 it (share nd)\<rparr>)\<rparr>)))"

text \<open>
  The destructor \<open>~sentinel_node\<close> walks \<open>share\<close> and writes \<open>nullptr\<close> into the
  \<open>node'\<close> of every iterator listed; a listed iterator that no longer exists is a write
  through a dangling pointer.
\<close>

fun reset_iterators :: "addr list \<Rightarrow> (addr \<rightharpoonup> s_iterator) \<Rightarrow> (addr \<rightharpoonup> s_iterator) option" where
  "reset_iterators [] m = Some m"
| "reset_iterators (i # js) m =
     (case m i of
        None \<Rightarrow> None
      | Some it \<Rightarrow> reset_iterators js (m(i \<mapsto> it\<lparr>node' := None\<rparr>)))"

text \<open>\<open>delete p\<close> on a node: the destructor, then the memory is gone.\<close>

definition delete_node :: "'a state \<Rightarrow> addr \<Rightarrow> (unit, 'a state) outcome option" where
  "delete_node st a =
     (case nodes st a of
        None \<Rightarrow> Some (Aborts Undefined)
      | Some nd \<Rightarrow>
          (case reset_iterators (share nd) (iters st) of
             None \<Rightarrow> Some (Aborts Undefined)
           | Some m \<Rightarrow> Some (Returns () (st\<lparr>iters := m, nodes := (nodes st)(a := None)\<rparr>))))"

text \<open>Writes through a node pointer.\<close>

definition set_left :: "'a state \<Rightarrow> addr option \<Rightarrow> addr option \<Rightarrow> (unit, 'a state) outcome option" where
  "set_left st p v =
     (case p of
        None \<Rightarrow> Some (Aborts Undefined)
      | Some a \<Rightarrow>
          (case nodes st a of
             None \<Rightarrow> Some (Aborts Undefined)
           | Some nd \<Rightarrow> Some (Returns () (st\<lparr>nodes := (nodes st)(a \<mapsto> nd\<lparr>left := v\<rparr>)\<rparr>))))"

definition set_right :: "'a state \<Rightarrow> addr option \<Rightarrow> addr option \<Rightarrow> (unit, 'a state) outcome option" where
  "set_right st p v =
     (case p of
        None \<Rightarrow> Some (Aborts Undefined)
      | Some a \<Rightarrow>
          (case nodes st a of
             None \<Rightarrow> Some (Aborts Undefined)
           | Some nd \<Rightarrow> Some (Returns () (st\<lparr>nodes := (nodes st)(a \<mapsto> nd\<lparr>right := v\<rparr>)\<rparr>))))"

definition set_parent :: "'a state \<Rightarrow> addr option \<Rightarrow> addr option \<Rightarrow> (unit, 'a state) outcome option" where
  "set_parent st p v =
     (case p of
        None \<Rightarrow> Some (Aborts Undefined)
      | Some a \<Rightarrow>
          (case nodes st a of
             None \<Rightarrow> Some (Aborts Undefined)
           | Some nd \<Rightarrow> Some (Returns () (st\<lparr>nodes := (nodes st)(a \<mapsto> nd\<lparr>parent := v\<rparr>)\<rparr>))))"

text \<open>Reads through a node pointer.\<close>

definition get_node :: "'a state \<Rightarrow> addr option \<Rightarrow> ('a sentinel_node, 'a state) outcome option" where
  "get_node st p =
     (case p of
        None \<Rightarrow> Some (Aborts Undefined)
      | Some a \<Rightarrow>
          (case nodes st a of
             None \<Rightarrow> Some (Aborts Undefined)
           | Some nd \<Rightarrow> Some (Returns nd st)))"

text \<open>\<open>new node(l, r, p, v)\<close>: one allocation request; the new node's \<open>share\<close> is empty.\<close>

definition new_node ::
  "'a state \<Rightarrow> addr option \<Rightarrow> 'a \<Rightarrow> (addr, 'a state) outcome option" where
  "new_node st p v =
     (if alloc_fails st then Some (Throws (alloc_next st))
      else Some (Returns (brk st) ((alloc_next st)
             \<lparr>nodes := (nodes st)(brk st \<mapsto>
                 \<lparr>left = None, right = None, parent = p, share = [], share_cap = 0,
                  value' = Some v\<rparr>),
              brk := Suc (brk st)\<rparr>)))"

section \<open>\<open>s_iterator\<close>\<close>

text \<open>
  An iterator object lives at an address of its own, since the nodes point back at it.
  The constructor \<open>s_iterator(node, container)\<close> registers the new object with its
  node (\<open>append_to_node\<close>); when the registration throws, the object never comes to
  life.
\<close>

definition s_iterator_ctor ::
  "'a state \<Rightarrow> addr option \<Rightarrow> addr option \<Rightarrow> (addr, 'a state) outcome option" where
  "s_iterator_ctor st nd c =
     (let i = brk st;
          st1 = st\<lparr>iters := (iters st)(i \<mapsto> \<lparr>node' = nd, container' = c\<rparr>), brk := Suc i\<rparr>
      in case nd of
           None \<Rightarrow> Some (Returns i st1)
         | Some n \<Rightarrow>
             (case add_iterator st1 n i of
                Some (Throws st2) \<Rightarrow> Some (Throws (st2\<lparr>iters := (iters st2)(i := None)\<rparr>))
              | r \<Rightarrow> bind r (\<lambda>_ st2. Some (Returns i st2))))"

text \<open>The copy constructor \<open>s_iterator(const s_iterator& other)\<close>.\<close>

definition s_iterator_copy :: "'a state \<Rightarrow> addr \<Rightarrow> (addr, 'a state) outcome option" where
  "s_iterator_copy st other =
     (case iters st other of
        None \<Rightarrow> Some (Aborts Undefined)
      | Some it \<Rightarrow> s_iterator_ctor st (node' it) (container' it))"

text \<open>The destructor \<open>~s_iterator\<close>.\<close>

definition s_iterator_dtor :: "'a state \<Rightarrow> addr \<Rightarrow> (unit, 'a state) outcome option" where
  "s_iterator_dtor st i =
     (case iters st i of
        None \<Rightarrow> Some (Aborts Undefined)
      | Some it \<Rightarrow>
          bind (case node' it of None \<Rightarrow> Some (Returns () st) | Some n \<Rightarrow> remove_iterator st n i)
            (\<lambda>_ st1. Some (Returns () (st1\<lparr>iters := (iters st1)(i := None)\<rparr>))))"

text \<open>
  \<open>move_to_another_node\<close>: swap the new node in, register there (on an exception swap
  back and rethrow), then deregister from the old node.
\<close>

definition move_to_another_node ::
  "'a state \<Rightarrow> addr \<Rightarrow> addr option \<Rightarrow> (unit, 'a state) outcome option" where
  "move_to_another_node st i new =
     (case iters st i of
        None \<Rightarrow> Some (Aborts Undefined)
      | Some it \<Rightarrow>
          (let st1 = st\<lparr>iters := (iters st)(i \<mapsto> it\<lparr>node' := new\<rparr>)\<rparr> in
           bind (case (case new of None \<Rightarrow> Some (Returns () st1) | Some n \<Rightarrow> add_iterator st1 n i) of
                   Some (Throws st2) \<Rightarrow> Some (Throws (st2\<lparr>iters := (iters st2)(i \<mapsto> it)\<rparr>))
                 | r \<Rightarrow> r)
             (\<lambda>_ st2. case node' it of
                         None \<Rightarrow> Some (Returns () st2)
                       | Some old \<Rightarrow> remove_iterator st2 old i)))"

text \<open>\<open>operator=\<close> of the iterator.\<close>

definition s_iterator_assign :: "'a state \<Rightarrow> addr \<Rightarrow> addr \<Rightarrow> (unit, 'a state) outcome option" where
  "s_iterator_assign st i other =
     (if i = other then Some (Returns () st)
      else case iters st i of
             None \<Rightarrow> Some (Aborts Undefined)
           | Some it \<Rightarrow>
               (case iters st other of
                  None \<Rightarrow> Some (Aborts Undefined)
                | Some ot \<Rightarrow>
                    move_to_another_node
                      (st\<lparr>iters := (iters st)(i \<mapsto> it\<lparr>container' := container' ot\<rparr>)\<rparr>) i (node' ot)))"

text \<open>\<open>base_assert\<close>: \<open>assert(node' && node'->left != node')\<close>.\<close>

definition base_assert :: "'a state \<Rightarrow> addr \<Rightarrow> (unit, 'a state) outcome option" where
  "base_assert st i =
     (case iters st i of
        None \<Rightarrow> Some (Aborts Undefined)
      | Some it \<Rightarrow>
          (case node' it of
             None \<Rightarrow> Some (Aborts AssertFail)
           | Some n \<Rightarrow>
               (case nodes st n of
                  None \<Rightarrow> Some (Aborts Undefined)
                | Some nd \<Rightarrow>
                    if left nd \<noteq> Some n then Some (Returns () st) else Some (Aborts AssertFail))))"

text \<open>\<open>operator*\<close>: reading \<open>value'\<close> of the anchor, which is no \<open>node\<close>, is undefined.\<close>

definition deref :: "'a state \<Rightarrow> addr \<Rightarrow> ('a, 'a state) outcome option" where
  "deref st i =
     bind (base_assert st i) (\<lambda>_ st1.
       case iters st1 i of
         None \<Rightarrow> Some (Aborts Undefined)
       | Some it \<Rightarrow>
           bind (get_node st1 (node' it)) (\<lambda>nd st2.
             case value' nd of
               None \<Rightarrow> Some (Aborts Undefined)
             | Some v \<Rightarrow> Some (Returns v st2)))"

text \<open>The loops of \<open>find_min\<close> and \<open>find_max\<close>.\<close>

partial_function (option) find_min :: "'a state \<Rightarrow> addr option \<Rightarrow> (addr, 'a state) outcome option" where
  "find_min st current =
     (case current of
        None \<Rightarrow> Some (Aborts Undefined)
      | Some c \<Rightarrow>
          (case nodes st c of
             None \<Rightarrow> Some (Aborts Undefined)
           | Some nd \<Rightarrow>
               (case left nd of
                  None \<Rightarrow> Some (Returns c st)
                | Some l \<Rightarrow> find_min st (Some l))))"

declare find_min.simps [code]

partial_function (option) find_max :: "'a state \<Rightarrow> addr option \<Rightarrow> (addr, 'a state) outcome option" where
  "find_max st current =
     (case current of
        None \<Rightarrow> Some (Aborts Undefined)
      | Some c \<Rightarrow>
          (case nodes st c of
             None \<Rightarrow> Some (Aborts Undefined)
           | Some nd \<Rightarrow>
               (case right nd of
                  None \<Rightarrow> Some (Returns c st)
                | Some r \<Rightarrow> find_max st (Some r))))"

declare find_max.simps [code]

text \<open>
  \<open>find_next\<close>: the leftmost node of the right subtree, or else the first ancestor
  reached from a left child. \<open>climb_from_right\<close> is its loop
  \<open>while (parent && node == parent->right)\<close>.
\<close>

partial_function (option) climb_from_right ::
  "'a state \<Rightarrow> addr \<Rightarrow> addr option \<Rightarrow> (addr option, 'a state) outcome option" where
  "climb_from_right st n p =
     (case p of
        None \<Rightarrow> Some (Returns None st)
      | Some pa \<Rightarrow>
          (case nodes st pa of
             None \<Rightarrow> Some (Aborts Undefined)
           | Some pn \<Rightarrow>
               if right pn = Some n then climb_from_right st pa (parent pn)
               else Some (Returns (Some pa) st)))"

declare climb_from_right.simps [code]

definition find_next :: "'a state \<Rightarrow> addr option \<Rightarrow> (addr option, 'a state) outcome option" where
  "find_next st p =
     (case p of
        None \<Rightarrow> Some (Aborts Undefined)
      | Some n \<Rightarrow>
          (case nodes st n of
             None \<Rightarrow> Some (Aborts Undefined)
           | Some nd \<Rightarrow>
               (case right nd of
                  Some r \<Rightarrow> bind (find_min st (Some r)) (\<lambda>m st1. Some (Returns (Some m) st1))
                | None \<Rightarrow> climb_from_right st n (parent nd))))"

text \<open>\<open>operator++\<close> (prefix).\<close>

definition increment :: "'a state \<Rightarrow> addr \<Rightarrow> (unit, 'a state) outcome option" where
  "increment st i =
     bind (base_assert st i) (\<lambda>_ st1.
       case iters st1 i of
         None \<Rightarrow> Some (Aborts Undefined)
       | Some it \<Rightarrow>
           bind (find_next st1 (node' it)) (\<lambda>new st2. move_to_another_node st2 i new))"

text \<open>
  \<open>operator--\<close> (prefix); \<open>climb_from_left\<close> is its loop
  \<open>while (parent != nullptr && new_node == parent->left)\<close>.
\<close>

partial_function (option) climb_from_left ::
  "'a state \<Rightarrow> addr \<Rightarrow> addr option \<Rightarrow> (addr option, 'a state) outcome option" where
  "climb_from_left st n p =
     (case p of
        None \<Rightarrow> Some (Returns None st)
      | Some pa \<Rightarrow>
          (case nodes st pa of
             None \<Rightarrow> Some (Aborts Undefined)
           | Some pn \<Rightarrow>
               if left pn = Some n then climb_from_left st pa (parent pn)
               else Some (Returns (Some pa) st)))"

declare climb_from_left.simps [code]

definition decrement :: "'a state \<Rightarrow> addr \<Rightarrow> (unit, 'a state) outcome option" where
  "decrement st i =
     bind (base_assert st i) (\<lambda>_ st1.
       case iters st1 i of
         None \<Rightarrow> Some (Aborts Undefined)
       | Some it \<Rightarrow>
           (case node' it of
              None \<Rightarrow> Some (Aborts Undefined)
            | Some n \<Rightarrow>
                bind (get_node st1 (Some n)) (\<lambda>nd st2.
                  bind (case left nd of
                          Some l \<Rightarrow> bind (find_max st2 (Some l)) (\<lambda>m st3. Some (Returns (Some m) st3))
                        | None \<Rightarrow> climb_from_left st2 n (parent nd))
                    (\<lambda>new st3.
                       bind (move_to_another_node st3 i new) (\<lambda>_ st4. base_assert st4 i)))))"

text \<open>
  \<open>operator==\<close>: \<open>assert(left.container' == right.container')\<close>,
  \<open>assert(left.container')\<close>, then the nodes are compared.
\<close>

definition iter_eq :: "'a state \<Rightarrow> addr \<Rightarrow> addr \<Rightarrow> (bool, 'a state) outcome option" where
  "iter_eq st l r =
     (case iters st l of
        None \<Rightarrow> Some (Aborts Undefined)
      | Some li \<Rightarrow>
          (case iters st r of
             None \<Rightarrow> Some (Aborts Undefined)
           | Some ri \<Rightarrow>
               if container' li \<noteq> container' ri then Some (Aborts AssertFail)
               else if container' li = None then Some (Aborts AssertFail)
               else Some (Returns (node' li = node' ri) st)))"

text \<open>
  \<open>swap(left, right)\<close> of two iterators: the containers and the nodes are exchanged,
  then every iterator listed by the former node of \<open>left\<close> is pointed at that node, and
  every iterator listed by the former node of \<open>right\<close> at that one. Both nodes are read
  through without a test.
\<close>

fun point_iterators :: "addr list \<Rightarrow> addr \<Rightarrow> (addr \<rightharpoonup> s_iterator) \<Rightarrow> (addr \<rightharpoonup> s_iterator) option" where
  "point_iterators [] n m = Some m"
| "point_iterators (i # js) n m =
     (case m i of
        None \<Rightarrow> None
      | Some it \<Rightarrow> point_iterators js n (m(i \<mapsto> it\<lparr>node' := Some n\<rparr>)))"

definition s_iterator_swap :: "'a state \<Rightarrow> addr \<Rightarrow> addr \<Rightarrow> (unit, 'a state) outcome option" where
  "s_iterator_swap st l r =
     (case iters st l of
        None \<Rightarrow> Some (Aborts Undefined)
      | Some li \<Rightarrow>
          (case iters st r of
             None \<Rightarrow> Some (Aborts Undefined)
           | Some ri \<Rightarrow>
               (let m0 = (iters st)(l \<mapsto> li\<lparr>node' := node' ri, container' := container' ri\<rparr>);
                    m1 = m0(r \<mapsto> ri\<lparr>node' := node' li, container' := container' li\<rparr>)
                in case node' li of
                     None \<Rightarrow> Some (Aborts Undefined)
                   | Some ln \<Rightarrow>
                       (case nodes st ln of
                          None \<Rightarrow> Some (Aborts Undefined)
                        | Some lnd \<Rightarrow>
                            (case point_iterators (share lnd) ln m1 of
                               None \<Rightarrow> Some (Aborts Undefined)
                             | Some m2 \<Rightarrow>
                                 (case node' ri of
                                    None \<Rightarrow> Some (Aborts Undefined)
                                  | Some rn \<Rightarrow>
                                      (case nodes st rn of
                                         None \<Rightarrow> Some (Aborts Undefined)
                                       | Some rnd \<Rightarrow>
                                           (case point_iterators (share rnd) rn m2 of
                                              None \<Rightarrow> Some (Aborts Undefined)
                                            | Some m3 \<Rightarrow>
                                                Some (Returns () (st\<lparr>iters := m3\<rparr>))))))))))"

section \<open>\<open>set\<close>: the tree engine\<close>

definition take_root :: "'a state \<Rightarrow> addr \<Rightarrow> (addr option, 'a state) outcome option" where
  "take_root st this = bind (get_node st (Some this)) (\<lambda>f st1. Some (Returns (left f) st1))"

definition put_root :: "'a state \<Rightarrow> addr \<Rightarrow> addr option \<Rightarrow> (unit, 'a state) outcome option" where
  "put_root st this p = set_left st (Some this) p"

text \<open>Reads and writes of the member \<open>size_\<close>.\<close>

definition set_size :: "'a state \<Rightarrow> addr \<Rightarrow> (nat, 'a state) outcome option" where
  "set_size st this =
     (case size' st this of
        None \<Rightarrow> Some (Aborts Undefined)
      | Some n \<Rightarrow> Some (Returns n st))"

definition set_empty :: "'a state \<Rightarrow> addr \<Rightarrow> (bool, 'a state) outcome option" where
  "set_empty st this = bind (set_size st this) (\<lambda>n st1. Some (Returns (n = 0) st1))"

definition put_size :: "'a state \<Rightarrow> addr \<Rightarrow> nat \<Rightarrow> (unit, 'a state) outcome option" where
  "put_size st this n =
     (case size' st this of
        None \<Rightarrow> Some (Aborts Undefined)
      | Some _ \<Rightarrow> Some (Returns () (st\<lparr>size' := (size' st)(this \<mapsto> n)\<rparr>)))"

text \<open>
  \<open>del_subtree\<close>: both subtrees, then the node itself; \<open>d_node->right\<close> is read after
  the left subtree is gone.
\<close>

partial_function (option) del_subtree ::
  "'a state \<Rightarrow> addr option \<Rightarrow> (unit, 'a state) outcome option" where
  "del_subtree st d_node =
     (case d_node of
        None \<Rightarrow> Some (Returns () st)
      | Some a \<Rightarrow>
          bind (get_node st (Some a)) (\<lambda>nd st1.
          bind (del_subtree st1 (left nd)) (\<lambda>_ st2.
          bind (get_node st2 (Some a)) (\<lambda>nd2 st3.
          bind (del_subtree st3 (right nd2)) (\<lambda>_ st4.
          delete_node st4 a)))))"

declare del_subtree.simps [code]

text \<open>
  \<open>copy_tree\<close>: a fresh node with the value of \<open>other_root\<close>, then the copies of its
  subtrees hung below it; on an exception the part built so far is torn down
  (\<open>del_subtree(new_node)\<close>; when \<open>new node\<close> itself threw, \<open>new_node\<close> is still null
  and nothing is done).
\<close>

partial_function (option) copy_tree ::
  "'a state \<Rightarrow> addr option \<Rightarrow> (addr option, 'a state) outcome option" where
  "copy_tree st other_root =
     (case other_root of
        None \<Rightarrow> Some (Returns None st)
      | Some a \<Rightarrow>
          bind (get_node st (Some a)) (\<lambda>orig st0.
            case value' orig of
              None \<Rightarrow> Some (Aborts Undefined)
            | Some v \<Rightarrow>
                bind (new_node st0 None v) (\<lambda>n st1.
                  catch_rethrow
                    (bind (get_node st1 (Some a)) (\<lambda>o1 st2.
                     bind (case left o1 of
                             None \<Rightarrow> Some (Returns () st2)
                           | Some l \<Rightarrow>
                               bind (copy_tree st2 (Some l)) (\<lambda>c st3.
                               bind (set_left st3 (Some n) c) (\<lambda>_ st4.
                               bind (get_node st4 (Some n)) (\<lambda>nn st5.
                               set_parent st5 (left nn) (Some n))))) (\<lambda>_ st6.
                     bind (get_node st6 (Some a)) (\<lambda>o2 st7.
                     bind (case right o2 of
                             None \<Rightarrow> Some (Returns () st7)
                           | Some r \<Rightarrow>
                               bind (copy_tree st7 (Some r)) (\<lambda>c st8.
                               bind (set_right st8 (Some n) c) (\<lambda>_ st9.
                               bind (get_node st9 (Some n)) (\<lambda>nn st10.
                               set_parent st10 (right nn) (Some n))))) (\<lambda>_ st11.
                     Some (Returns (Some n) st11))))))
                    (\<lambda>s. del_subtree s (Some n)))))"

declare copy_tree.simps [code]

text \<open>
  \<open>merge(left, right)\<close>: the leftmost node of \<open>right\<close> is unhooked and becomes the
  root of the merged subtree. Every \<open>min_right->...\<close> of the source is a read of
  the heap at that point.
\<close>

definition relink_parent :: "'a state \<Rightarrow> addr option \<Rightarrow> (unit, 'a state) outcome option" where
  "relink_parent st min_right =
     bind (get_node st min_right) (\<lambda>mn st1.
       case right mn of
         None \<Rightarrow> Some (Returns () st1)
       | Some r \<Rightarrow> set_parent st1 (Some r) (parent mn))"

definition merge ::
  "'a state \<Rightarrow> addr option \<Rightarrow> addr option \<Rightarrow> (addr option, 'a state) outcome option" where
  "merge st l r =
     (if l = None then Some (Returns r st)
      else if r = None then Some (Returns l st)
      else
        bind (find_min st r) (\<lambda>m st1.
          let min_right = Some m in
          if min_right = r then
            bind (set_left st1 min_right l) (\<lambda>_ st2.
            bind (set_parent st2 l min_right) (\<lambda>_ st3.
            Some (Returns r st3)))
          else
            bind (get_node st1 min_right) (\<lambda>mn st2.
            bind (get_node st2 (parent mn)) (\<lambda>mp st3.
            bind (if left mp = min_right
                  then bind (set_left st3 (parent mn) (right mn)) (\<lambda>_ st4. relink_parent st4 min_right)
                  else bind (set_right st3 (parent mn) (right mn)) (\<lambda>_ st4. relink_parent st4 min_right))
              (\<lambda>_ st5.
            bind (set_left st5 min_right l) (\<lambda>_ st6.
            bind (set_right st6 min_right r) (\<lambda>_ st7.
            bind (set_parent st7 l min_right) (\<lambda>_ st8.
            bind (set_parent st8 r min_right) (\<lambda>_ st9.
            Some (Returns min_right st9))))))))))"

section \<open>\<open>set\<close>: the container\<close>

text \<open>
  The constructor \<open>set(size)\<close>: the anchor's \<open>left\<close> and \<open>parent\<close> point at the
  anchor itself. The new object gets a fresh address.
\<close>

definition set_ctor :: "'a state \<Rightarrow> nat \<Rightarrow> (addr, 'a state) outcome option" where
  "set_ctor st n =
     (let this = brk st in
      Some (Returns this (st
        \<lparr>nodes := (nodes st)(this \<mapsto>
            \<lparr>left = Some this, right = None, parent = Some this, share = [], share_cap = 0,
             value' = None\<rparr>),
         size' := (size' st)(this \<mapsto> n),
         brk := Suc this\<rparr>)))"

definition set_default_ctor :: "'a state \<Rightarrow> (addr, 'a state) outcome option" where
  "set_default_ctor st = noexcept (set_ctor st 0)"

definition set_end :: "'a state \<Rightarrow> addr \<Rightarrow> (addr, 'a state) outcome option" where
  "set_end st this = noexcept (s_iterator_ctor st (Some this) (Some this))"

definition set_begin :: "'a state \<Rightarrow> addr \<Rightarrow> (addr, 'a state) outcome option" where
  "set_begin st this =
     noexcept
       (bind (set_empty st this) (\<lambda>e st1.
          if e then set_end st1 this
          else bind (take_root st1 this) (\<lambda>root st2.
               bind (find_min st2 root) (\<lambda>m st3.
               s_iterator_ctor st3 (Some m) (Some this)))))"

definition clear :: "'a state \<Rightarrow> addr \<Rightarrow> (unit, 'a state) outcome option" where
  "clear st this =
     noexcept
       (bind (set_empty st this) (\<lambda>e st1.
          if e then Some (Returns () st1)
          else bind (take_root st1 this) (\<lambda>root st2.
               bind (del_subtree st2 root) (\<lambda>_ st3.
               bind (set_left st3 (Some this) None) (\<lambda>_ st4.
               put_size st4 this 0)))))"

text \<open>
  The destructor \<open>~set\<close>: \<open>clear()\<close>, then the members go, the anchor among them
  (its destructor resets the iterators that stand on \<open>end()\<close>).
\<close>

definition set_dtor :: "'a state \<Rightarrow> addr \<Rightarrow> (unit, 'a state) outcome option" where
  "set_dtor st this =
     noexcept
       (bind (clear st this) (\<lambda>_ st1.
        bind (delete_node st1 this) (\<lambda>_ st2.
        Some (Returns () (st2\<lparr>size' := (size' st2)(this := None)\<rparr>)))))"

text \<open>
  The copy constructor: \<open>set(other.size())\<close>, then the copied tree is hung below the
  new anchor. When the copy throws, \<open>size_\<close> is reset, and the object, whose
  delegated constructor had finished, is destroyed.
\<close>

definition set_copy_ctor :: "'a state \<Rightarrow> addr \<Rightarrow> (addr, 'a state) outcome option" where
  "set_copy_ctor st other =
     bind (set_size st other) (\<lambda>n st0.
     bind (set_ctor st0 n) (\<lambda>this st1.
     bind (catch_rethrow
             (bind (set_empty st1 other) (\<lambda>e st2.
                if e then Some (Returns () st2)
                else bind (take_root st2 other) (\<lambda>oroot st3.
                     bind (copy_tree st3 oroot) (\<lambda>c st4.
                     bind (put_root st4 this c) (\<lambda>_ st5.
                     bind (take_root st5 this) (\<lambda>root st6.
                     set_parent st6 root (Some this)))))))
             (\<lambda>s. bind (put_size s this 0) (\<lambda>_ s1. set_dtor s1 this)))
       (\<lambda>_ st7. Some (Returns this st7))))"

text \<open>
  An iterator object that lives until the block \<open>m\<close> is left, by a return or by an
  exception: its destructor runs on the way out.
\<close>

definition scoped :: "addr \<Rightarrow> ('r, 'a state) outcome option \<Rightarrow> ('r, 'a state) outcome option" where
  "scoped i m =
     (case m of
        Some (Returns r s) \<Rightarrow> bind (s_iterator_dtor s i) (\<lambda>_ s'. Some (Returns r s'))
      | Some (Throws s) \<Rightarrow> bind (s_iterator_dtor s i) (\<lambda>_ s'. Some (Throws s'))
      | _ \<Rightarrow> m)"

text \<open>
  \<open>return {iterator(p, this), b}\<close>: the temporary iterator is built, the pair's
  iterator is copied from it, and the temporary is destroyed.
\<close>

definition return_pair ::
  "'a state \<Rightarrow> addr option \<Rightarrow> addr \<Rightarrow> bool \<Rightarrow> (addr \<times> bool, 'a state) outcome option" where
  "return_pair st p this b =
     bind (s_iterator_ctor st p (Some this)) (\<lambda>tmp st1.
       scoped tmp (bind (s_iterator_copy st1 tmp) (\<lambda>res st2. Some (Returns (res, b) st2))))"

text \<open>
  The descent of \<open>insert\<close>: it leaves the loop with \<open>current\<close> null and \<open>parent\<close> the
  last node visited, or returns from inside the loop at the node that holds \<open>val\<close>
  (then \<open>current\<close> is that node).
\<close>

partial_function (option) insert_descent ::
  "('a::linorder) state \<Rightarrow> 'a \<Rightarrow> addr option \<Rightarrow> addr option \<Rightarrow>
   (addr option \<times> addr option, 'a state) outcome option" where
  "insert_descent st v par current =
     (case current of
        None \<Rightarrow> Some (Returns (par, None) st)
      | Some c \<Rightarrow>
          bind (get_node st (Some c)) (\<lambda>nd st1.
            case value' nd of
              None \<Rightarrow> Some (Aborts Undefined)
            | Some x \<Rightarrow>
                if v < x then insert_descent st1 v (Some c) (left nd)
                else if v > x then insert_descent st1 v (Some c) (right nd)
                else Some (Returns (Some c, Some c) st1)))"

declare insert_descent.simps [code]

text \<open>
  \<open>insert\<close>. In the empty set: the root is allocated and hooked in, \<open>size_\<close> is
  incremented, the anchor's \<open>parent\<close> is set to null, and the handler around the
  return is \<open>clear()\<close>. Otherwise, after the descent: \<open>it\<close> is default-constructed,
  the node is allocated, \<open>it = iterator(new_node, this)\<close> builds a temporary and
  assigns it; the handler tests \<open>!new_node\<close>, so it deletes nothing: a null
  \<open>new_node\<close> when \<open>new\<close> threw, and a live one goes undeleted. Then the node is
  hooked below \<open>parent\<close> and \<open>{it, true}\<close> is returned by copy.
\<close>

definition set_insert ::
  "('a::linorder) state \<Rightarrow> addr \<Rightarrow> 'a \<Rightarrow> (addr \<times> bool, 'a state) outcome option" where
  "set_insert st this v =
     bind (set_empty st this) (\<lambda>e st0.
       if e then
         bind (new_node st0 (Some this) v) (\<lambda>a st1.
         bind (put_root st1 this (Some a)) (\<lambda>_ st2.
         bind (set_size st2 this) (\<lambda>n st3.
         bind (put_size st3 this (Suc n)) (\<lambda>_ st4.
         bind (set_parent st4 (Some this) None) (\<lambda>_ st5.
         catch_rethrow
           (bind (take_root st5 this) (\<lambda>root st6. return_pair st6 root this True))
           (\<lambda>s. clear s this))))))
       else
         bind (take_root st0 this) (\<lambda>root st1.
         bind (insert_descent st1 v None root) (\<lambda>(par, current) st2.
           case current of
             Some c \<Rightarrow> return_pair st2 (Some c) this False
           | None \<Rightarrow>
               bind (s_iterator_ctor st2 None None) (\<lambda>it st3.
                 scoped it
                   (bind (catch_rethrow
                            (bind (new_node st3 par v) (\<lambda>a st4.
                             bind (bind (s_iterator_ctor st4 (Some a) (Some this)) (\<lambda>tmp st5.
                                     scoped tmp (s_iterator_assign st5 it tmp))) (\<lambda>_ st6.
                             Some (Returns a st6))))
                            (\<lambda>s. Some (Returns () s)))
                      (\<lambda>a st7.
                         bind (get_node st7 par) (\<lambda>pn st8.
                           case value' pn of
                             None \<Rightarrow> Some (Aborts Undefined)
                           | Some x \<Rightarrow>
                               bind (if v < x then set_left st8 par (Some a)
                                     else set_right st8 par (Some a)) (\<lambda>_ st9.
                               bind (set_size st9 this) (\<lambda>n st10.
                               bind (put_size st10 this (Suc n)) (\<lambda>_ st11.
                               bind (s_iterator_copy st11 it) (\<lambda>res st12.
                               Some (Returns (res, True) st12))))))))))))"

text \<open>
  \<open>erase(pos)\<close>. \<open>pos\<close> is the parameter object, a live iterator of its own.
  \<open>--size_\<close> is reached with \<open>size_\<close> not zero only.
\<close>

definition erase :: "'a state \<Rightarrow> addr \<Rightarrow> addr \<Rightarrow> (addr, 'a state) outcome option" where
  "erase st this pos =
     (case iters st pos of
        None \<Rightarrow> Some (Aborts Undefined)
      | Some p \<Rightarrow>
          if container' p \<noteq> Some this then Some (Aborts AssertFail)
          else
            bind (set_empty st this) (\<lambda>e st0.
              if e then set_end st0 this
              else
                bind (find_next st0 (node' p)) (\<lambda>return_value st1.
                let node_to_delete = node' p in
                bind (get_node st1 node_to_delete) (\<lambda>dn st2.
                let del_parent = parent dn in
                bind (merge st2 (left dn) (right dn)) (\<lambda>new_subtree st3.
                bind (get_node st3 del_parent) (\<lambda>dp st4.
                bind (if left dp = node_to_delete then set_left st4 del_parent new_subtree
                      else set_right st4 del_parent new_subtree) (\<lambda>_ st5.
                bind (case new_subtree of
                        None \<Rightarrow> Some (Returns () st5)
                      | Some _ \<Rightarrow> set_parent st5 new_subtree del_parent) (\<lambda>_ st6.
                bind (take_root st6 this) (\<lambda>root st7.
                bind (if root = node_to_delete
                      then put_root st7 this
                             (case new_subtree of None \<Rightarrow> del_parent | Some _ \<Rightarrow> new_subtree)
                      else Some (Returns () st7)) (\<lambda>_ st8.
                bind (case node_to_delete of
                        None \<Rightarrow> Some (Returns () st8)
                      | Some d \<Rightarrow> delete_node st8 d) (\<lambda>_ st9.
                bind (set_size st9 this) (\<lambda>n st10.
                bind (put_size st10 this (n - 1)) (\<lambda>_ st11.
                s_iterator_ctor st11 return_value (Some this))))))))))))))"

text \<open>\<open>lower_bound\<close> and \<open>upper_bound\<close>, with their loops.\<close>

partial_function (option) lower_bound_loop ::
  "('a::linorder) state \<Rightarrow> 'a \<Rightarrow> addr option \<Rightarrow> addr option \<Rightarrow>
   (addr option, 'a state) outcome option" where
  "lower_bound_loop st v current result =
     (case current of
        None \<Rightarrow> Some (Returns result st)
      | Some c \<Rightarrow>
          bind (get_node st (Some c)) (\<lambda>nd st1.
            case value' nd of
              None \<Rightarrow> Some (Aborts Undefined)
            | Some x \<Rightarrow>
                if x \<ge> v then lower_bound_loop st1 v (left nd) (Some c)
                else lower_bound_loop st1 v (right nd) result))"

declare lower_bound_loop.simps [code]

definition lower_bound :: "('a::linorder) state \<Rightarrow> addr \<Rightarrow> 'a \<Rightarrow> (addr, 'a state) outcome option" where
  "lower_bound st this v =
     bind (set_empty st this) (\<lambda>e st0.
       if e then set_end st0 this
       else bind (take_root st0 this) (\<lambda>root st1.
            bind (lower_bound_loop st1 v root None) (\<lambda>result st2.
              case result of
                None \<Rightarrow> set_end st2 this
              | Some _ \<Rightarrow> s_iterator_ctor st2 result (Some this))))"

partial_function (option) upper_bound_loop ::
  "('a::linorder) state \<Rightarrow> 'a \<Rightarrow> addr option \<Rightarrow> addr option \<Rightarrow>
   (addr option, 'a state) outcome option" where
  "upper_bound_loop st v current result =
     (case current of
        None \<Rightarrow> Some (Returns result st)
      | Some c \<Rightarrow>
          bind (get_node st (Some c)) (\<lambda>nd st1.
            case value' nd of
              None \<Rightarrow> Some (Aborts Undefined)
            | Some x \<Rightarrow>
                if x > v then upper_bound_loop st1 v (left nd) (Some c)
                else upper_bound_loop st1 v (right nd) result))"

declare upper_bound_loop.simps [code]

definition upper_bound :: "('a::linorder) state \<Rightarrow> addr \<Rightarrow> 'a \<Rightarrow> (addr, 'a state) outcome option" where
  "upper_bound st this v =
     bind (set_empty st this) (\<lambda>e st0.
       if e then set_end st0 this
       else bind (take_root st0 this) (\<lambda>root st1.
            bind (upper_bound_loop st1 v root None) (\<lambda>result st2.
              case result of
                None \<Rightarrow> set_end st2 this
              | Some _ \<Rightarrow> s_iterator_ctor st2 result (Some this))))"

text \<open>
  \<open>swap(lhs, rhs)\<close>: the anchors exchange \<open>left\<close>, \<open>right\<close> and \<open>parent\<close> (their
  \<open>share\<close> lists stay), the sizes are exchanged, and the two former roots get the
  other anchor as parent.
\<close>

definition swap_sentinel :: "'a state \<Rightarrow> addr \<Rightarrow> addr \<Rightarrow> (unit, 'a state) outcome option" where
  "swap_sentinel st lhs rhs =
     (case nodes st lhs of
        None \<Rightarrow> Some (Aborts Undefined)
      | Some l \<Rightarrow>
          (case nodes st rhs of
             None \<Rightarrow> Some (Aborts Undefined)
           | Some r \<Rightarrow>
               Some (Returns () (st\<lparr>nodes := (nodes st)
                 (lhs \<mapsto> l\<lparr>left := left r, right := right r, parent := parent r\<rparr>,
                  rhs \<mapsto> r\<lparr>left := left l, right := right l, parent := parent l\<rparr>)\<rparr>))))"

definition set_swap :: "'a state \<Rightarrow> addr \<Rightarrow> addr \<Rightarrow> (unit, 'a state) outcome option" where
  "set_swap st lhs rhs =
     noexcept
       (bind (take_root st lhs) (\<lambda>lhs_root st1.
        bind (take_root st1 rhs) (\<lambda>rhs_left st2.
        bind (swap_sentinel st2 lhs rhs) (\<lambda>_ st3.
        bind (set_size st3 lhs) (\<lambda>ln st4.
        bind (set_size st4 rhs) (\<lambda>rn st5.
        bind (put_size st5 lhs rn) (\<lambda>_ st6.
        bind (put_size st6 rhs ln) (\<lambda>_ st7.
        bind (case lhs_root of
                None \<Rightarrow> Some (Returns () st7)
              | Some _ \<Rightarrow> set_parent st7 lhs_root (Some rhs)) (\<lambda>_ st8.
        case rhs_left of
          None \<Rightarrow> Some (Returns () st8)
        | Some _ \<Rightarrow> set_parent st8 rhs_left (Some lhs))))))))))"

section \<open>Client code\<close>

text \<open>
  The statement \<open>s.insert(v);\<close> for each \<open>v\<close> of a list in turn: the pair that
  \<open>insert\<close> returns is a temporary, and its iterator is destroyed at the end of the
  statement.
\<close>

fun insert_all :: "('a::linorder) state \<Rightarrow> addr \<Rightarrow> 'a list \<Rightarrow> (unit, 'a state) outcome option" where
  "insert_all st this [] = Some (Returns () st)"
| "insert_all st this (v # vs) =
     bind (set_insert st this v) (\<lambda>(i, b) st1.
     bind (s_iterator_dtor st1 i) (\<lambda>_ st2.
     insert_all st2 this vs))"

text \<open>
  The loop \<open>for (auto it = s.begin(); it != s.end(); ++it) out.push_back(*it);\<close>.
  \<open>collect\<close> is the loop from a given \<open>it\<close> on: \<open>s.end()\<close> is a temporary of each
  test, and \<open>!=\<close> is the negation of \<open>==\<close>.
\<close>

partial_function (option) collect ::
  "'a state \<Rightarrow> addr \<Rightarrow> addr \<Rightarrow> 'a list \<Rightarrow> ('a list, 'a state) outcome option" where
  "collect st this it out =
     bind (set_end st this) (\<lambda>e st1.
     bind (iter_eq st1 it e) (\<lambda>same st2.
     bind (s_iterator_dtor st2 e) (\<lambda>_ st3.
     if same then Some (Returns out st3)
     else bind (deref st3 it) (\<lambda>v st4.
          bind (increment st4 it) (\<lambda>_ st5.
          collect st5 this it (out @ [v]))))))"

declare collect.simps [code]

definition traverse :: "'a state \<Rightarrow> addr \<Rightarrow> ('a list, 'a state) outcome option" where
  "traverse st this = bind (set_begin st this) (\<lambda>it st1. collect st1 this it [])"

text \<open>What a caller sees of a call: the value it returned, or the failure that stopped it.\<close>

definition returned :: "('r, 's) outcome option \<Rightarrow> 'r option" where
  "returned m = (case m of Some (Returns r _) \<Rightarrow> Some r | _ \<Rightarrow> None)"

definition aborted :: "('r, 's) outcome option \<Rightarrow> failure option" where
  "aborted m = (case m of Some (Aborts e) \<Rightarrow> Some e | _ \<Rightarrow> None)"

text \<open>Whether an exception has left the call.\<close>

definition throws :: "('r, 's) outcome option \<Rightarrow> bool" where
  "throws m = (case m of Some (Throws _) \<Rightarrow> True | _ \<Rightarrow> False)"

text \<open>
  What a caller finds in the set at \<open>this\<close> after a call: the anchor's root slot
  (\<open>fake_.left\<close>) and \<open>size_\<close> once the call has returned, and the root slot once
  an exception has left the call.
\<close>

definition root_slot_after :: "('r, 'a state) outcome option \<Rightarrow> addr \<Rightarrow> addr option option" where
  "root_slot_after m this =
     (case m of Some (Returns _ s) \<Rightarrow> map_option left (nodes s this) | _ \<Rightarrow> None)"

definition size_after :: "('r, 'a state) outcome option \<Rightarrow> addr \<Rightarrow> nat option" where
  "size_after m this = (case m of Some (Returns _ s) \<Rightarrow> size' s this | _ \<Rightarrow> None)"

definition root_slot_thrown :: "('r, 'a state) outcome option \<Rightarrow> addr \<Rightarrow> addr option option" where
  "root_slot_thrown m this =
     (case m of Some (Throws s) \<Rightarrow> map_option left (nodes s this) | _ \<Rightarrow> None)"

text \<open>
  \<open>auto it = s.begin(); --it; return it == s.end();\<close>, on a set made by the default
  constructor and one \<open>insert\<close>, and on a copy of that set.
\<close>

definition decrement_begin_is_end :: "addr \<Rightarrow> 'a state \<Rightarrow> (bool, 'a state) outcome option" where
  "decrement_begin_is_end this st =
     bind (set_begin st this) (\<lambda>it st1.
     bind (decrement st1 it) (\<lambda>_ st2.
     bind (set_end st2 this) (\<lambda>e st3.
     iter_eq st3 it e)))"

definition initial :: "nat state" where
  "initial = \<lparr>nodes = Map.empty, iters = Map.empty, size' = Map.empty, brk = 0, oom = []\<rparr>"

definition filled_default :: "(addr, nat state) outcome option" where
  "filled_default =
     bind (set_default_ctor initial) (\<lambda>s st.
     bind (insert_all st s [7]) (\<lambda>_ st1.
     Some (Returns s st1)))"

definition copy_of_filled :: "(addr, nat state) outcome option" where
  "copy_of_filled = bind filled_default (\<lambda>s st. set_copy_ctor st s)"

section \<open>The shape of a well-formed container\<close>

text \<open>
  A shape is the tree a container should hold: every node of it carries the address
  of the heap node and the element stored there, so that two shapes are equal only if
  the same elements sit in the same heap nodes.
\<close>

datatype 'a shape = Tip | Fork "'a shape" addr 'a "'a shape"

fun root :: "'a shape \<Rightarrow> addr option" where
  "root Tip = None"
| "root (Fork l a v r) = Some a"

fun addrs :: "'a shape \<Rightarrow> addr list" where
  "addrs Tip = []"
| "addrs (Fork l a v r) = addrs l @ a # addrs r"

fun elems :: "'a shape \<Rightarrow> 'a list" where
  "elems Tip = []"
| "elems (Fork l a v r) = elems l @ v # elems r"

fun inorder :: "'a shape \<Rightarrow> (addr \<times> 'a) list" where
  "inorder Tip = []"
| "inorder (Fork l a v r) = inorder l @ (a, v) # inorder r"

text \<open>The links and the element of a node: all of a node but its \<open>share\<close> vector.\<close>

definition lnk :: "'a sentinel_node \<Rightarrow> addr option \<times> addr option \<times> addr option \<times> 'a option" where
  "lnk nd = (left nd, right nd, parent nd, value' nd)"

text \<open>
  \<open>tree_at h t par\<close>: the heap \<open>h\<close> holds the shape \<open>t\<close>, whose root has the parent
  pointer \<open>par\<close>.
\<close>

fun tree_at :: "(addr \<rightharpoonup> 'a sentinel_node) \<Rightarrow> 'a shape \<Rightarrow> addr option \<Rightarrow> bool" where
  "tree_at h Tip par = True"
| "tree_at h (Fork l a v r) par =
     (case h a of
        None \<Rightarrow> False
      | Some nd \<Rightarrow>
          value' nd = Some v \<and> parent nd = par \<and> left nd = root l \<and> right nd = root r \<and>
          tree_at h l (Some a) \<and> tree_at h r (Some a))"

text \<open>
  \<open>set_inv st this t\<close>: the set at \<open>this\<close> holds the shape \<open>t\<close>. Its anchor has no
  element and no right child; its \<open>left\<close> is the root (in the empty set: null, or an
  anchor, as the constructor and \<open>swap\<close> leave it); \<open>size_\<close> counts the nodes; no
  address occurs twice.
\<close>

definition set_inv :: "'a state \<Rightarrow> addr \<Rightarrow> 'a shape \<Rightarrow> bool" where
  "set_inv st this t =
     (case nodes st this of
        None \<Rightarrow> False
      | Some f \<Rightarrow>
          value' f = None \<and> right f = None \<and>
          (if t = Tip
           then (case left f of
                   None \<Rightarrow> True
                 | Some x \<Rightarrow> (case nodes st x of None \<Rightarrow> False | Some nd \<Rightarrow> value' nd = None))
           else left f = root t) \<and>
          size' st this = Some (length (addrs t)) \<and>
          distinct (this # addrs t) \<and>
          tree_at (nodes st) t (Some this))"

text \<open>The search-tree order: the elements read in order are strictly increasing.\<close>

definition bst :: "('a::linorder) shape \<Rightarrow> bool" where
  "bst t = sorted_wrt (<) (elems t)"

text \<open>\<open>rp h p q\<close>: the heap \<open>h\<close> after \<open>p->parent = q\<close>, for a \<open>p\<close> that is null or live.\<close>

definition rp ::
  "(addr \<rightharpoonup> 'a sentinel_node) \<Rightarrow> addr option \<Rightarrow> addr option \<Rightarrow> (addr \<rightharpoonup> 'a sentinel_node)" where
  "rp h p q =
     (case p of
        None \<Rightarrow> h
      | Some x \<Rightarrow> (case h x of None \<Rightarrow> h | Some nd \<Rightarrow> h(x \<mapsto> nd\<lparr>parent := q\<rparr>)))"

text \<open>
  \<open>bk st st'\<close>: from \<open>st\<close> to \<open>st'\<close> only iterator bookkeeping has happened: every
  node has kept its links and its element (no node was created or freed), the sizes
  and the pending allocation outcomes are the same.
\<close>

definition bk :: "'a state \<Rightarrow> 'a state \<Rightarrow> bool" where
  "bk st st' \<longleftrightarrow>
     (\<forall>a. map_option lnk (nodes st' a) = map_option lnk (nodes st a)) \<and>
     size' st' = size' st \<and> oom st' = oom st \<and> brk st \<le> brk st'"

text \<open>
  The allocator has handed out every address below \<open>brk\<close> and none from \<open>brk\<close> on:
  a live node sits below \<open>brk\<close>.
\<close>

definition nodes_fresh :: "'a state \<Rightarrow> bool" where
  "nodes_fresh st \<longleftrightarrow> (\<forall>a. nodes st a \<noteq> None \<longrightarrow> a < brk st)"

text \<open>
  What the descent of \<open>insert\<close> computes on a shape: the pair (\<open>parent\<close>,
  \<open>current\<close>) it ends with. \<open>ins n v t\<close> is the shape after \<open>insert(v)\<close> when the node
  it allocates gets the address \<open>n\<close>.
\<close>

fun descent :: "('a::linorder) shape \<Rightarrow> 'a \<Rightarrow> addr option \<Rightarrow> addr option \<times> addr option" where
  "descent Tip v p = (p, None)"
| "descent (Fork l a x r) v p =
     (if v < x then descent l v (Some a)
      else if v > x then descent r v (Some a)
      else (Some a, Some a))"

fun ins :: "addr \<Rightarrow> ('a::linorder) \<Rightarrow> 'a shape \<Rightarrow> 'a shape" where
  "ins n v Tip = Fork Tip n v Tip"
| "ins n v (Fork l a x r) =
     (if v < x then Fork (ins n v l) a x r
      else if v > x then Fork l a x (ins n v r)
      else Fork l a x r)"

text \<open>
  What the loops of \<open>lower_bound\<close> and \<open>upper_bound\<close> compute on a shape, from the
  \<open>result\<close> so far.
\<close>

fun lb :: "('a::linorder) shape \<Rightarrow> 'a \<Rightarrow> addr option \<Rightarrow> addr option" where
  "lb Tip v res = res"
| "lb (Fork l a x r) v res = (if x \<ge> v then lb l v (Some a) else lb r v res)"

fun ub :: "('a::linorder) shape \<Rightarrow> 'a \<Rightarrow> addr option \<Rightarrow> addr option" where
  "ub Tip v res = res"
| "ub (Fork l a x r) v res = (if x > v then ub l v (Some a) else ub r v res)"

text \<open>
  Every iterator listed in a \<open>share\<close> vector is a live object: the destructors of the
  nodes write through these pointers.
\<close>

definition shares_live :: "'a state \<Rightarrow> bool" where
  "shares_live st \<longleftrightarrow> (\<forall>a nd. nodes st a = Some nd \<longrightarrow> (\<forall>i\<in>set (share nd). iters st i \<noteq> None))"

text \<open>
  \<open>kept st st'\<close>: every node that is live in \<open>st\<close> is live in \<open>st'\<close> with the same
  links and the same element, and the sizes are the same. Nodes may have been added.
\<close>

definition kept :: "'a state \<Rightarrow> 'a state \<Rightarrow> bool" where
  "kept st st' \<longleftrightarrow>
     (\<forall>a. nodes st a \<noteq> None \<longrightarrow> map_option lnk (nodes st' a) = map_option lnk (nodes st a)) \<and>
     size' st' = size' st"

text \<open>The links and the value of the node at \<open>a\<close>, once an exception has left a call.\<close>

definition node_thrown ::
  "('r, 'a state) outcome option \<Rightarrow> addr \<Rightarrow> (addr option \<times> addr option \<times> addr option \<times> 'a option) option" where
  "node_thrown m a = (case m of Some (Throws s) \<Rightarrow> map_option lnk (nodes s a) | _ \<Rightarrow> None)"

text \<open>
  What \<open>erase\<close> does to a shape. \<open>del_min r\<close> is \<open>r\<close> without its leftmost node, whose
  right subtree takes its place. \<open>merge_shape l r\<close> is the result of \<open>merge\<close>: the
  leftmost node of \<open>r\<close> on top, \<open>l\<close> to its left, the rest of \<open>r\<close> to its right.
  \<open>delete_at a t\<close> puts the merge of the subtrees of the node at \<open>a\<close> in its place.
\<close>

fun del_min :: "'a shape \<Rightarrow> 'a shape" where
  "del_min Tip = Tip"
| "del_min (Fork l a v r) = (if l = Tip then r else Fork (del_min l) a v r)"

definition merge_shape :: "'a shape \<Rightarrow> 'a shape \<Rightarrow> 'a shape" where
  "merge_shape l r =
     (if l = Tip then r
      else if r = Tip then l
      else (case hd (inorder r) of (m, x) \<Rightarrow> Fork l m x (del_min r)))"

fun delete_at :: "addr \<Rightarrow> 'a shape \<Rightarrow> 'a shape" where
  "delete_at a Tip = Tip"
| "delete_at a (Fork l b v r) =
     (if a = b then merge_shape l r
      else if a \<in> set (addrs l) then Fork (delete_at a l) b v r
      else Fork l b v (delete_at a r))"

text \<open>
  The subtree rooted at \<open>a\<close>, the parent pointer of \<open>a\<close>, and the shape with another
  subtree in the place of the one rooted at \<open>a\<close>.
\<close>

fun subtree :: "addr \<Rightarrow> 'a shape \<Rightarrow> 'a shape" where
  "subtree a Tip = Tip"
| "subtree a (Fork l b v r) =
     (if a = b then Fork l b v r
      else if a \<in> set (addrs l) then subtree a l
      else subtree a r)"

fun parent_in :: "addr \<Rightarrow> 'a shape \<Rightarrow> addr option \<Rightarrow> addr option" where
  "parent_in a Tip par = par"
| "parent_in a (Fork l b v r) par =
     (if a = b then par
      else if a \<in> set (addrs l) then parent_in a l (Some b)
      else parent_in a r (Some b))"

fun graft :: "addr \<Rightarrow> 'a shape \<Rightarrow> 'a shape \<Rightarrow> 'a shape" where
  "graft a s Tip = Tip"
| "graft a s (Fork l b v r) =
     (if a = b then s
      else if a \<in> set (addrs l) then Fork (graft a s l) b v r
      else Fork l b v (graft a s r))"

text \<open>
  A write to the child slot that holds \<open>a\<close>, as \<open>erase\<close> and \<open>merge\<close> make it:
  \<open>if (p->left == a) p->left = n; else p->right = n;\<close>, on the links of \<open>p\<close>.
\<close>

definition slot ::
  "addr \<Rightarrow> addr option \<Rightarrow> addr option \<times> addr option \<times> addr option \<times> 'a option \<Rightarrow>
   addr option \<times> addr option \<times> addr option \<times> 'a option" where
  "slot a n k = (case k of (x, y, p, v) \<Rightarrow> if x = Some a then (n, y, p, v) else (x, n, p, v))"

text \<open>The write \<open>p->parent = q\<close>, on the links of \<open>p\<close>.\<close>

definition repar ::
  "addr option \<Rightarrow> addr option \<times> addr option \<times> addr option \<times> 'a option \<Rightarrow>
   addr option \<times> addr option \<times> addr option \<times> 'a option" where
  "repar q k = (case k of (x, y, p, v) \<Rightarrow> (x, y, q, v))"

text \<open>
  The bookkeeping of the iterators, over the whole heap: the \<open>share\<close> vector of every
  node lists, once each, the iterators whose \<open>node'\<close> is that node, and those only; no
  iterator stands on a node that is gone; and the nodes and iterators lie below the
  next fresh address.
\<close>

definition registered :: "'a state \<Rightarrow> bool" where
  "registered st \<longleftrightarrow>
     (\<forall>a nd. nodes st a = Some nd \<longrightarrow>
        distinct (share nd) \<and>
        (\<forall>i. (i \<in> set (share nd)) = (\<exists>q. iters st i = Some q \<and> node' q = Some a))) \<and>
     (\<forall>i q a. iters st i = Some q \<longrightarrow> node' q = Some a \<longrightarrow> nodes st a \<noteq> None) \<and>
     (\<forall>a. nodes st a \<noteq> None \<longrightarrow> a < brk st) \<and>
     (\<forall>i. iters st i \<noteq> None \<longrightarrow> i < brk st)"

text \<open>
  \<open>keeps P m\<close>: the state in which the call \<open>m\<close> ends, by a return or by an exception,
  satisfies \<open>P\<close>. \<open>reads st m\<close>: the call \<open>m\<close> does not throw, and returns in the
  state \<open>st\<close>. \<open>left_by m s\<close>: the call \<open>m\<close> ends in the state \<open>s\<close>, by a return or
  by an exception.
\<close>

definition keeps :: "('s \<Rightarrow> bool) \<Rightarrow> ('r, 's) outcome option \<Rightarrow> bool" where
  "keeps P m = (case m of Some (Returns _ s) \<Rightarrow> P s | Some (Throws s) \<Rightarrow> P s | _ \<Rightarrow> True)"

definition reads :: "'s \<Rightarrow> ('r, 's) outcome option \<Rightarrow> bool" where
  "reads st m = (case m of Some (Returns _ s) \<Rightarrow> s = st | Some (Throws _) \<Rightarrow> False | _ \<Rightarrow> True)"

definition left_by :: "('r, 's) outcome option \<Rightarrow> 's \<Rightarrow> bool" where
  "left_by m s' = (case m of Some (Returns _ s) \<Rightarrow> s' = s | Some (Throws s) \<Rightarrow> s' = s | _ \<Rightarrow> False)"

text \<open>
  The states that client code can be in: it starts from the empty heap, with any
  schedule of allocation failures, and goes on by the public operations of the set and
  of its iterators, each of which returns or throws. An iterator can be made on any
  node and for any container (\<open>made\<close>): this covers the default constructor
  (\<open>s_iterator_ctor st None None\<close>) and the result of \<open>find\<close>, whose search writes
  nothing. The operations that write nothing (\<open>*\<close>, \<open>==\<close>, \<open>size\<close>, \<open>empty\<close>) need
  no rule. The assignment of sets, the postfix \<open>++\<close> and \<open>--\<close>, \<open>erase(value)\<close> and
  the reverse iterators are made of the operations listed.
\<close>

inductive built :: "('a::linorder) state \<Rightarrow> bool" where
  heap: "built \<lparr>nodes = Map.empty, iters = Map.empty, size' = Map.empty, brk = 0, oom = sched\<rparr>"
| constructed: "built st \<Longrightarrow> left_by (set_default_ctor st) st' \<Longrightarrow> built st'"
| copied: "built st \<Longrightarrow> left_by (set_copy_ctor st other) st' \<Longrightarrow> built st'"
| destroyed: "built st \<Longrightarrow> left_by (set_dtor st this) st' \<Longrightarrow> built st'"
| cleared: "built st \<Longrightarrow> left_by (clear st this) st' \<Longrightarrow> built st'"
| inserted: "built st \<Longrightarrow> left_by (set_insert st this v) st' \<Longrightarrow> built st'"
| erased: "built st \<Longrightarrow> left_by (erase st this pos) st' \<Longrightarrow> built st'"
| swapped: "built st \<Longrightarrow> left_by (set_swap st lhs rhs) st' \<Longrightarrow> built st'"
| begun: "built st \<Longrightarrow> left_by (set_begin st this) st' \<Longrightarrow> built st'"
| ended: "built st \<Longrightarrow> left_by (set_end st this) st' \<Longrightarrow> built st'"
| lower: "built st \<Longrightarrow> left_by (lower_bound st this v) st' \<Longrightarrow> built st'"
| upper: "built st \<Longrightarrow> left_by (upper_bound st this v) st' \<Longrightarrow> built st'"
| made: "built st \<Longrightarrow> left_by (s_iterator_ctor st p c) st' \<Longrightarrow> built st'"
| iterator_copied: "built st \<Longrightarrow> left_by (s_iterator_copy st i) st' \<Longrightarrow> built st'"
| iterator_destroyed: "built st \<Longrightarrow> left_by (s_iterator_dtor st i) st' \<Longrightarrow> built st'"
| assigned: "built st \<Longrightarrow> left_by (s_iterator_assign st i other) st' \<Longrightarrow> built st'"
| incremented: "built st \<Longrightarrow> left_by (increment st i) st' \<Longrightarrow> built st'"
| decremented: "built st \<Longrightarrow> left_by (decrement st i) st' \<Longrightarrow> built st'"
| iterators_swapped: "built st \<Longrightarrow> left_by (s_iterator_swap st l r) st' \<Longrightarrow> built st'"

section \<open>Basic facts\<close>

lemma bind_simps [simp]:
  "bind None f = None"
  "bind (Some (Returns r s)) f = f r s"
  "bind (Some (Throws s)) f = Some (Throws s)"
  "bind (Some (Aborts e)) f = Some (Aborts e)"
  by (simp_all add: bind_def)

lemma noexcept_simps [simp]:
  "noexcept None = None"
  "noexcept (Some (Returns r s)) = Some (Returns r s)"
  "noexcept (Some (Throws s)) = Some (Aborts Terminate)"
  "noexcept (Some (Aborts e)) = Some (Aborts e)"
  by (simp_all add: noexcept_def)

lemma tree_at_lnk:
  "(\<And>a. a \<in> set (addrs t) \<Longrightarrow> map_option lnk (h' a) = map_option lnk (h a)) \<Longrightarrow>
   tree_at h' t par = tree_at h t par"
proof (induction t arbitrary: par)
  case Tip
  show ?case by simp
next
  case (Fork l a v r)
  have la: "map_option lnk (h' a) = map_option lnk (h a)"
    using Fork.prems by simp
  have l: "tree_at h' l (Some a) = tree_at h l (Some a)"
    using Fork.prems by (intro Fork.IH) simp
  have r: "tree_at h' r (Some a) = tree_at h r (Some a)"
    using Fork.prems by (intro Fork.IH) simp
  show ?case
    using la l r by (cases "h a"; cases "h' a") (auto simp: lnk_def)
qed

lemma tree_at_reparent:
  assumes "tree_at h t par" and "distinct (addrs t)"
    and "\<And>a. a \<in> set (addrs t) \<Longrightarrow> root t \<noteq> Some a \<Longrightarrow> map_option lnk (h' a) = map_option lnk (h a)"
    and "\<And>a nd. root t = Some a \<Longrightarrow> h a = Some nd \<Longrightarrow>
           map_option lnk (h' a) = Some (left nd, right nd, par', value' nd)"
  shows "tree_at h' t par'"
proof (cases t)
  case Tip
  then show ?thesis by simp
next
  case (Fork l a v r)
  from assms(1) Fork obtain nd where nd: "h a = Some nd" "value' nd = Some v" "left nd = root l"
    "right nd = root r" "tree_at h l (Some a)" "tree_at h r (Some a)"
    by (auto split: option.splits)
  have "map_option lnk (h' a) = Some (left nd, right nd, par', value' nd)"
    using assms(4) [of a nd] Fork nd(1) by simp
  then obtain nd' where nd': "h' a = Some nd'" "lnk nd' = (left nd, right nd, par', value' nd)"
    by auto
  have l: "tree_at h' l (Some a) = tree_at h l (Some a)"
    using assms(2,3) Fork by (intro tree_at_lnk) auto
  have r: "tree_at h' r (Some a) = tree_at h r (Some a)"
    using assms(2,3) Fork by (intro tree_at_lnk) auto
  show ?thesis
    using Fork nd nd' l r by (simp add: lnk_def)
qed

lemma set_inv_iff:
  "set_inv st this t \<longleftrightarrow>
     map_option value' (nodes st this) = Some None \<and>
     map_option right (nodes st this) = Some None \<and>
     (if t = Tip
      then map_option left (nodes st this) = Some None \<or>
           (\<exists>x. map_option left (nodes st this) = Some (Some x) \<and>
                map_option value' (nodes st x) = Some None)
      else map_option left (nodes st this) = Some (root t)) \<and>
     size' st this = Some (length (addrs t)) \<and>
     this \<notin> set (addrs t) \<and> distinct (addrs t) \<and>
     tree_at (nodes st) t (Some this)"
  by (auto simp: set_inv_def split: option.splits)

lemma tree_at_live:
  "tree_at h t par \<Longrightarrow> a \<in> set (addrs t) \<Longrightarrow> \<exists>v. map_option value' (h a) = Some (Some v)"
  by (induction t arbitrary: par) (auto split: option.splits)

lemma tree_at_root_live:
  "tree_at h t par \<Longrightarrow> root t = Some a \<Longrightarrow> \<exists>nd. h a = Some nd"
  by (cases t) (auto split: option.splits)

lemma rp_fields [simp]:
  "map_option left (rp h p q a) = map_option left (h a)"
  "map_option right (rp h p q a) = map_option right (h a)"
  "map_option value' (rp h p q a) = map_option value' (h a)"
  "map_option share (rp h p q a) = map_option share (h a)"
  "map_option share_cap (rp h p q a) = map_option share_cap (h a)"
  "map_option parent (rp h p q a) = (if p = Some a then map_option (\<lambda>_. q) (h a) else map_option parent (h a))"
  by (auto simp: rp_def split: option.splits)

lemma rp_lnk:
  "map_option lnk (rp h p q a) =
     (if p = Some a then map_option (\<lambda>nd. (left nd, right nd, q, value' nd)) (h a)
      else map_option lnk (h a))"
  by (auto simp: rp_def lnk_def split: option.splits)

lemma set_parent_rp:
  "p = None \<or> (\<exists>x nd. p = Some x \<and> nodes s x = Some nd) \<Longrightarrow>
   (case p of None \<Rightarrow> Some (Returns () s) | Some _ \<Rightarrow> set_parent s p q) =
     Some (Returns () (s\<lparr>nodes := rp (nodes s) p q\<rparr>))"
  by (auto simp: set_parent_def rp_def)

lemma s_iterator_ctor_ok:
  assumes "nodes st n = Some nd" and "\<not> alloc_fails st"
  shows "\<exists>st'. s_iterator_ctor st (Some n) c = Some (Returns (brk st) st')
     \<and> iters st' = (iters st)(brk st \<mapsto> \<lparr>node' = Some n, container' = c\<rparr>)
     \<and> nodes st' = (nodes st)(n \<mapsto> nd\<lparr>share := share nd @ [brk st],
           share_cap := (if length (share nd) < share_cap nd then share_cap nd
                         else grown (length (share nd)))\<rparr>)
     \<and> size' st' = size' st \<and> brk st' = Suc (brk st)
     \<and> oom st' = (if length (share nd) < share_cap nd then oom st else tl (oom st))"
  using assms
  by (simp add: s_iterator_ctor_def add_iterator_def grown_def alloc_next_def alloc_fails_def Let_def)

section \<open>\<open>swap\<close>\<close>





section \<open>\<open>erase\<close> on an empty container\<close>

text \<open>
  Claim C10, as amended. In an empty container (\<open>size_\<close> is zero), \<open>erase(pos)\<close> with
  an iterator \<open>pos\<close> of this container (its \<open>container_\<close> is \<open>this\<close>: an end
  iterator, a singular one, one left over from a swap) is \<open>end()\<close>: it returns a
  new iterator on the anchor, no assertion fails, every node keeps its links and its
  element, no node is freed, \<open>size_\<close> and the other iterators are unchanged (the
  registration of the returned iterator must get the memory it may ask for). With
  any other iterator (one of another container, a default-constructed one) the
  assertion of line 480 fails.
\<close>

theorem erase_empty:
  assumes "nodes st this = Some f" and "size' st this = Some 0"
    and "iters st pos = Some p" and "\<not> alloc_fails st"
  shows "(container' p = Some this \<longrightarrow>
      (\<exists>st'. erase st this pos = Some (Returns (brk st) st')
       \<and> set_end st this = Some (Returns (brk st) st')
       \<and> iters st' (brk st) = Some \<lparr>node' = Some this, container' = Some this\<rparr>
       \<and> (\<forall>a. map_option lnk (nodes st' a) = map_option lnk (nodes st a))
       \<and> size' st' = size' st
       \<and> (\<forall>j. j \<noteq> brk st \<longrightarrow> iters st' j = iters st j))) \<and>
     (container' p \<noteq> Some this \<longrightarrow> erase st this pos = Some (Aborts AssertFail))"
proof (intro conjI impI)
  assume c: "container' p = Some this"
  from s_iterator_ctor_ok [OF assms(1) assms(4), of "Some this"]
  obtain st' where 1: "s_iterator_ctor st (Some this) (Some this) = Some (Returns (brk st) st')"
    and 2: "iters st' = (iters st)(brk st \<mapsto> \<lparr>node' = Some this, container' = Some this\<rparr>)"
    and 3: "nodes st' = (nodes st)(this \<mapsto> f\<lparr>share := share f @ [brk st],
           share_cap := (if length (share f) < share_cap f then share_cap f else grown (length (share f)))\<rparr>)"
    and 4: "size' st' = size' st"
    by blast
  have "erase st this pos = Some (Returns (brk st) st')"
    using assms c 1 by (simp add: erase_def set_empty_def set_size_def set_end_def)
  moreover have "\<forall>a. map_option lnk (nodes st' a) = map_option lnk (nodes st a)"
    using 3 assms(1) by (simp add: lnk_def)
  ultimately show "\<exists>st'. erase st this pos = Some (Returns (brk st) st')
       \<and> set_end st this = Some (Returns (brk st) st')
       \<and> iters st' (brk st) = Some \<lparr>node' = Some this, container' = Some this\<rparr>
       \<and> (\<forall>a. map_option lnk (nodes st' a) = map_option lnk (nodes st a))
       \<and> size' st' = size' st
       \<and> (\<forall>j. j \<noteq> brk st \<longrightarrow> iters st' j = iters st j)"
    using 1 2 4 by (simp add: set_end_def)
next
  assume "container' p \<noteq> Some this"
  then show "erase st this pos = Some (Aborts AssertFail)"
    using assms(3) by (simp add: erase_def)
qed

text \<open>
  An empty set with an end iterator (at 1) and a singular iterator of its own (at 2);
  and the same set where the iterator at 2 is a default-constructed one.
\<close>

definition empty_example :: "nat state" where
  "empty_example =
     \<lparr>nodes = [0 \<mapsto> \<lparr>left = None, right = None, parent = None, share = [1], share_cap = 1,
                       value' = None\<rparr>],
      iters = [1 \<mapsto> \<lparr>node' = Some 0, container' = Some 0\<rparr>,
               2 \<mapsto> \<lparr>node' = None, container' = Some 0\<rparr>],
      size' = [0 \<mapsto> 0],
      brk = 3,
      oom = []\<rparr>"

definition foreign_example :: "nat state" where
  "foreign_example =
     empty_example\<lparr>iters := (iters empty_example)(2 \<mapsto> \<lparr>node' = None, container' = None\<rparr>)\<rparr>"

theorem erase_empty_witness:
  "size' empty_example 0 = Some 0 \<and> \<not> alloc_fails empty_example \<and>
   (\<exists>st'. erase empty_example 0 2 = Some (Returns 3 st') \<and>
       iters st' 3 = Some \<lparr>node' = Some 0, container' = Some 0\<rparr> \<and>
       map_option lnk (nodes st' 0) = Some (None, None, None, None) \<and>
       size' st' 0 = Some 0 \<and> iters st' 1 = Some \<lparr>node' = Some 0, container' = Some 0\<rparr>) \<and>
   size' foreign_example 0 = Some 0 \<and> \<not> alloc_fails foreign_example \<and>
   iters foreign_example 2 = Some \<lparr>node' = None, container' = None\<rparr> \<and>
   erase foreign_example 0 2 = Some (Aborts AssertFail)"
proof -
  have n: "nodes empty_example 0 = Some \<lparr>left = None, right = None, parent = None, share = [1],
      share_cap = 1, value' = None\<rparr>"
    and s: "size' empty_example 0 = Some 0"
    and i: "iters empty_example 2 = Some \<lparr>node' = None, container' = Some 0\<rparr>"
    and a: "\<not> alloc_fails empty_example"
    and b: "brk empty_example = 3"
    and i1: "iters empty_example 1 = Some \<lparr>node' = Some 0, container' = Some 0\<rparr>"
    by (simp_all add: empty_example_def alloc_fails_def)
  have n': "nodes foreign_example 0 = Some \<lparr>left = None, right = None, parent = None, share = [1],
      share_cap = 1, value' = None\<rparr>"
    and s': "size' foreign_example 0 = Some 0"
    and i': "iters foreign_example 2 = Some \<lparr>node' = None, container' = None\<rparr>"
    and a': "\<not> alloc_fails foreign_example"
    by (simp_all add: foreign_example_def empty_example_def alloc_fails_def)
  from erase_empty [OF n s i a] obtain st' where st':
    "erase empty_example 0 2 = Some (Returns (brk empty_example) st')"
    "iters st' (brk empty_example) = Some \<lparr>node' = Some 0, container' = Some 0\<rparr>"
    "\<forall>a. map_option lnk (nodes st' a) = map_option lnk (nodes empty_example a)"
    "size' st' = size' empty_example"
    "\<forall>j. j \<noteq> brk empty_example \<longrightarrow> iters st' j = iters empty_example j"
    by auto
  have "map_option lnk (nodes st' 0) = Some (None, None, None, None)"
    using st'(3) n by (simp add: lnk_def)
  moreover have "iters st' 1 = Some \<lparr>node' = Some 0, container' = Some 0\<rparr>"
    using st'(5) b i1 by simp
  moreover from erase_empty [OF n' s' i' a']
  have "erase foreign_example 0 2 = Some (Aborts AssertFail)" by simp
  ultimately show ?thesis
    using st'(1,2,4) s a b s' a' i' by auto
qed

text \<open>
  The claim C10 as it stands fails for an iterator that is not of this container.
  \<open>set<int> s; set<int>::iterator it; s.erase(it);\<close> (the argument is a copy of the
  default-constructed \<open>it\<close>, whose \<open>container_\<close> is null), and
  \<open>set<int> s, other; s.erase(other.end());\<close>: \<open>s\<close> is empty, and the call stops
  at the assertion of line 480.
\<close>

definition erase_with_default_iterator :: "(addr, nat state) outcome option" where
  "erase_with_default_iterator =
     bind (set_default_ctor initial) (\<lambda>s st.
     bind (s_iterator_ctor st None None) (\<lambda>it st1.
     bind (s_iterator_copy st1 it) (\<lambda>pos st2.
     erase st2 s pos)))"

definition erase_with_end_of_other :: "(addr, nat state) outcome option" where
  "erase_with_end_of_other =
     bind (set_default_ctor initial) (\<lambda>s st.
     bind (set_default_ctor st) (\<lambda>other st1.
     bind (set_end st1 other) (\<lambda>pos st2.
     erase st2 s pos)))"

theorem erase_empty_foreign:
  "size_after (set_default_ctor initial) 0 = Some 0 \<and>
   aborted erase_with_default_iterator = Some AssertFail \<and>
   aborted erase_with_end_of_other = Some AssertFail"
  by code_simp

section \<open>Iterator bookkeeping\<close>

lemma lnk_fields:
  "map_option lnk x = map_option lnk y \<Longrightarrow>
     map_option left x = map_option left y \<and> map_option right x = map_option right y \<and>
     map_option parent x = map_option parent y \<and> map_option value' x = map_option value' y \<and>
     (x = None \<longleftrightarrow> y = None)"
  by (cases x; cases y) (auto simp: lnk_def)

lemma bk_refl [simp]: "bk st st"
  by (simp add: bk_def)

lemma bk_trans: "bk st st1 \<Longrightarrow> bk st1 st2 \<Longrightarrow> bk st st2"
  by (simp add: bk_def)

lemma bk_tree_at: "bk st st' \<Longrightarrow> tree_at (nodes st') t par = tree_at (nodes st) t par"
  by (rule tree_at_lnk) (simp add: bk_def)

lemma bk_set_inv: "bk st st' \<Longrightarrow> set_inv st' this t = set_inv st this t"
proof -
  assume b: "bk st st'"
  then have "\<And>a. map_option lnk (nodes st' a) = map_option lnk (nodes st a)"
    by (simp add: bk_def)
  from lnk_fields [OF this] have f: "\<And>a. map_option left (nodes st' a) = map_option left (nodes st a)"
    "\<And>a. map_option right (nodes st' a) = map_option right (nodes st a)"
    "\<And>a. map_option value' (nodes st' a) = map_option value' (nodes st a)"
    by blast+
  show ?thesis
    unfolding set_inv_iff using b by (simp add: f bk_tree_at) (simp add: bk_def)
qed

lemma bk_live: "bk st st' \<Longrightarrow> (nodes st' a = None) = (nodes st a = None)"
  using lnk_fields [of "nodes st' a" "nodes st a"] by (simp add: bk_def)

lemma bk_oom: "bk st st' \<Longrightarrow> oom st' = oom st"
  by (simp add: bk_def)

lemma add_iterator_bk:
  assumes "nodes st n = Some nd" and "oom st = []"
  shows "\<exists>st'. add_iterator st n i = Some (Returns () st') \<and> bk st st' \<and> iters st' = iters st
     \<and> brk st' = brk st"
  using assms
  by (auto simp: add_iterator_def grown_def alloc_fails_def alloc_next_def bk_def lnk_def)

lemma remove_iterator_bk:
  assumes "nodes st n = Some nd"
  shows "\<exists>st'. remove_iterator st n i = Some (Returns () st') \<and> bk st st' \<and> iters st' = iters st
     \<and> brk st' = brk st"
  using assms
  by (auto simp: remove_iterator_def bk_def lnk_def)

lemma s_iterator_ctor_bk:
  assumes "nd = None \<or> (\<exists>n x. nd = Some n \<and> nodes st n = Some x)" and "oom st = []"
  shows "\<exists>st'. s_iterator_ctor st nd c = Some (Returns (brk st) st') \<and> bk st st'
     \<and> iters st' = (iters st)(brk st \<mapsto> \<lparr>node' = nd, container' = c\<rparr>) \<and> brk st' = Suc (brk st)"
proof (cases nd)
  case None
  then show ?thesis by (simp add: s_iterator_ctor_def Let_def bk_def)
next
  case (Some n)
  with assms obtain x where x: "nodes st n = Some x" by auto
  define st1 where "st1 = st\<lparr>iters := (iters st)(brk st \<mapsto> \<lparr>node' = nd, container' = c\<rparr>), brk := Suc (brk st)\<rparr>"
  have "nodes st1 n = Some x" "oom st1 = []"
    using x assms(2) by (simp_all add: st1_def)
  from add_iterator_bk [OF this, of "brk st"] obtain st' where
    st': "add_iterator st1 n (brk st) = Some (Returns () st')" "bk st1 st'" "iters st' = iters st1"
      "brk st' = brk st1"
    by blast
  have "bk st st1" by (simp add: bk_def st1_def)
  then have "bk st st'" using st'(2) by (rule bk_trans)
  moreover have "s_iterator_ctor st nd c = Some (Returns (brk st) st')"
    using st'(1) Some unfolding st1_def by (simp add: s_iterator_ctor_def Let_def)
  ultimately show ?thesis
    using st'(3,4) by (simp add: st1_def)
qed

lemma s_iterator_dtor_bk:
  assumes "iters st i = Some it" and "node' it = None \<or> (\<exists>n x. node' it = Some n \<and> nodes st n = Some x)"
  shows "\<exists>st'. s_iterator_dtor st i = Some (Returns () st') \<and> bk st st'
     \<and> iters st' = (iters st)(i := None) \<and> brk st' = brk st"
proof (cases "node' it")
  case None
  then show ?thesis using assms(1) by (simp add: s_iterator_dtor_def bk_def)
next
  case (Some n)
  with assms obtain x where x: "nodes st n = Some x" by auto
  from remove_iterator_bk [OF x, of i] obtain st1 where
    st1: "remove_iterator st n i = Some (Returns () st1)" "bk st st1" "iters st1 = iters st"
      "brk st1 = brk st"
    by blast
  have "bk st1 (st1\<lparr>iters := (iters st1)(i := None)\<rparr>)" by (simp add: bk_def)
  with st1(2) have "bk st (st1\<lparr>iters := (iters st1)(i := None)\<rparr>)" by (rule bk_trans)
  then show ?thesis
    using assms(1) Some st1 by (simp add: s_iterator_dtor_def)
qed

lemma move_to_another_node_bk:
  assumes "iters st i = Some it"
    and "node' it = None \<or> (\<exists>n x. node' it = Some n \<and> nodes st n = Some x)"
    and "new = None \<or> (\<exists>n x. new = Some n \<and> nodes st n = Some x)"
    and "oom st = []"
  shows "\<exists>st'. move_to_another_node st i new = Some (Returns () st') \<and> bk st st'
     \<and> iters st' = (iters st)(i \<mapsto> it\<lparr>node' := new\<rparr>) \<and> brk st' = brk st"
proof -
  define st1 where "st1 = st\<lparr>iters := (iters st)(i \<mapsto> it\<lparr>node' := new\<rparr>)\<rparr>"
  have b1: "bk st st1" by (simp add: bk_def st1_def)
  have "\<exists>st2. (case new of None \<Rightarrow> Some (Returns () st1) | Some n \<Rightarrow> add_iterator st1 n i)
      = Some (Returns () st2) \<and> bk st1 st2 \<and> iters st2 = iters st1 \<and> brk st2 = brk st1"
  proof (cases new)
    case None
    then show ?thesis by simp
  next
    case (Some n)
    with assms(3) obtain x where "nodes st1 n = Some x" by (auto simp: st1_def)
    moreover have "oom st1 = []" using assms(4) by (simp add: st1_def)
    ultimately show ?thesis using Some add_iterator_bk [of st1 n x i] by simp
  qed
  then obtain st2 where st2: "(case new of None \<Rightarrow> Some (Returns () st1) | Some n \<Rightarrow> add_iterator st1 n i)
      = Some (Returns () st2)" "bk st1 st2" "iters st2 = iters st1" "brk st2 = brk st1"
    by blast
  have "\<exists>st3. (case node' it of None \<Rightarrow> Some (Returns () st2) | Some old \<Rightarrow> remove_iterator st2 old i)
      = Some (Returns () st3) \<and> bk st2 st3 \<and> iters st3 = iters st2 \<and> brk st3 = brk st2"
  proof (cases "node' it")
    case None
    then show ?thesis by simp
  next
    case (Some old)
    with assms(2) obtain x where "nodes st old = Some x" by auto
    then obtain y where "nodes st2 old = Some y"
      using bk_live [OF bk_trans [OF b1 st2(2)], of old] by auto
    then show ?thesis using Some remove_iterator_bk [of st2 old y i] by simp
  qed
  then obtain st3 where st3: "(case node' it of None \<Rightarrow> Some (Returns () st2) | Some old \<Rightarrow> remove_iterator st2 old i)
      = Some (Returns () st3)" "bk st2 st3" "iters st3 = iters st2" "brk st3 = brk st2"
    by blast
  have "move_to_another_node st i new = Some (Returns () st3)"
    using assms(1) st2(1) st3(1) unfolding st1_def
    by (simp add: move_to_another_node_def Let_def)
  moreover have "bk st st3"
    using b1 st2(2) st3(2) by (blast intro: bk_trans)
  ultimately show ?thesis
    using st2(3,4) st3(3,4) by (simp add: st1_def)
qed

lemma return_pair_bk:
  assumes "nodes st n = Some x" and "oom st = []"
  shows "\<exists>st'. return_pair st (Some n) this b = Some (Returns (Suc (brk st), b) st') \<and> bk st st'
     \<and> iters st' = (iters st)(brk st := None, Suc (brk st) \<mapsto> \<lparr>node' = Some n, container' = Some this\<rparr>)
     \<and> brk st' = Suc (Suc (brk st))"
proof -
  from s_iterator_ctor_bk [of "Some n" st "Some this"] assms obtain st1 where
    st1: "s_iterator_ctor st (Some n) (Some this) = Some (Returns (brk st) st1)" "bk st st1"
      "iters st1 = (iters st)(brk st \<mapsto> \<lparr>node' = Some n, container' = Some this\<rparr>)"
      "brk st1 = Suc (brk st)"
    by auto
  obtain x1 where x1: "nodes st1 n = Some x1"
    using bk_live [OF st1(2), of n] assms(1) by auto
  have o1: "oom st1 = []" using bk_oom [OF st1(2)] assms(2) by simp
  from s_iterator_ctor_bk [of "Some n" st1 "Some this"] x1 o1 obtain st2 where
    st2: "s_iterator_ctor st1 (Some n) (Some this) = Some (Returns (brk st1) st2)" "bk st1 st2"
      "iters st2 = (iters st1)(brk st1 \<mapsto> \<lparr>node' = Some n, container' = Some this\<rparr>)"
      "brk st2 = Suc (brk st1)"
    by auto
  obtain x2 where x2: "nodes st2 n = Some x2"
    using bk_live [OF st2(2), of n] x1 by auto
  have i2: "iters st2 (brk st) = Some \<lparr>node' = Some n, container' = Some this\<rparr>"
    using st2(3) st1(3,4) by simp
  from s_iterator_dtor_bk [OF i2] x2 obtain st3 where
    st3: "s_iterator_dtor st2 (brk st) = Some (Returns () st3)" "bk st2 st3"
      "iters st3 = (iters st2)(brk st := None)" "brk st3 = brk st2"
    by auto
  have "return_pair st (Some n) this b = Some (Returns (Suc (brk st), b) st3)"
    using st1(1,3,4) st2(1) st3(1)
    by (simp add: return_pair_def scoped_def s_iterator_copy_def)
  moreover have "bk st st3"
    using st1(2) st2(2) st3(2) by (blast intro: bk_trans)
  moreover have "iters st3 = (iters st)(brk st := None, Suc (brk st) \<mapsto> \<lparr>node' = Some n, container' = Some this\<rparr>)"
    using st3(3) st2(3) st1(3,4) by (auto simp: fun_upd_def)
  ultimately show ?thesis
    using st3(4) st2(4) st1(4) by simp
qed

section \<open>Navigation and traversal\<close>

lemma addrs_inorder: "map fst (inorder t) = addrs t"
  by (induction t) simp_all

lemma elems_inorder: "map snd (inorder t) = elems t"
  by (induction t) simp_all

lemma root_in_addrs: "root t = Some a \<Longrightarrow> a \<in> set (addrs t)"
  by (cases t) simp_all

lemma root_hd: "t \<noteq> Tip \<Longrightarrow> addrs t \<noteq> []"
  by (cases t) simp_all

lemma in_inorder_addr: "(a, v) \<in> set (inorder t) \<Longrightarrow> a \<in> set (addrs t)"
  using addrs_inorder [of t] by (metis fst_conv image_eqI set_map)

lemma node_at:
  "tree_at h t par \<Longrightarrow> distinct (addrs t) \<Longrightarrow> (a, v) \<in> set (inorder t) \<Longrightarrow>
   \<exists>nd. h a = Some nd \<and> value' nd = Some v \<and> left nd \<noteq> Some a"
proof (induction t arbitrary: par)
  case Tip
  then show ?case by simp
next
  case (Fork l x w r)
  from Fork.prems(1) obtain nd where nd: "h x = Some nd" "value' nd = Some w" "left nd = root l"
    "tree_at h l (Some x)" "tree_at h r (Some x)"
    by (auto split: option.splits)
  from Fork.prems(3) consider "(a, v) \<in> set (inorder l)" | "a = x \<and> v = w" | "(a, v) \<in> set (inorder r)"
    by auto
  then show ?case
  proof cases
    case 1
    then show ?thesis using Fork.IH(1) [OF nd(4)] Fork.prems(2) by simp
  next
    case 2
    have "root l \<noteq> Some x"
      using root_in_addrs [of l x] Fork.prems(2) by auto
    then show ?thesis using 2 nd by simp
  next
    case 3
    then show ?thesis using Fork.IH(2) [OF nd(5)] Fork.prems(2) by simp
  qed
qed

lemma find_min_tree:
  "tree_at (nodes st) t par \<Longrightarrow> t \<noteq> Tip \<Longrightarrow>
   find_min st (root t) = Some (Returns (hd (addrs t)) st)"
proof (induction t arbitrary: par)
  case Tip
  then show ?case by simp
next
  case (Fork l x w r)
  from Fork.prems(1) obtain nd where nd: "nodes st x = Some nd" "left nd = root l"
    "tree_at (nodes st) l (Some x)"
    by (auto split: option.splits)
  show ?case
  proof (cases l)
    case Tip
    then show ?thesis using nd by (subst find_min.simps) simp
  next
    case (Fork ll lx lw lr)
    then have "find_min st (root l) = Some (Returns (hd (addrs l)) st)"
      using Fork.IH(1) [OF nd(3)] by simp
    moreover have "find_min st (root (shape.Fork l x w r)) = find_min st (root l)"
      using nd Fork by (subst find_min.simps) simp
    ultimately show ?thesis using Fork by (simp add: hd_append)
  qed
qed

lemma split_position:
  assumes "xs @ a # ys = l @ x # r"
  shows "(\<exists>ys'. l = xs @ a # ys' \<and> ys = ys' @ x # r) \<or> (a = x \<and> xs = l \<and> ys = r) \<or>
         (\<exists>xs'. r = xs' @ a # ys \<and> xs = l @ x # xs')"
  using assms by (auto simp: append_eq_append_conv2 Cons_eq_append_conv append_eq_Cons_conv)

lemma find_next_tree:
  assumes "tree_at (nodes st) t par" and "distinct (addrs t)" and "addrs t = xs @ a # ys"
    and "root t = Some x"
  shows "find_next st (Some a) =
     (case ys of [] \<Rightarrow> climb_from_right st x par | b # _ \<Rightarrow> Some (Returns (Some b) st))"
  using assms
proof (induction t arbitrary: par xs ys x)
  case Tip
  then show ?case by simp
next
  case (Fork l y w r)
  from Fork.prems(1) obtain nd where nd: "nodes st y = Some nd" "left nd = root l" "right nd = root r"
    "parent nd = par" "tree_at (nodes st) l (Some y)" "tree_at (nodes st) r (Some y)"
    by (auto split: option.splits)
  have xy: "x = y" using Fork.prems(4) by simp
  have dl: "distinct (addrs l)" and dr: "distinct (addrs r)"
    and disj: "set (addrs l) \<inter> set (addrs r) = {}" "y \<notin> set (addrs l)" "y \<notin> set (addrs r)"
    using Fork.prems(2) by auto
  from Fork.prems(3) have "xs @ a # ys = addrs l @ y # addrs r" by simp
  from split_position [OF this]
  consider ys' where "addrs l = xs @ a # ys'" "ys = ys' @ y # addrs r"
    | "a = y" "xs = addrs l" "ys = addrs r"
    | xs' where "addrs r = xs' @ a # ys" "xs = addrs l @ y # xs'"
    by blast
  then show ?case
  proof cases
    case 1
    then obtain lx where lx: "root l = Some lx" by (cases l) auto
    have "find_next st (Some a) =
       (case ys' of [] \<Rightarrow> climb_from_right st lx (Some y) | b # _ \<Rightarrow> Some (Returns (Some b) st))"
      by (rule Fork.IH(1) [OF nd(5) dl 1(1) lx])
    moreover have "climb_from_right st lx (Some y) = Some (Returns (Some y) st)"
    proof -
      have "root r \<noteq> Some lx"
        using root_in_addrs [OF lx] root_in_addrs [of r lx] disj by auto
      then show ?thesis using nd by (subst climb_from_right.simps) simp
    qed
    ultimately show ?thesis using 1(2) by (cases ys') simp_all
  next
    case 2
    show ?thesis
    proof (cases r)
      case Tip
      then show ?thesis using 2 nd xy by (simp add: find_next_def)
    next
      case (Fork rl rx rw rr)
      then have "find_min st (root r) = Some (Returns (hd (addrs r)) st)"
        using find_min_tree [OF nd(6)] by simp
      moreover have "addrs r \<noteq> []" using Fork by simp
      ultimately show ?thesis using 2 nd Fork by (cases "addrs r") (simp_all add: find_next_def)
    qed
  next
    case 3
    then obtain rx where rx: "root r = Some rx" by (cases r) auto
    have "find_next st (Some a) =
       (case ys of [] \<Rightarrow> climb_from_right st rx (Some y) | b # _ \<Rightarrow> Some (Returns (Some b) st))"
      by (rule Fork.IH(2) [OF nd(6) dr 3(1) rx])
    moreover have "climb_from_right st rx (Some y) = climb_from_right st y par"
      using nd rx by (subst climb_from_right.simps) simp
    ultimately show ?thesis using xy by (cases ys) simp_all
  qed
qed

lemma find_next_set:
  assumes "set_inv st this t" and "addrs t = xs @ a # ys"
  shows "find_next st (Some a) = Some (Returns (Some (case ys of [] \<Rightarrow> this | b # _ \<Rightarrow> b)) st)"
proof -
  note i = assms(1) [unfolded set_inv_iff]
  from assms(2) obtain x where x: "root t = Some x" by (cases t) auto
  from i obtain f where f: "nodes st this = Some f" "right f = None" by auto
  have "climb_from_right st x (Some this) = Some (Returns (Some this) st)"
    using f by (subst climb_from_right.simps) simp
  moreover have "find_next st (Some a) =
     (case ys of [] \<Rightarrow> climb_from_right st x (Some this) | b # _ \<Rightarrow> Some (Returns (Some b) st))"
    using i by (intro find_next_tree [OF _ _ assms(2) x]) simp_all
  ultimately show ?thesis by (cases ys) simp_all
qed

lemma addr_in_inorder: "a \<in> set (addrs t) \<Longrightarrow> \<exists>v. (a, v) \<in> set (inorder t)"
  using addrs_inorder [of t] by (metis (no_types, opaque_lifting) imageE prod.collapse set_map)

lemma set_inv_anchor:
  "set_inv st this t \<Longrightarrow> \<exists>f. nodes st this = Some f \<and> value' f = None \<and> right f = None \<and>
     (t \<noteq> Tip \<longrightarrow> left f = root t)"
  by (auto simp: set_inv_def split: option.splits if_splits)

lemma set_inv_facts:
  "set_inv st this t \<Longrightarrow> size' st this = Some (length (addrs t)) \<and> this \<notin> set (addrs t) \<and>
     distinct (addrs t) \<and> tree_at (nodes st) t (Some this)"
  by (simp add: set_inv_iff)

lemma set_node_live:
  assumes "set_inv st this t" and "a \<in> set (addrs t)"
  shows "\<exists>nd. nodes st a = Some nd"
  using tree_at_live [of "nodes st" t "Some this" a] assms set_inv_facts [OF assms(1)] by auto

lemma base_assert_set:
  assumes "set_inv st this t" and "a \<in> set (addrs t)" and "iters st i = Some it"
    and "node' it = Some a"
  shows "base_assert st i = Some (Returns () st)"
proof -
  from addr_in_inorder [OF assms(2)] obtain v where v: "(a, v) \<in> set (inorder t)" ..
  from set_inv_facts [OF assms(1)] have "tree_at (nodes st) t (Some this)" "distinct (addrs t)"
    by simp_all
  from node_at [OF this v] obtain nd where "nodes st a = Some nd" "left nd \<noteq> Some a"
    by blast
  then show ?thesis using assms(3,4) by (simp add: base_assert_def)
qed

lemma deref_set:
  assumes "set_inv st this t" and "(a, v) \<in> set (inorder t)" and "iters st i = Some it"
    and "node' it = Some a"
  shows "deref st i = Some (Returns v st)"
proof -
  from set_inv_facts [OF assms(1)] have "tree_at (nodes st) t (Some this)" "distinct (addrs t)"
    by simp_all
  from node_at [OF this assms(2)] obtain nd where nd: "nodes st a = Some nd" "value' nd = Some v"
    by blast
  have "base_assert st i = Some (Returns () st)"
    using base_assert_set [OF assms(1) in_inorder_addr [OF assms(2)] assms(3,4)] .
  then show ?thesis using assms(3,4) nd by (simp add: deref_def get_node_def)
qed

lemma increment_set:
  assumes "set_inv st this t" and "addrs t = xs @ a # ys" and "iters st i = Some it"
    and "node' it = Some a" and "oom st = []"
  shows "\<exists>st'. increment st i = Some (Returns () st') \<and> bk st st' \<and>
     iters st' = (iters st)(i \<mapsto> it\<lparr>node' := Some (case ys of [] \<Rightarrow> this | b # _ \<Rightarrow> b)\<rparr>) \<and>
     brk st' = brk st"
proof -
  have ain: "a \<in> set (addrs t)" using assms(2) by simp
  have ba: "base_assert st i = Some (Returns () st)"
    using base_assert_set [OF assms(1) ain assms(3,4)] .
  have fn: "find_next st (Some a) = Some (Returns (Some (case ys of [] \<Rightarrow> this | b # _ \<Rightarrow> b)) st)"
    using find_next_set [OF assms(1,2)] .
  from set_inv_anchor [OF assms(1)] obtain f where f: "nodes st this = Some f" by blast
  have live: "\<exists>x. nodes st (case ys of [] \<Rightarrow> this | b # _ \<Rightarrow> b) = Some x"
  proof (cases ys)
    case Nil
    then show ?thesis using f by simp
  next
    case (Cons b zs)
    then have "b \<in> set (addrs t)" using assms(2) by simp
    then show ?thesis using set_node_live [OF assms(1)] Cons by simp
  qed
  have old: "\<exists>x. nodes st a = Some x" using set_node_live [OF assms(1) ain] .
  from move_to_another_node_bk [OF assms(3), of "Some (case ys of [] \<Rightarrow> this | b # _ \<Rightarrow> b)"]
    assms(4,5) live old
  obtain st' where "move_to_another_node st i (Some (case ys of [] \<Rightarrow> this | b # _ \<Rightarrow> b))
      = Some (Returns () st')" "bk st st'"
    "iters st' = (iters st)(i \<mapsto> it\<lparr>node' := Some (case ys of [] \<Rightarrow> this | b # _ \<Rightarrow> b)\<rparr>)"
    "brk st' = brk st"
    by auto
  then show ?thesis using ba fn assms(3,4) by (simp add: increment_def)
qed

lemma set_end_set:
  assumes "set_inv st this t" and "oom st = []"
  shows "\<exists>st'. set_end st this = Some (Returns (brk st) st') \<and> bk st st' \<and>
     iters st' = (iters st)(brk st \<mapsto> \<lparr>node' = Some this, container' = Some this\<rparr>) \<and>
     brk st' = Suc (brk st)"
proof -
  from set_inv_anchor [OF assms(1)] obtain f where f: "nodes st this = Some f" by blast
  from s_iterator_ctor_bk [of "Some this" st "Some this"] f assms(2) show ?thesis
    by (auto simp: set_end_def)
qed

lemma set_begin_set:
  assumes "set_inv st this t" and "oom st = []"
  shows "\<exists>st'. set_begin st this = Some (Returns (brk st) st') \<and> bk st st' \<and>
     iters st' = (iters st)(brk st \<mapsto>
        \<lparr>node' = Some (case addrs t of [] \<Rightarrow> this | a # _ \<Rightarrow> a), container' = Some this\<rparr>) \<and>
     brk st' = Suc (brk st)"
proof (cases t)
  case Tip
  then have "size' st this = Some 0" using set_inv_facts [OF assms(1)] by simp
  then have "set_begin st this = set_end st this"
    by (simp add: set_begin_def set_empty_def set_size_def set_end_def noexcept_def split: option.splits outcome.splits)
  then show ?thesis using set_end_set [OF assms] Tip by simp
next
  case (Fork l x v r)
  from set_inv_anchor [OF assms(1)] obtain f where f: "nodes st this = Some f" "left f = root t"
    using Fork by auto
  have sz: "size' st this = Some (length (addrs t))" and tr: "tree_at (nodes st) t (Some this)"
    using set_inv_facts [OF assms(1)] by simp_all
  have fm: "find_min st (root t) = Some (Returns (hd (addrs t)) st)"
    using find_min_tree [OF tr] Fork by simp
  have "hd (addrs t) \<in> set (addrs t)" using Fork by (simp add: hd_append)
  from set_node_live [OF assms(1) this] obtain nd where nd: "nodes st (hd (addrs t)) = Some nd" ..
  from s_iterator_ctor_bk [of "Some (hd (addrs t))" st "Some this"] nd assms(2)
  obtain st' where st': "s_iterator_ctor st (Some (hd (addrs t))) (Some this) = Some (Returns (brk st) st')"
    "bk st st'" "iters st' = (iters st)(brk st \<mapsto> \<lparr>node' = Some (hd (addrs t)), container' = Some this\<rparr>)"
    "brk st' = Suc (brk st)"
    by auto
  have "set_begin st this = Some (Returns (brk st) st')"
    using f sz fm st' Fork
    by (simp add: set_begin_def set_empty_def set_size_def take_root_def get_node_def)
  moreover have "(case addrs t of [] \<Rightarrow> this | a # _ \<Rightarrow> a) = hd (addrs t)"
    using Fork by (cases "addrs t") simp_all
  ultimately show ?thesis using st' by simp
qed

lemma collect_set:
  assumes "set_inv st this t" and "inorder t = ps @ qs"
    and "iters st i = Some \<lparr>node' = Some (case qs of [] \<Rightarrow> this | (a, _) # _ \<Rightarrow> a), container' = Some this\<rparr>"
    and "oom st = []" and "i < brk st"
  shows "\<exists>st'. collect st this i out = Some (Returns (out @ map snd qs) st') \<and> bk st st'"
  using assms
proof (induction qs arbitrary: st ps out)
  case Nil
  from set_end_set [OF Nil.prems(1,4)] obtain st1 where st1:
    "set_end st this = Some (Returns (brk st) st1)" "bk st st1"
    "iters st1 = (iters st)(brk st \<mapsto> \<lparr>node' = Some this, container' = Some this\<rparr>)"
    "brk st1 = Suc (brk st)"
    by blast
  have eq: "iter_eq st1 i (brk st) = Some (Returns True st1)"
    using st1(3) Nil.prems(3,5) by (simp add: iter_eq_def)
  have "iters st1 (brk st) = Some \<lparr>node' = Some this, container' = Some this\<rparr>"
    using st1(3) by simp
  moreover obtain f where "nodes st1 this = Some f"
    using set_inv_anchor [OF Nil.prems(1)] bk_live [OF st1(2), of this] by auto
  ultimately obtain st3 where st3: "s_iterator_dtor st1 (brk st) = Some (Returns () st3)" "bk st1 st3"
    using s_iterator_dtor_bk [of st1 "brk st"] by auto
  have "collect st this i out = Some (Returns out st3)"
    using st1(1) eq st3(1) by (subst collect.simps) simp
  then show ?case using bk_trans [OF st1(2) st3(2)] by simp
next
  case (Cons q qs)
  obtain a v where q: "q = (a, v)" by (cases q)
  have ain: "(a, v) \<in> set (inorder t)" using Cons.prems(2) q by simp
  have at: "a \<in> set (addrs t)" using in_inorder_addr [OF ain] .
  have nthis: "a \<noteq> this" using set_inv_facts [OF Cons.prems(1)] at by auto
  from set_end_set [OF Cons.prems(1,4)] obtain st1 where st1:
    "set_end st this = Some (Returns (brk st) st1)" "bk st st1"
    "iters st1 = (iters st)(brk st \<mapsto> \<lparr>node' = Some this, container' = Some this\<rparr>)"
    "brk st1 = Suc (brk st)"
    by blast
  have eq: "iter_eq st1 i (brk st) = Some (Returns False st1)"
    using st1(3) Cons.prems(3,5) q nthis by (simp add: iter_eq_def)
  have "iters st1 (brk st) = Some \<lparr>node' = Some this, container' = Some this\<rparr>"
    using st1(3) by simp
  moreover obtain f where "nodes st1 this = Some f"
    using set_inv_anchor [OF Cons.prems(1)] bk_live [OF st1(2), of this] by auto
  ultimately obtain st3 where st3: "s_iterator_dtor st1 (brk st) = Some (Returns () st3)" "bk st1 st3"
    "iters st3 = (iters st1)(brk st := None)" "brk st3 = brk st1"
    using s_iterator_dtor_bk [of st1 "brk st"] by auto
  have b3: "bk st st3" using bk_trans [OF st1(2) st3(2)] .
  have inv3: "set_inv st3 this t" using bk_set_inv [OF b3] Cons.prems(1) by simp
  have i3: "iters st3 i = Some \<lparr>node' = Some a, container' = Some this\<rparr>"
    using st3(3) st1(3) Cons.prems(3,5) q by simp
  have o3: "oom st3 = []" using bk_oom [OF b3] Cons.prems(4) by simp
  have d: "deref st3 i = Some (Returns v st3)"
    using deref_set [OF inv3 ain i3] by simp
  have sp: "addrs t = map fst ps @ a # map fst qs"
    using Cons.prems(2) q addrs_inorder [of t] by simp
  from increment_set [OF inv3 sp i3 _ o3] obtain st5 where st5:
    "increment st3 i = Some (Returns () st5)" "bk st3 st5"
    "iters st5 = (iters st3)(i \<mapsto> \<lparr>node' = Some a, container' = Some this\<rparr>
        \<lparr>node' := Some (case map fst qs of [] \<Rightarrow> this | b # _ \<Rightarrow> b)\<rparr>)"
    "brk st5 = brk st3"
    by auto
  have b5: "bk st st5" using bk_trans [OF b3 st5(2)] .
  have inv5: "set_inv st5 this t" using bk_set_inv [OF b5] Cons.prems(1) by simp
  have o5: "oom st5 = []" using bk_oom [OF b5] Cons.prems(4) by simp
  have i5: "iters st5 i = Some \<lparr>node' = Some (case qs of [] \<Rightarrow> this | (a, _) # _ \<Rightarrow> a), container' = Some this\<rparr>"
    using st5(3) by (cases qs) auto
  have lt5: "i < brk st5" using st5(4) st3(4) st1(4) Cons.prems(5) by simp
  have sp5: "inorder t = (ps @ [q]) @ qs" using Cons.prems(2) by simp
  from Cons.IH [OF inv5 sp5 i5 o5 lt5, of "out @ [v]"] obtain st' where st':
    "collect st5 this i (out @ [v]) = Some (Returns ((out @ [v]) @ map snd qs) st')" "bk st5 st'"
    by blast
  have "collect st this i out = Some (Returns (out @ map snd (q # qs)) st')"
    using st1(1) eq st3(1) d st5(1) st'(1) q by (subst collect.simps) simp
  then show ?case using bk_trans [OF b5 st'(2)] by blast
qed

lemma traverse_set:
  assumes "set_inv st this t" and "oom st = []"
  shows "\<exists>st'. traverse st this = Some (Returns (elems t) st') \<and> bk st st'"
proof -
  from set_begin_set [OF assms] obtain st1 where st1:
    "set_begin st this = Some (Returns (brk st) st1)" "bk st st1"
    "iters st1 = (iters st)(brk st \<mapsto>
        \<lparr>node' = Some (case addrs t of [] \<Rightarrow> this | a # _ \<Rightarrow> a), container' = Some this\<rparr>)"
    "brk st1 = Suc (brk st)"
    by blast
  have inv1: "set_inv st1 this t" using bk_set_inv [OF st1(2)] assms(1) by simp
  have o1: "oom st1 = []" using bk_oom [OF st1(2)] assms(2) by simp
  have "(case addrs t of [] \<Rightarrow> this | a # _ \<Rightarrow> a) = (case inorder t of [] \<Rightarrow> this | (a, _) # _ \<Rightarrow> a)"
    using addrs_inorder [of t, symmetric] by (cases "inorder t") auto
  then have i1: "iters st1 (brk st) = Some \<lparr>node' = Some (case inorder t of [] \<Rightarrow> this | (a, _) # _ \<Rightarrow> a), container' = Some this\<rparr>"
    using st1(3) by simp
  from collect_set [OF inv1 _ i1 o1, of "[]" "[]"] st1(4) obtain st' where
    "collect st1 this (brk st) [] = Some (Returns (map snd (inorder t)) st')" "bk st1 st'"
    by auto
  then show ?thesis
    using st1(1,2) by (auto simp: traverse_def elems_inorder intro: bk_trans)
qed

section \<open>insert\<close>

lemma insert_descent_tree:
  "tree_at (nodes st) t par \<Longrightarrow> insert_descent st v p (root t) = Some (Returns (descent t v p) st)"
proof (induction t arbitrary: par p)
  case Tip
  show ?case by (subst insert_descent.simps) simp
next
  case (Fork l a x r)
  from Fork.prems obtain nd where nd: "nodes st a = Some nd" "value' nd = Some x" "left nd = root l"
    "right nd = root r" "tree_at (nodes st) l (Some a)" "tree_at (nodes st) r (Some a)"
    by (auto split: option.splits)
  show ?case
    using nd Fork.IH(1) [OF nd(5), of "Some a"] Fork.IH(2) [OF nd(6), of "Some a"]
    by (subst insert_descent.simps) (simp add: get_node_def)
qed

lemma descent_snd: "snd (descent t v p) = snd (descent t v q)"
  by (induction t arbitrary: p q) auto

lemma descent_found:
  "snd (descent t v p) \<noteq> None \<Longrightarrow> \<exists>a. descent t v p = (Some a, Some a) \<and> (a, v) \<in> set (inorder t)"
proof (induction t arbitrary: p)
  case Tip
  then show ?case by simp
next
  case (Fork l a x r)
  show ?case
  proof (cases "v < x")
    case True
    then show ?thesis using Fork.IH(1) [of "Some a"] Fork.prems by auto
  next
    case False
    show ?thesis
    proof (cases "v > x")
      case True
      then show ?thesis using Fork.IH(2) [of "Some a"] Fork.prems False by auto
    next
      case nogt: False
      then have "v = x" using False by simp
      then show ?thesis by simp
    qed
  qed
qed

lemma descent_not_found:
  "snd (descent t v p) = None \<Longrightarrow> t \<noteq> Tip \<Longrightarrow>
   \<exists>a. descent t v p = (Some a, None) \<and> a \<in> set (addrs t)"
proof (induction t arbitrary: p)
  case Tip
  then show ?case by simp
next
  case (Fork l a x r)
  show ?case
  proof (cases "v < x")
    case True
    then show ?thesis using Fork.IH(1) [of "Some a"] Fork.prems by (cases l) auto
  next
    case False
    then have "v > x" using Fork.prems by (auto split: if_splits)
    then show ?thesis using Fork.IH(2) [of "Some a"] Fork.prems False by (cases r) auto
  qed
qed

lemma descent_mem: "bst t \<Longrightarrow> (snd (descent t v p) \<noteq> None) = (v \<in> set (elems t))"
  by (induction t arbitrary: p) (auto simp: bst_def sorted_wrt_append)

lemma ins_root: "t \<noteq> Tip \<Longrightarrow> root (ins n v t) = root t"
  by (cases t) auto

lemma ins_found: "snd (descent t v p) \<noteq> None \<Longrightarrow> ins n v t = t"
  by (induction t arbitrary: p) (auto split: if_splits)

lemma ins_addrs: "snd (descent t v p) = None \<Longrightarrow> set (addrs (ins n v t)) = insert n (set (addrs t))"
  by (induction t arbitrary: p) (auto split: if_splits)

lemma ins_addrs_sub: "set (addrs (ins n v t)) \<subseteq> insert n (set (addrs t))"
  by (induction t) auto

lemma ins_distinct: "distinct (addrs t) \<Longrightarrow> n \<notin> set (addrs t) \<Longrightarrow> distinct (addrs (ins n v t))"
  using ins_addrs_sub by (induction t) fastforce+

lemma ins_length:
  "snd (descent t v p) = None \<Longrightarrow> length (addrs (ins n v t)) = Suc (length (addrs t))"
  by (induction t arbitrary: p) (auto split: if_splits)

lemma ins_elems: "set (elems (ins n v t)) = insert v (set (elems t))"
  by (induction t) auto

lemma ins_bst: "bst t \<Longrightarrow> bst (ins n v t)"
  by (induction t) (auto simp: bst_def sorted_wrt_append ins_elems)

lemma ins_inorder: "snd (descent t v p) = None \<Longrightarrow> (n, v) \<in> set (inorder (ins n v t))"
  by (induction t arbitrary: p) (auto split: if_splits)

lemma ins_tree_at:
  assumes "tree_at h t par" and "n \<notin> set (addrs t)" and "distinct (addrs t)"
    and "descent t v p0 = (Some p, None)" and "t \<noteq> Tip"
    and "\<And>a. a \<noteq> n \<Longrightarrow> a \<noteq> p \<Longrightarrow> map_option lnk (h' a) = map_option lnk (h a)"
    and "map_option lnk (h' n) = Some (None, None, Some p, Some v)"
    and "\<And>nd x. h p = Some nd \<Longrightarrow> value' nd = Some x \<Longrightarrow>
           map_option lnk (h' p) =
             Some (if v < x then (Some n, right nd, parent nd, Some x)
                   else (left nd, Some n, parent nd, Some x))"
  shows "tree_at h' (ins n v t) par"
  using assms(1-5)
proof (induction t arbitrary: par p0)
  case Tip
  then show ?case by simp
next
  case (Fork l a x r)
  from Fork.prems(1) obtain nd where nd: "h a = Some nd" "value' nd = Some x" "left nd = root l"
    "right nd = root r" "parent nd = par" "tree_at h l (Some a)" "tree_at h r (Some a)"
    by (auto split: option.splits)
  have dl: "distinct (addrs l)" and dr: "distinct (addrs r)"
    and disj: "set (addrs l) \<inter> set (addrs r) = {}" "a \<notin> set (addrs l)" "a \<notin> set (addrs r)"
    and nn: "n \<noteq> a" "n \<notin> set (addrs l)" "n \<notin> set (addrs r)"
    using Fork.prems(2,3) by auto
  have new: "\<exists>z. h' n = Some z \<and> lnk z = (None, None, Some p, Some v)"
    using assms(7) by auto
  show ?case
  proof (cases "v < x")
    case True
    then have d: "descent l v (Some a) = (Some p, None)" using Fork.prems(4) by simp
    have fr: "tree_at h' r (Some a) = tree_at h r (Some a)"
    proof (rule tree_at_lnk)
      fix b assume b: "b \<in> set (addrs r)"
      have "b \<noteq> p"
      proof (cases l)
        case Tip
        then show ?thesis using d b disj by auto
      next
        case (Fork ll la lx lr)
        then show ?thesis using descent_not_found [of l v "Some a"] d b disj by auto
      qed
      moreover have "b \<noteq> n" using b nn by auto
      ultimately show "map_option lnk (h' b) = map_option lnk (h b)" using assms(6) by blast
    qed
    show ?thesis
    proof (cases l)
      case Tip
      then have pa: "p = a" using d by simp
      from assms(8) [of nd x] nd pa True
      have "map_option lnk (h' a) = Some (Some n, right nd, parent nd, Some x)" by simp
      then obtain z where z: "h' a = Some z" "lnk z = (Some n, right nd, parent nd, Some x)"
        by auto
      show ?thesis using Tip True z nd new pa fr by (auto simp: lnk_def)
    next
      case (Fork ll la lx lr)
      from descent_not_found [of l v "Some a"] d Fork have pin: "p \<in> set (addrs l)" by auto
      then have "a \<noteq> p" using disj by auto
      then have "map_option lnk (h' a) = map_option lnk (h a)" using assms(6) nn by auto
      then obtain z where z: "h' a = Some z" "lnk z = lnk nd" using nd by auto
      have "tree_at h' (ins n v l) (Some a)"
        using Fork.IH(1) [OF nd(6) nn(2) dl d] Fork by simp
      then show ?thesis using True z nd fr ins_root [of l n v] Fork by (auto simp: lnk_def)
    qed
  next
    case False
    then have gt: "v > x" using Fork.prems(4) by (auto split: if_splits)
    then have d: "descent r v (Some a) = (Some p, None)" using Fork.prems(4) False by simp
    have fr: "tree_at h' l (Some a) = tree_at h l (Some a)"
    proof (rule tree_at_lnk)
      fix b assume b: "b \<in> set (addrs l)"
      have "b \<noteq> p"
      proof (cases r)
        case Tip
        then show ?thesis using d b disj by auto
      next
        case (Fork rl ra rx rr)
        then show ?thesis using descent_not_found [of r v "Some a"] d b disj by auto
      qed
      moreover have "b \<noteq> n" using b nn by auto
      ultimately show "map_option lnk (h' b) = map_option lnk (h b)" using assms(6) by blast
    qed
    show ?thesis
    proof (cases r)
      case Tip
      then have pa: "p = a" using d by simp
      from assms(8) [of nd x] nd pa False
      have "map_option lnk (h' a) = Some (left nd, Some n, parent nd, Some x)" by simp
      then obtain z where z: "h' a = Some z" "lnk z = (left nd, Some n, parent nd, Some x)"
        by auto
      show ?thesis using Tip False gt z nd new pa fr by (auto simp: lnk_def)
    next
      case (Fork rl ra rx rr)
      from descent_not_found [of r v "Some a"] d Fork have pin: "p \<in> set (addrs r)" by auto
      then have "a \<noteq> p" using disj by auto
      then have "map_option lnk (h' a) = map_option lnk (h a)" using assms(6) nn by auto
      then obtain z where z: "h' a = Some z" "lnk z = lnk nd" using nd by auto
      have "tree_at h' (ins n v r) (Some a)"
        using Fork.IH(2) [OF nd(7) nn(3) dr d] Fork by simp
      then show ?thesis using False gt z nd fr ins_root [of r n v] Fork by (auto simp: lnk_def)
    qed
  qed
qed

lemma new_node_ok:
  assumes "oom st = []"
  shows "\<exists>st'. new_node st p v = Some (Returns (brk st) st') \<and>
     nodes st' = (nodes st)(brk st \<mapsto> \<lparr>left = None, right = None, parent = p, share = [],
        share_cap = 0, value' = Some v\<rparr>) \<and>
     iters st' = iters st \<and> size' st' = size' st \<and> oom st' = [] \<and> brk st' = Suc (brk st)"
  using assms by (simp add: new_node_def alloc_fails_def alloc_next_def)

lemma s_iterator_assign_bk:
  assumes "iters st i = Some it" and "iters st other = Some ot" and "i \<noteq> other"
    and "node' it = None \<or> (\<exists>n x. node' it = Some n \<and> nodes st n = Some x)"
    and "node' ot = None \<or> (\<exists>n x. node' ot = Some n \<and> nodes st n = Some x)"
    and "oom st = []"
  shows "\<exists>st'. s_iterator_assign st i other = Some (Returns () st') \<and> bk st st' \<and>
     iters st' = (iters st)(i \<mapsto> ot) \<and> brk st' = brk st"
proof -
  define st1 where "st1 = st\<lparr>iters := (iters st)(i \<mapsto> it\<lparr>container' := container' ot\<rparr>)\<rparr>"
  have b1: "bk st st1" by (simp add: bk_def st1_def)
  have "iters st1 i = Some (it\<lparr>container' := container' ot\<rparr>)" by (simp add: st1_def)
  from move_to_another_node_bk [OF this, of "node' ot"] assms(4,5,6)
  obtain st' where st': "move_to_another_node st1 i (node' ot) = Some (Returns () st')" "bk st1 st'"
    "iters st' = (iters st1)(i \<mapsto> it\<lparr>container' := container' ot\<rparr>\<lparr>node' := node' ot\<rparr>)" "brk st' = brk st1"
    by (auto simp: st1_def)
  have "s_iterator_assign st i other = Some (Returns () st')"
    using assms(1,2,3) st'(1) unfolding st1_def by (simp add: s_iterator_assign_def)
  moreover have "it\<lparr>container' := container' ot\<rparr>\<lparr>node' := node' ot\<rparr> = ot" by simp
  ultimately show ?thesis using st' b1 by (auto simp: st1_def intro: bk_trans)
qed

lemma bk_lnk: "bk st st' \<Longrightarrow> map_option lnk (nodes st' a) = map_option lnk (nodes st a)"
  by (simp add: bk_def)

lemma bk_size: "bk st st' \<Longrightarrow> size' st' = size' st"
  by (simp add: bk_def)

lemma bk_brk: "bk st st' \<Longrightarrow> brk st \<le> brk st'"
  by (simp add: bk_def)

lemma bk_nodes_fresh: "bk st st' \<Longrightarrow> nodes_fresh st \<Longrightarrow> nodes_fresh st'"
  using bk_live [of st st'] by (fastforce simp: nodes_fresh_def bk_def)

lemma set_insert_found:
  assumes inv: "set_inv st this t" and f: "snd (descent t v None) \<noteq> None" and o: "oom st = []"
  shows "\<exists>a st'. set_insert st this v = Some (Returns (Suc (brk st), False) st') \<and> bk st st' \<and>
     (a, v) \<in> set (inorder t) \<and>
     iters st' = (iters st)(brk st := None, Suc (brk st) \<mapsto> \<lparr>node' = Some a, container' = Some this\<rparr>) \<and>
     brk st' = Suc (Suc (brk st))"
proof -
  from descent_found [OF f] obtain a where a: "descent t v None = (Some a, Some a)"
    "(a, v) \<in> set (inorder t)" by blast
  then have ne: "t \<noteq> Tip" by auto
  from set_inv_anchor [OF inv] ne obtain fa where fa: "nodes st this = Some fa" "left fa = root t"
    by auto
  have sz: "size' st this = Some (length (addrs t))" and tr: "tree_at (nodes st) t (Some this)"
    using set_inv_facts [OF inv] by simp_all
  have nz: "length (addrs t) \<noteq> 0" using ne by (cases t) auto
  from set_node_live [OF inv in_inorder_addr [OF a(2)]] obtain nd where nd: "nodes st a = Some nd" ..
  from return_pair_bk [OF nd o, of this False] obtain st' where st':
    "return_pair st (Some a) this False = Some (Returns (Suc (brk st), False) st')" "bk st st'"
    "iters st' = (iters st)(brk st := None, Suc (brk st) \<mapsto> \<lparr>node' = Some a, container' = Some this\<rparr>)"
    "brk st' = Suc (Suc (brk st))"
    by blast
  have "set_insert st this v = Some (Returns (Suc (brk st), False) st')"
    using fa sz nz insert_descent_tree [OF tr, of v None] a(1) st'(1)
    by (simp add: set_insert_def set_empty_def set_size_def take_root_def get_node_def)
  then show ?thesis using st' a(2) by blast
qed

lemma set_insert_empty:
  assumes inv: "set_inv st this Tip" and o: "oom st = []" and fr: "nodes_fresh st"
  shows "\<exists>st'. set_insert st this v = Some (Returns (Suc (Suc (brk st)), True) st') \<and>
     set_inv st' this (Fork Tip (brk st) v Tip) \<and> oom st' = [] \<and> nodes_fresh st' \<and>
     iters st' = (iters st)(Suc (brk st) := None,
        Suc (Suc (brk st)) \<mapsto> \<lparr>node' = Some (brk st), container' = Some this\<rparr>)"
proof -
  from set_inv_anchor [OF inv] obtain f where f: "nodes st this = Some f" "value' f = None"
    "right f = None" by blast
  have sz: "size' st this = Some 0" using set_inv_facts [OF inv] by simp
  define n where "n = brk st"
  have nt: "n \<noteq> this" using fr f by (auto simp: nodes_fresh_def n_def)
  have nn: "nodes st n = None" using fr by (auto simp: nodes_fresh_def n_def)
  from new_node_ok [OF o, of "Some this" v] obtain s1 where s1:
    "new_node st (Some this) v = Some (Returns n s1)"
    "nodes s1 = (nodes st)(n \<mapsto> \<lparr>left = None, right = None, parent = Some this, share = [],
        share_cap = 0, value' = Some v\<rparr>)"
    "iters s1 = iters st" "size' s1 = size' st" "oom s1 = []" "brk s1 = Suc n"
    unfolding n_def by blast
  define s5 where "s5 = s1\<lparr>size' := (size' s1)(this \<mapsto> Suc 0),
     nodes := (nodes s1)(this \<mapsto> f\<lparr>left := Some n, parent := None\<rparr>)\<rparr>"
  have n5: "nodes s5 n = Some \<lparr>left = None, right = None, parent = Some this, share = [],
        share_cap = 0, value' = Some v\<rparr>"
    using s1(2) nt by (simp add: s5_def)
  have o5: "oom s5 = []" using s1(5) by (simp add: s5_def)
  from return_pair_bk [OF n5 o5, of this True] obtain st' where st':
    "return_pair s5 (Some n) this True = Some (Returns (Suc (brk s5), True) st')" "bk s5 st'"
    "iters st' = (iters s5)(brk s5 := None, Suc (brk s5) \<mapsto> \<lparr>node' = Some n, container' = Some this\<rparr>)"
    "brk st' = Suc (Suc (brk s5))"
    by blast
  have b5: "brk s5 = Suc n" using s1(6) by (simp add: s5_def)
  have "set_insert st this v = catch_rethrow (return_pair s5 (Some n) this True) (\<lambda>s. clear s this)"
    using f sz s1 nt unfolding s5_def
    by (simp add: set_insert_def set_empty_def set_size_def put_root_def set_left_def put_size_def
        set_parent_def take_root_def get_node_def)
  then have run: "set_insert st this v = Some (Returns (Suc (Suc n), True) st')"
    using st'(1) b5 by (simp add: catch_rethrow_def)
  have inv5: "set_inv s5 this (Fork Tip n v Tip)"
    using f s1(2,4) nt by (simp add: set_inv_def s5_def)
  have inv': "set_inv st' this (Fork Tip n v Tip)"
    using bk_set_inv [OF st'(2)] inv5 by simp
  have fr5: "nodes_fresh s5"
    using fr s1(2,6) f by (auto simp: nodes_fresh_def s5_def n_def)
  show ?thesis
    using run inv' bk_oom [OF st'(2)] o5 bk_nodes_fresh [OF st'(2) fr5] st'(3) s1(3) b5
    by (simp add: n_def s5_def)
qed

lemma set_insert_new:
  assumes inv: "set_inv st this t" and ne: "t \<noteq> Tip" and nf: "snd (descent t v None) = None"
    and o: "oom st = []" and fr: "nodes_fresh st"
  shows "\<exists>st'. set_insert st this v = Some (Returns (Suc (Suc (Suc (brk st))), True) st') \<and>
     set_inv st' this (ins (Suc (brk st)) v t) \<and> oom st' = [] \<and> nodes_fresh st' \<and>
     iters st' (Suc (Suc (Suc (brk st)))) = Some \<lparr>node' = Some (Suc (brk st)), container' = Some this\<rparr>"
proof -
  define b0 where "b0 = brk st"
  define n where "n = Suc b0"
  from descent_not_found [OF nf ne] obtain p where p: "descent t v None = (Some p, None)"
    "p \<in> set (addrs t)" by blast
  from set_inv_anchor [OF inv] ne obtain f where f: "nodes st this = Some f" "value' f = None"
    "right f = None" "left f = root t" by auto
  have sz: "size' st this = Some (length (addrs t))" and tr: "tree_at (nodes st) t (Some this)"
    and nth: "this \<notin> set (addrs t)" and dt: "distinct (addrs t)"
    using set_inv_facts [OF inv] by simp_all
  have nz: "length (addrs t) \<noteq> 0" using ne by (cases t) auto
  from addr_in_inorder [OF p(2)] obtain x where x: "(p, x) \<in> set (inorder t)" ..
  from node_at [OF tr dt x] obtain pn where pn: "nodes st p = Some pn" "value' pn = Some x" by blast
  have fresh: "\<And>a. nodes st a \<noteq> None \<Longrightarrow> a < b0"
    using fr by (simp add: nodes_fresh_def b0_def)
  have nlive: "nodes st n = None" using fresh [of n] by (cases "nodes st n") (auto simp: n_def)
  have n_this: "n \<noteq> this" using nlive f by auto
  have n_p: "n \<noteq> p" using nlive pn by auto
  have n_t: "n \<notin> set (addrs t)" using nlive set_node_live [OF inv, of n] by auto
  have p_this: "p \<noteq> this" using p(2) nth by auto
  \<comment> \<open>\<open>iterator it = iterator();\<close>\<close>
  from s_iterator_ctor_bk [of None st None] o obtain s3 where s3:
    "s_iterator_ctor st None None = Some (Returns b0 s3)" "bk st s3"
    "iters s3 = (iters st)(b0 \<mapsto> \<lparr>node' = None, container' = None\<rparr>)" "brk s3 = Suc b0"
    unfolding b0_def by auto
  have o3: "oom s3 = []" using bk_oom [OF s3(2)] o by simp
  \<comment> \<open>\<open>new_node = new node(parent, val);\<close>\<close>
  from new_node_ok [OF o3, of "Some p" v] obtain s4 where s4:
    "new_node s3 (Some p) v = Some (Returns n s4)"
    "nodes s4 = (nodes s3)(n \<mapsto> \<lparr>left = None, right = None, parent = Some p, share = [],
        share_cap = 0, value' = Some v\<rparr>)"
    "iters s4 = iters s3" "size' s4 = size' s3" "oom s4 = []" "brk s4 = Suc n"
    unfolding n_def using s3(4) by auto
  \<comment> \<open>\<open>it = iterator(new_node, this);\<close>\<close>
  have n4: "\<exists>z. nodes s4 n = Some z" using s4(2) by simp
  from s_iterator_ctor_bk [of "Some n" s4 "Some this"] n4 s4(5) obtain s5 where s5:
    "s_iterator_ctor s4 (Some n) (Some this) = Some (Returns (Suc n) s5)" "bk s4 s5"
    "iters s5 = (iters s4)(Suc n \<mapsto> \<lparr>node' = Some n, container' = Some this\<rparr>)" "brk s5 = Suc (Suc n)"
    using s4(6) by auto
  have o5: "oom s5 = []" using bk_oom [OF s5(2)] s4(5) by simp
  have n5: "\<exists>z. nodes s5 n = Some z" using n4 bk_live [OF s5(2), of n] by auto
  have i5: "iters s5 b0 = Some \<lparr>node' = None, container' = None\<rparr>"
    "iters s5 (Suc n) = Some \<lparr>node' = Some n, container' = Some this\<rparr>"
    using s5(3) s4(3) s3(3) by (simp_all add: n_def)
  from s_iterator_assign_bk [OF i5(1) i5(2)] n5 o5 obtain s6a where s6a:
    "s_iterator_assign s5 b0 (Suc n) = Some (Returns () s6a)" "bk s5 s6a"
    "iters s6a = (iters s5)(b0 \<mapsto> \<lparr>node' = Some n, container' = Some this\<rparr>)" "brk s6a = brk s5"
    by (auto simp: n_def)
  have n6a: "\<exists>z. nodes s6a n = Some z" using n5 bk_live [OF s6a(2), of n] by auto
  have "iters s6a (Suc n) = Some \<lparr>node' = Some n, container' = Some this\<rparr>"
    using s6a(3) i5(2) by (simp add: n_def)
  from s_iterator_dtor_bk [OF this] n6a obtain s6 where s6:
    "s_iterator_dtor s6a (Suc n) = Some (Returns () s6)" "bk s6a s6"
    "iters s6 = (iters s6a)(Suc n := None)" "brk s6 = brk s6a"
    by auto
  have b46: "bk s4 s6" using s5(2) s6a(2) s6(2) by (blast intro: bk_trans)
  have o6: "oom s6 = []" using bk_oom [OF b46] s4(5) by simp
  \<comment> \<open>the links in \<open>s6\<close>\<close>
  have l6: "\<And>a. map_option lnk (nodes s6 a) =
      (if a = n then Some (None, None, Some p, Some v) else map_option lnk (nodes st a))"
    using bk_lnk [OF b46] bk_lnk [OF s3(2)] s4(2) by (simp add: lnk_def)
  from l6 [of p] pn n_p obtain pn6 where pn6: "nodes s6 p = Some pn6" "lnk pn6 = lnk pn" by auto
  then have vp6: "value' pn6 = Some x" using pn(2) by (simp add: lnk_def)
  \<comment> \<open>the node is hooked below \<open>parent\<close>, and \<open>++size_\<close>\<close>
  define s9 where "s9 = s6\<lparr>nodes := (nodes s6)(p \<mapsto> (if v < x then pn6\<lparr>left := Some n\<rparr> else pn6\<lparr>right := Some n\<rparr>))\<rparr>"
  have hook: "(if v < x then set_left s6 (Some p) (Some n) else set_right s6 (Some p) (Some n))
      = Some (Returns () s9)"
    using pn6(1) by (simp add: set_left_def set_right_def s9_def)
  have sz9: "size' s9 this = Some (length (addrs t))"
    using bk_size [OF b46] s4(4) bk_size [OF s3(2)] sz by (simp add: s9_def)
  define s11 where "s11 = s9\<lparr>size' := (size' s9)(this \<mapsto> Suc (length (addrs t)))\<rparr>"
  have l11: "\<And>a. map_option lnk (nodes s11 a) =
      (if a = p then Some (if v < x then (Some n, right pn, parent pn, Some x)
                           else (left pn, Some n, parent pn, Some x))
       else if a = n then Some (None, None, Some p, Some v)
       else map_option lnk (nodes st a))"
    using l6 pn6 pn(2) n_p by (auto simp: s11_def s9_def lnk_def)
  have o11: "oom s11 = []" using o6 by (simp add: s11_def s9_def)
  have i11: "iters s11 b0 = Some \<lparr>node' = Some n, container' = Some this\<rparr>"
    using s6(3) s6a(3) by (simp add: s11_def s9_def n_def)
  have n11: "\<exists>z. nodes s11 n = Some z" using l11 [of n] n_p by auto
  have b11: "brk s11 = Suc (Suc n)" using s6(4) s6a(4) s5(4) by (simp add: s11_def s9_def)
  \<comment> \<open>\<open>return {it, true};\<close> and the end of the scope of \<open>it\<close>\<close>
  from s_iterator_ctor_bk [of "Some n" s11 "Some this"] n11 o11 obtain s12 where s12:
    "s_iterator_ctor s11 (Some n) (Some this) = Some (Returns (Suc (Suc n)) s12)" "bk s11 s12"
    "iters s12 = (iters s11)(Suc (Suc n) \<mapsto> \<lparr>node' = Some n, container' = Some this\<rparr>)"
    "brk s12 = Suc (Suc (Suc n))"
    using b11 by auto
  have cp: "s_iterator_copy s11 b0 = Some (Returns (Suc (Suc n)) s12)"
    using i11 s12(1) by (simp add: s_iterator_copy_def)
  have "iters s12 b0 = Some \<lparr>node' = Some n, container' = Some this\<rparr>"
    using s12(3) i11 by (simp add: n_def)
  moreover have "\<exists>z. nodes s12 n = Some z" using n11 bk_live [OF s12(2), of n] by auto
  ultimately obtain s13 where s13:
    "s_iterator_dtor s12 b0 = Some (Returns () s13)" "bk s12 s13"
    "iters s13 = (iters s12)(b0 := None)" "brk s13 = brk s12"
    using s_iterator_dtor_bk [of s12 b0] by auto
  have b1113: "bk s11 s13" using s12(2) s13(2) by (rule bk_trans)
  \<comment> \<open>the run\<close>
  have gp: "get_node s6 (Some p) = Some (Returns pn6 s6)"
    using pn6(1) by (simp add: get_node_def)
  have run: "set_insert st this v = Some (Returns (Suc (Suc n), True) s13)"
    using f(1,4) sz nz insert_descent_tree [OF tr, of v None] p(1) s3(1) s4(1) s5(1) s6a(1) s6(1)
      gp vp6 hook sz9 cp s13(1)
    by (simp add: set_insert_def set_empty_def set_size_def take_root_def get_node_def
        scoped_def catch_rethrow_def put_size_def s11_def)
  \<comment> \<open>the invariant\<close>
  have l13: "\<And>a. map_option lnk (nodes s13 a) = map_option lnk (nodes s11 a)"
    using bk_lnk [OF b1113] by simp
  have tree: "tree_at (nodes s13) (ins n v t) (Some this)"
  proof (rule ins_tree_at [OF tr n_t dt p(1) ne])
    fix a assume "a \<noteq> n" "a \<noteq> p"
    then show "map_option lnk (nodes s13 a) = map_option lnk (nodes st a)"
      by (simp add: l13 l11)
  next
    show "map_option lnk (nodes s13 n) = Some (None, None, Some p, Some v)"
      using n_p by (simp add: l13 l11)
  next
    fix nd y assume "nodes st p = Some nd" "value' nd = Some y"
    then have "nd = pn" "y = x" using pn by simp_all
    then show "map_option lnk (nodes s13 p) =
        Some (if v < y then (Some n, right nd, parent nd, Some y)
              else (left nd, Some n, parent nd, Some y))"
      by (simp add: l13 l11)
  qed
  have anchor: "map_option lnk (nodes s13 this) = map_option lnk (nodes st this)"
    using n_this p_this by (simp add: l13 l11)
  have sz13: "size' s13 this = Some (Suc (length (addrs t)))"
    using bk_size [OF b1113] by (simp add: s11_def)
  have inv13: "set_inv s13 this (ins n v t)"
    unfolding set_inv_iff
    using lnk_fields [OF anchor] f tree sz13 ins_root [OF ne, of n v] ne
      ins_length [OF nf, of n] ins_distinct [OF dt n_t, of v] ins_addrs [OF nf, of n] nth n_this
    by (cases t) (auto simp del: ins.simps)
  have fr13: "nodes_fresh s13"
  proof -
    have "\<And>a. nodes s13 a \<noteq> None \<Longrightarrow> a < brk s13"
    proof -
      fix a assume "nodes s13 a \<noteq> None"
      then have "nodes s11 a \<noteq> None" using bk_live [OF b1113, of a] by simp
      then have "map_option lnk (nodes s11 a) \<noteq> None" by simp
      then have "a = p \<or> a = n \<or> nodes st a \<noteq> None" using l11 [of a] by (auto split: if_splits)
      then have "a \<le> n" using fresh [of a] pn by (auto simp: n_def)
      then show "a < brk s13" using s13(4) s12(4) by simp
    qed
    then show ?thesis by (simp add: nodes_fresh_def)
  qed
  have it13: "iters s13 (Suc (Suc n)) = Some \<lparr>node' = Some n, container' = Some this\<rparr>"
    using s13(3) s12(3) by (simp add: n_def)
  show ?thesis
    using run inv13 bk_oom [OF b1113] o11 fr13 it13 by (simp add: n_def b0_def)
qed

section \<open>Inserting a sequence and reading it back\<close>

lemma set_insert_set:
  assumes inv: "set_inv st this t" and o: "oom st = []" and fr: "nodes_fresh st"
  shows "\<exists>i b n a st'. set_insert st this v = Some (Returns (i, b) st') \<and>
     set_inv st' this (ins n v t) \<and> oom st' = [] \<and> nodes_fresh st' \<and>
     iters st' i = Some \<lparr>node' = Some a, container' = Some this\<rparr> \<and>
     a \<in> set (addrs (ins n v t))"
proof (cases "snd (descent t v None) = None")
  case False
  from set_insert_found [OF inv False o] obtain a st' where st':
    "set_insert st this v = Some (Returns (Suc (brk st), False) st')" "bk st st'"
    "(a, v) \<in> set (inorder t)"
    "iters st' = (iters st)(brk st := None, Suc (brk st) \<mapsto> \<lparr>node' = Some a, container' = Some this\<rparr>)"
    by blast
  have "set_inv st' this (ins 0 v t)"
    using bk_set_inv [OF st'(2)] inv ins_found [OF False] by simp
  moreover have "a \<in> set (addrs (ins 0 v t))"
    using in_inorder_addr [OF st'(3)] ins_found [OF False] by simp
  moreover have "iters st' (Suc (brk st)) = Some \<lparr>node' = Some a, container' = Some this\<rparr>"
    using st'(4) by simp
  ultimately show ?thesis
    using st'(1) bk_oom [OF st'(2)] o bk_nodes_fresh [OF st'(2) fr] by metis
next
  case nf: True
  show ?thesis
  proof (cases t)
    case Tip
    from set_insert_empty [OF inv [unfolded Tip] o fr, of v] obtain st' where st':
      "set_insert st this v = Some (Returns (Suc (Suc (brk st)), True) st')"
      "set_inv st' this (Fork Tip (brk st) v Tip)" "oom st' = []" "nodes_fresh st'"
      "iters st' = (iters st)(Suc (brk st) := None,
        Suc (Suc (brk st)) \<mapsto> \<lparr>node' = Some (brk st), container' = Some this\<rparr>)"
      by blast
    have "set_inv st' this (ins (brk st) v t)" using st'(2) Tip by simp
    moreover have "brk st \<in> set (addrs (ins (brk st) v t))" using Tip by simp
    moreover have "iters st' (Suc (Suc (brk st))) = Some \<lparr>node' = Some (brk st), container' = Some this\<rparr>"
      using st'(5) by simp
    ultimately show ?thesis using st'(1,3,4) by metis
  next
    case (Fork l x w r)
    then have ne: "t \<noteq> Tip" by simp
    from set_insert_new [OF inv ne nf o fr] obtain st' where st':
      "set_insert st this v = Some (Returns (Suc (Suc (Suc (brk st))), True) st')"
      "set_inv st' this (ins (Suc (brk st)) v t)" "oom st' = []" "nodes_fresh st'"
      "iters st' (Suc (Suc (Suc (brk st)))) = Some \<lparr>node' = Some (Suc (brk st)), container' = Some this\<rparr>"
      by blast
    have "Suc (brk st) \<in> set (addrs (ins (Suc (brk st)) v t))"
      using ins_addrs [OF nf] by simp
    then show ?thesis using st' by metis
  qed
qed

lemma insert_all_set:
  assumes "set_inv st this t" and "bst t" and "oom st = []" and "nodes_fresh st"
  shows "\<exists>st' t'. insert_all st this vs = Some (Returns () st') \<and> set_inv st' this t' \<and> bst t' \<and>
     set (elems t') = set (elems t) \<union> set vs \<and> oom st' = [] \<and> nodes_fresh st'"
  using assms
proof (induction vs arbitrary: st t)
  case Nil
  then show ?case by auto
next
  case (Cons v vs)
  from set_insert_set [OF Cons.prems(1,3,4), of v] obtain i b n a st1 where st1:
    "set_insert st this v = Some (Returns (i, b) st1)" "set_inv st1 this (ins n v t)" "oom st1 = []"
    "nodes_fresh st1" "iters st1 i = Some \<lparr>node' = Some a, container' = Some this\<rparr>"
    "a \<in> set (addrs (ins n v t))"
    by blast
  from set_node_live [OF st1(2,6)] obtain nd where "nodes st1 a = Some nd" ..
  with s_iterator_dtor_bk [OF st1(5)] obtain st2 where st2:
    "s_iterator_dtor st1 i = Some (Returns () st2)" "bk st1 st2"
    by auto
  have inv2: "set_inv st2 this (ins n v t)" using bk_set_inv [OF st2(2)] st1(2) by simp
  have o2: "oom st2 = []" using bk_oom [OF st2(2)] st1(3) by simp
  have f2: "nodes_fresh st2" using bk_nodes_fresh [OF st2(2) st1(4)] .
  from Cons.IH [OF inv2 ins_bst [OF Cons.prems(2)] o2 f2] obtain st' t' where st':
    "insert_all st2 this vs = Some (Returns () st')" "set_inv st' this t'" "bst t'"
    "set (elems t') = set (elems (ins n v t)) \<union> set vs" "oom st' = []" "nodes_fresh st'"
    by blast
  have "insert_all st this (v # vs) = Some (Returns () st')"
    using st1(1) st2(1) st'(1) by simp
  moreover have "set (elems t') = set (elems t) \<union> set (v # vs)"
    using st'(4) by (simp add: ins_elems)
  ultimately show ?case using st'(2,3,5,6) by blast
qed

lemma set_ctor_set:
  assumes "nodes_fresh st"
  shows "\<exists>st'. set_default_ctor st = Some (Returns (brk st) st') \<and> set_inv st' (brk st) Tip \<and>
     oom st' = oom st \<and> nodes_fresh st' \<and>
     map_option lnk (nodes st' (brk st)) = Some (Some (brk st), None, Some (brk st), None)"
  using assms
  by (auto simp: set_default_ctor_def set_ctor_def Let_def set_inv_def nodes_fresh_def lnk_def
      less_Suc_eq)

lemma bst_sorted_list: "bst t \<Longrightarrow> elems t = sorted_list_of_set (set (elems t))"
  by (simp add: bst_def strict_sorted_iff sorted_list_of_set.idem_if_sorted_distinct)

text \<open>
  Claim C2. Start from any state in which no allocation fails. Construct an empty
  set, insert the values of a list \<open>vs\<close> one after the other, and run the loop from
  \<open>begin()\<close> to \<open>end()\<close>: every call returns, and the loop yields the distinct values
  of \<open>vs\<close> in strictly increasing order.
\<close>

theorem inserts_then_traverse:
  fixes vs :: "('a::linorder) list"
  assumes "oom st = []" and "nodes_fresh st"
  shows "\<exists>this st0 st1 st2. set_default_ctor st = Some (Returns this st0) \<and>
     insert_all st0 this vs = Some (Returns () st1) \<and>
     traverse st1 this = Some (Returns (sorted_list_of_set (set vs)) st2)"
proof -
  from set_ctor_set [OF assms(2)] obtain st0 where st0:
    "set_default_ctor st = Some (Returns (brk st) st0)" "set_inv st0 (brk st) Tip"
    "oom st0 = oom st" "nodes_fresh st0"
    by blast
  have "bst (Tip :: 'a shape)" by (simp add: bst_def)
  from insert_all_set [OF st0(2) this _ st0(4), of vs] st0(3) assms(1) obtain st1 t' where st1:
    "insert_all st0 (brk st) vs = Some (Returns () st1)" "set_inv st1 (brk st) t'" "bst t'"
    "set (elems t') = set vs" "oom st1 = []"
    by auto
  from traverse_set [OF st1(2,5)] obtain st2 where
    "traverse st1 (brk st) = Some (Returns (elems t') st2)" by blast
  then have "traverse st1 (brk st) = Some (Returns (sorted_list_of_set (set vs)) st2)"
    using bst_sorted_list [OF st1(3)] st1(4) by simp
  then show ?thesis using st0(1) st1(1) by blast
qed

theorem inserts_then_traverse_witness:
  "oom initial = [] \<and> nodes_fresh initial \<and>
   (\<exists>this st0 st1 st2. set_default_ctor initial = Some (Returns this st0) \<and>
     insert_all st0 this [5, 3, 7, 3, 1] = Some (Returns () st1) \<and>
     traverse st1 this = Some (Returns [1, 3, 5, 7] st2))"
proof -
  have a: "oom initial = []" and b: "nodes_fresh initial"
    by (simp_all add: initial_def nodes_fresh_def)
  have "sorted_list_of_set (set [5, 3, 7, 3, 1 :: nat]) = [1, 3, 5, 7]"
    by code_simp
  with inserts_then_traverse [OF a b, of "[5, 3, 7, 3, 1]"] a b show ?thesis
    by simp
qed

section \<open>insert of a value that is present\<close>

text \<open>
  Claim C3. In a well-formed set that holds \<open>v\<close>, \<open>insert(v)\<close> returns the pair of an
  iterator and \<open>false\<close>; the iterator stands on a node \<open>a\<close> that was in the tree before
  the call and holds \<open>v\<close> (dereferencing it gives \<open>v\<close>); the set holds the same shape
  as before (the same nodes with the same elements), every node has kept its links,
  and \<open>size_\<close> is unchanged. No allocation fails during the call.
\<close>

theorem insert_present:
  assumes "set_inv st this t" and "bst t" and "v \<in> set (elems t)" and "oom st = []"
  shows "\<exists>i a st'. set_insert st this v = Some (Returns (i, False) st') \<and>
     (a, v) \<in> set (inorder t) \<and>
     iters st' i = Some \<lparr>node' = Some a, container' = Some this\<rparr> \<and>
     deref st' i = Some (Returns v st') \<and>
     set_inv st' this t \<and> size' st' this = size' st this \<and>
     (\<forall>b. map_option lnk (nodes st' b) = map_option lnk (nodes st b))"
proof -
  have f: "snd (descent t v None) \<noteq> None"
    using descent_mem [OF assms(2), of v None] assms(3) by simp
  from set_insert_found [OF assms(1) f assms(4)] obtain a st' where st':
    "set_insert st this v = Some (Returns (Suc (brk st), False) st')" "bk st st'"
    "(a, v) \<in> set (inorder t)"
    "iters st' = (iters st)(brk st := None, Suc (brk st) \<mapsto> \<lparr>node' = Some a, container' = Some this\<rparr>)"
    by blast
  have inv: "set_inv st' this t" using bk_set_inv [OF st'(2)] assms(1) by simp
  have it: "iters st' (Suc (brk st)) = Some \<lparr>node' = Some a, container' = Some this\<rparr>"
    using st'(4) by simp
  have "deref st' (Suc (brk st)) = Some (Returns v st')"
    using deref_set [OF inv st'(3) it] by simp
  then show ?thesis
    using st'(1,3) it inv bk_size [OF st'(2)] bk_lnk [OF st'(2)] by auto
qed

definition four :: "nat state" where
  "four =
     \<lparr>nodes = [0 \<mapsto> \<lparr>left = Some 1, right = None, parent = None, share = [], share_cap = 0,
                       value' = None\<rparr>,
               1 \<mapsto> \<lparr>left = Some 2, right = Some 3, parent = Some 0, share = [], share_cap = 2,
                       value' = Some 5\<rparr>,
               2 \<mapsto> \<lparr>left = Some 4, right = None, parent = Some 1, share = [], share_cap = 2,
                       value' = Some 3\<rparr>,
               3 \<mapsto> \<lparr>left = None, right = None, parent = Some 1, share = [], share_cap = 2,
                       value' = Some 7\<rparr>,
               4 \<mapsto> \<lparr>left = None, right = None, parent = Some 2, share = [], share_cap = 2,
                       value' = Some 1\<rparr>],
      iters = Map.empty,
      size' = [0 \<mapsto> 4],
      brk = 5,
      oom = []\<rparr>"

definition four_shape :: "nat shape" where
  "four_shape = Fork (Fork (Fork Tip 4 1 Tip) 2 3 Tip) 1 5 (Fork Tip 3 7 Tip)"

lemma four_inv: "set_inv four 0 four_shape"
  by (simp add: set_inv_def four_def four_shape_def)

lemma four_bst: "bst four_shape"
  by (simp add: bst_def four_shape_def)

theorem insert_present_witness:
  "set_inv four 0 four_shape \<and> bst four_shape \<and> 3 \<in> set (elems four_shape) \<and> oom four = [] \<and>
   (\<exists>i st'. set_insert four 0 3 = Some (Returns (i, False) st') \<and>
     iters st' i = Some \<lparr>node' = Some 2, container' = Some 0\<rparr> \<and>
     deref st' i = Some (Returns 3 st') \<and>
     set_inv st' 0 four_shape \<and> size' st' 0 = Some 4)"
proof -
  have m: "3 \<in> set (elems four_shape)" by (simp add: four_shape_def)
  have o: "oom four = []" by (simp add: four_def)
  from insert_present [OF four_inv four_bst m o] obtain i a st' where st':
    "set_insert four 0 3 = Some (Returns (i, False) st')" "(a, 3) \<in> set (inorder four_shape)"
    "iters st' i = Some \<lparr>node' = Some a, container' = Some 0\<rparr>"
    "deref st' i = Some (Returns 3 st')" "set_inv st' 0 four_shape" "size' st' 0 = size' four 0"
    by blast
  have "a = 2" using st'(2) by (simp add: four_shape_def)
  moreover have "size' four 0 = Some 4" by (simp add: four_def)
  ultimately show ?thesis using st' four_inv four_bst m o by auto
qed

section \<open>lower_bound and upper_bound\<close>

lemma lower_bound_loop_tree:
  "tree_at (nodes st) t par \<Longrightarrow>
   lower_bound_loop st v (root t) res = Some (Returns (lb t v res) st)"
proof (induction t arbitrary: par res)
  case Tip
  show ?case by (subst lower_bound_loop.simps) simp
next
  case (Fork l a x r)
  from Fork.prems obtain nd where nd: "nodes st a = Some nd" "value' nd = Some x" "left nd = root l"
    "right nd = root r" "tree_at (nodes st) l (Some a)" "tree_at (nodes st) r (Some a)"
    by (auto split: option.splits)
  show ?case
    using nd Fork.IH(1) [OF nd(5), of "Some a"] Fork.IH(2) [OF nd(6), of res]
    by (subst lower_bound_loop.simps) (simp add: get_node_def)
qed

lemma upper_bound_loop_tree:
  "tree_at (nodes st) t par \<Longrightarrow>
   upper_bound_loop st v (root t) res = Some (Returns (ub t v res) st)"
proof (induction t arbitrary: par res)
  case Tip
  show ?case by (subst upper_bound_loop.simps) simp
next
  case (Fork l a x r)
  from Fork.prems obtain nd where nd: "nodes st a = Some nd" "value' nd = Some x" "left nd = root l"
    "right nd = root r" "tree_at (nodes st) l (Some a)" "tree_at (nodes st) r (Some a)"
    by (auto split: option.splits)
  show ?case
    using nd Fork.IH(1) [OF nd(5), of "Some a"] Fork.IH(2) [OF nd(6), of res]
    by (subst upper_bound_loop.simps) (simp add: get_node_def)
qed

lemma elems_of_inorder: "(a, x) \<in> set (inorder t) \<Longrightarrow> x \<in> set (elems t)"
  using elems_inorder [of t] by (metis image_eqI set_map snd_conv)

lemma lb_cases:
  "bst t \<Longrightarrow>
   (\<exists>a x. lb t v res = Some a \<and> (a, x) \<in> set (inorder t) \<and> v \<le> x \<and>
          (\<forall>y\<in>set (elems t). v \<le> y \<longrightarrow> x \<le> y)) \<or>
   (lb t v res = res \<and> (\<forall>y\<in>set (elems t). y < v))"
proof (induction t arbitrary: res)
  case Tip
  then show ?case by simp
next
  case (Fork l a x r)
  have bl: "bst l" and br: "bst r" and lx: "\<forall>y\<in>set (elems l). y < x" and xr: "\<forall>y\<in>set (elems r). x < y"
    using Fork.prems by (auto simp: bst_def sorted_wrt_append)
  show ?case
  proof (cases "v \<le> x")
    case True
    from Fork.IH(1) [OF bl, of "Some a"] show ?thesis
    proof
      assume "\<exists>a' x'. lb l v (Some a) = Some a' \<and> (a', x') \<in> set (inorder l) \<and> v \<le> x' \<and>
          (\<forall>y\<in>set (elems l). v \<le> y \<longrightarrow> x' \<le> y)"
      then obtain a' x' where h: "lb l v (Some a) = Some a'" "(a', x') \<in> set (inorder l)" "v \<le> x'"
        "\<forall>y\<in>set (elems l). v \<le> y \<longrightarrow> x' \<le> y" by blast
      have "x' < x" using lx elems_of_inorder [OF h(2)] by simp
      then have "\<forall>y\<in>set (elems (Fork l a x r)). v \<le> y \<longrightarrow> x' \<le> y"
        using h(4) xr by fastforce
      then show ?thesis using True h by auto
    next
      assume h: "lb l v (Some a) = Some a \<and> (\<forall>y\<in>set (elems l). y < v)"
      then have "\<forall>y\<in>set (elems (Fork l a x r)). v \<le> y \<longrightarrow> x \<le> y"
        using xr by fastforce
      then show ?thesis using True h by auto
    qed
  next
    case False
    then have xv: "x < v" by simp
    from Fork.IH(2) [OF br, of res] show ?thesis
    proof
      assume "\<exists>a' x'. lb r v res = Some a' \<and> (a', x') \<in> set (inorder r) \<and> v \<le> x' \<and>
          (\<forall>y\<in>set (elems r). v \<le> y \<longrightarrow> x' \<le> y)"
      then obtain a' x' where h: "lb r v res = Some a'" "(a', x') \<in> set (inorder r)" "v \<le> x'"
        "\<forall>y\<in>set (elems r). v \<le> y \<longrightarrow> x' \<le> y" by blast
      have "\<forall>y\<in>set (elems (Fork l a x r)). v \<le> y \<longrightarrow> x' \<le> y"
        using h(4) lx xv by fastforce
      then show ?thesis using False h by auto
    next
      assume h: "lb r v res = res \<and> (\<forall>y\<in>set (elems r). y < v)"
      then have "\<forall>y\<in>set (elems (Fork l a x r)). y < v"
        using lx xv by fastforce
      then show ?thesis using False h by auto
    qed
  qed
qed

lemma ub_cases:
  "bst t \<Longrightarrow>
   (\<exists>a x. ub t v res = Some a \<and> (a, x) \<in> set (inorder t) \<and> v < x \<and>
          (\<forall>y\<in>set (elems t). v < y \<longrightarrow> x \<le> y)) \<or>
   (ub t v res = res \<and> (\<forall>y\<in>set (elems t). y \<le> v))"
proof (induction t arbitrary: res)
  case Tip
  then show ?case by simp
next
  case (Fork l a x r)
  have bl: "bst l" and br: "bst r" and lx: "\<forall>y\<in>set (elems l). y < x" and xr: "\<forall>y\<in>set (elems r). x < y"
    using Fork.prems by (auto simp: bst_def sorted_wrt_append)
  show ?case
  proof (cases "v < x")
    case True
    from Fork.IH(1) [OF bl, of "Some a"] show ?thesis
    proof
      assume "\<exists>a' x'. ub l v (Some a) = Some a' \<and> (a', x') \<in> set (inorder l) \<and> v < x' \<and>
          (\<forall>y\<in>set (elems l). v < y \<longrightarrow> x' \<le> y)"
      then obtain a' x' where h: "ub l v (Some a) = Some a'" "(a', x') \<in> set (inorder l)" "v < x'"
        "\<forall>y\<in>set (elems l). v < y \<longrightarrow> x' \<le> y" by blast
      have "x' < x" using lx elems_of_inorder [OF h(2)] by simp
      then have "\<forall>y\<in>set (elems (Fork l a x r)). v < y \<longrightarrow> x' \<le> y"
        using h(4) xr by fastforce
      then show ?thesis using True h by auto
    next
      assume h: "ub l v (Some a) = Some a \<and> (\<forall>y\<in>set (elems l). y \<le> v)"
      then have "\<forall>y\<in>set (elems (Fork l a x r)). v < y \<longrightarrow> x \<le> y"
        using xr by fastforce
      then show ?thesis using True h by auto
    qed
  next
    case False
    then have xv: "x \<le> v" by simp
    from Fork.IH(2) [OF br, of res] show ?thesis
    proof
      assume "\<exists>a' x'. ub r v res = Some a' \<and> (a', x') \<in> set (inorder r) \<and> v < x' \<and>
          (\<forall>y\<in>set (elems r). v < y \<longrightarrow> x' \<le> y)"
      then obtain a' x' where h: "ub r v res = Some a'" "(a', x') \<in> set (inorder r)" "v < x'"
        "\<forall>y\<in>set (elems r). v < y \<longrightarrow> x' \<le> y" by blast
      have "\<forall>y\<in>set (elems (Fork l a x r)). v < y \<longrightarrow> x' \<le> y"
        using h(4) lx xv by fastforce
      then show ?thesis using False h by auto
    next
      assume h: "ub r v res = res \<and> (\<forall>y\<in>set (elems r). y \<le> v)"
      then have "\<forall>y\<in>set (elems (Fork l a x r)). y \<le> v"
        using lx xv by fastforce
      then show ?thesis using False h by auto
    qed
  qed
qed

lemma bound_tail:
  assumes "set_inv st this t" and "oom st = []"
    and "res = None \<or> (\<exists>a. res = Some a \<and> a \<in> set (addrs t))"
  shows "\<exists>st'. (case res of None \<Rightarrow> set_end st this | Some _ \<Rightarrow> s_iterator_ctor st res (Some this))
       = Some (Returns (brk st) st') \<and> bk st st' \<and>
     iters st' (brk st) = Some \<lparr>node' = Some (case res of None \<Rightarrow> this | Some a \<Rightarrow> a),
        container' = Some this\<rparr>"
proof (cases res)
  case None
  then show ?thesis using set_end_set [OF assms(1,2)] by auto
next
  case (Some a)
  then have "a \<in> set (addrs t)" using assms(3) by simp
  from set_node_live [OF assms(1) this] obtain nd where "nodes st a = Some nd" ..
  with s_iterator_ctor_bk [of "Some a" st "Some this"] assms(2) Some show ?thesis by auto
qed

lemma lower_bound_set:
  assumes "set_inv st this t" and "bst t" and "oom st = []"
  shows "\<exists>st'. lower_bound st this v = Some (Returns (brk st) st') \<and> bk st st' \<and>
     iters st' (brk st) = Some \<lparr>node' = Some (case lb t v None of None \<Rightarrow> this | Some a \<Rightarrow> a),
        container' = Some this\<rparr>"
proof (cases t)
  case Tip
  then have "size' st this = Some 0" using set_inv_facts [OF assms(1)] by simp
  then have "lower_bound st this v = set_end st this"
    by (simp add: lower_bound_def set_empty_def set_size_def)
  then show ?thesis using set_end_set [OF assms(1,3)] Tip by auto
next
  case (Fork l x w r)
  then have ne: "t \<noteq> Tip" by simp
  from set_inv_anchor [OF assms(1)] ne obtain f where f: "nodes st this = Some f" "left f = root t"
    by auto
  have sz: "size' st this = Some (length (addrs t))" and tr: "tree_at (nodes st) t (Some this)"
    using set_inv_facts [OF assms(1)] by simp_all
  have nz: "length (addrs t) \<noteq> 0" using Fork by simp
  have "lb t v None = None \<or> (\<exists>a. lb t v None = Some a \<and> a \<in> set (addrs t))"
    using lb_cases [OF assms(2), of v None] in_inorder_addr by fastforce
  from bound_tail [OF assms(1,3) this] obtain st' where st':
    "(case lb t v None of None \<Rightarrow> set_end st this | Some _ \<Rightarrow> s_iterator_ctor st (lb t v None) (Some this))
       = Some (Returns (brk st) st')" "bk st st'"
    "iters st' (brk st) = Some \<lparr>node' = Some (case lb t v None of None \<Rightarrow> this | Some a \<Rightarrow> a),
        container' = Some this\<rparr>"
    by blast
  have "lower_bound st this v = Some (Returns (brk st) st')"
    using f sz nz lower_bound_loop_tree [OF tr, of v None] st'(1)
    by (simp add: lower_bound_def set_empty_def set_size_def take_root_def get_node_def)
  then show ?thesis using st'(2,3) by blast
qed

lemma upper_bound_set:
  assumes "set_inv st this t" and "bst t" and "oom st = []"
  shows "\<exists>st'. upper_bound st this v = Some (Returns (brk st) st') \<and> bk st st' \<and>
     iters st' (brk st) = Some \<lparr>node' = Some (case ub t v None of None \<Rightarrow> this | Some a \<Rightarrow> a),
        container' = Some this\<rparr>"
proof (cases t)
  case Tip
  then have "size' st this = Some 0" using set_inv_facts [OF assms(1)] by simp
  then have "upper_bound st this v = set_end st this"
    by (simp add: upper_bound_def set_empty_def set_size_def)
  then show ?thesis using set_end_set [OF assms(1,3)] Tip by auto
next
  case (Fork l x w r)
  then have ne: "t \<noteq> Tip" by simp
  from set_inv_anchor [OF assms(1)] ne obtain f where f: "nodes st this = Some f" "left f = root t"
    by auto
  have sz: "size' st this = Some (length (addrs t))" and tr: "tree_at (nodes st) t (Some this)"
    using set_inv_facts [OF assms(1)] by simp_all
  have nz: "length (addrs t) \<noteq> 0" using Fork by simp
  have "ub t v None = None \<or> (\<exists>a. ub t v None = Some a \<and> a \<in> set (addrs t))"
    using ub_cases [OF assms(2), of v None] in_inorder_addr by fastforce
  from bound_tail [OF assms(1,3) this] obtain st' where st':
    "(case ub t v None of None \<Rightarrow> set_end st this | Some _ \<Rightarrow> s_iterator_ctor st (ub t v None) (Some this))
       = Some (Returns (brk st) st')" "bk st st'"
    "iters st' (brk st) = Some \<lparr>node' = Some (case ub t v None of None \<Rightarrow> this | Some a \<Rightarrow> a),
        container' = Some this\<rparr>"
    by blast
  have "upper_bound st this v = Some (Returns (brk st) st')"
    using f sz nz upper_bound_loop_tree [OF tr, of v None] st'(1)
    by (simp add: upper_bound_def set_empty_def set_size_def take_root_def get_node_def)
  then show ?thesis using st'(2,3) by blast
qed

text \<open>
  Claim C7. In a well-formed search tree, with no allocation failing:
  \<open>lower_bound(v)\<close> returns an iterator that either dereferences to an element \<open>x\<close> of
  the set with \<open>v \<le> x\<close> that is below every other element \<open>y\<close> with \<open>v \<le> y\<close>, or, when
  every element is below \<open>v\<close>, stands on the anchor, which is \<open>end()\<close>;
  \<open>upper_bound(v)\<close> does the same with \<open>v < x\<close>. Neither call changes the tree. The
  example after the theorem is the set \<open>{1, 3, 5, 7}\<close> of the claim with its seven queries.
\<close>

theorem bounds_least:
  assumes "set_inv st this t" and "bst t" and "oom st = []"
  shows "(\<exists>i st'. lower_bound st this v = Some (Returns i st') \<and> bk st st' \<and>
       ((\<exists>x. deref st' i = Some (Returns x st') \<and> x \<in> set (elems t) \<and> v \<le> x \<and>
             (\<forall>y\<in>set (elems t). v \<le> y \<longrightarrow> x \<le> y)) \<or>
        (iters st' i = Some \<lparr>node' = Some this, container' = Some this\<rparr> \<and>
         (\<forall>y\<in>set (elems t). y < v)))) \<and>
     (\<exists>i st'. upper_bound st this v = Some (Returns i st') \<and> bk st st' \<and>
       ((\<exists>x. deref st' i = Some (Returns x st') \<and> x \<in> set (elems t) \<and> v < x \<and>
             (\<forall>y\<in>set (elems t). v < y \<longrightarrow> x \<le> y)) \<or>
        (iters st' i = Some \<lparr>node' = Some this, container' = Some this\<rparr> \<and>
         (\<forall>y\<in>set (elems t). y \<le> v))))"
proof
  from lower_bound_set [OF assms, of v] obtain st' where st':
    "lower_bound st this v = Some (Returns (brk st) st')" "bk st st'"
    "iters st' (brk st) = Some \<lparr>node' = Some (case lb t v None of None \<Rightarrow> this | Some a \<Rightarrow> a),
        container' = Some this\<rparr>"
    by blast
  have inv: "set_inv st' this t" using bk_set_inv [OF st'(2)] assms(1) by simp
  from lb_cases [OF assms(2), of v None]
  have "(\<exists>x. deref st' (brk st) = Some (Returns x st') \<and> x \<in> set (elems t) \<and> v \<le> x \<and>
             (\<forall>y\<in>set (elems t). v \<le> y \<longrightarrow> x \<le> y)) \<or>
        (iters st' (brk st) = Some \<lparr>node' = Some this, container' = Some this\<rparr> \<and>
         (\<forall>y\<in>set (elems t). y < v))"
  proof
    assume "\<exists>a x. lb t v None = Some a \<and> (a, x) \<in> set (inorder t) \<and> v \<le> x \<and>
          (\<forall>y\<in>set (elems t). v \<le> y \<longrightarrow> x \<le> y)"
    then obtain a x where h: "lb t v None = Some a" "(a, x) \<in> set (inorder t)" "v \<le> x"
      "\<forall>y\<in>set (elems t). v \<le> y \<longrightarrow> x \<le> y" by blast
    have "deref st' (brk st) = Some (Returns x st')"
      using deref_set [OF inv h(2) st'(3)] h(1) by simp
    then show ?thesis using h elems_of_inorder [OF h(2)] by blast
  next
    assume "lb t v None = None \<and> (\<forall>y\<in>set (elems t). y < v)"
    then show ?thesis using st'(3) by simp
  qed
  then show "\<exists>i st'. lower_bound st this v = Some (Returns i st') \<and> bk st st' \<and>
       ((\<exists>x. deref st' i = Some (Returns x st') \<and> x \<in> set (elems t) \<and> v \<le> x \<and>
             (\<forall>y\<in>set (elems t). v \<le> y \<longrightarrow> x \<le> y)) \<or>
        (iters st' i = Some \<lparr>node' = Some this, container' = Some this\<rparr> \<and>
         (\<forall>y\<in>set (elems t). y < v)))"
    using st'(1,2) by blast
next
  from upper_bound_set [OF assms, of v] obtain st' where st':
    "upper_bound st this v = Some (Returns (brk st) st')" "bk st st'"
    "iters st' (brk st) = Some \<lparr>node' = Some (case ub t v None of None \<Rightarrow> this | Some a \<Rightarrow> a),
        container' = Some this\<rparr>"
    by blast
  have inv: "set_inv st' this t" using bk_set_inv [OF st'(2)] assms(1) by simp
  from ub_cases [OF assms(2), of v None]
  have "(\<exists>x. deref st' (brk st) = Some (Returns x st') \<and> x \<in> set (elems t) \<and> v < x \<and>
             (\<forall>y\<in>set (elems t). v < y \<longrightarrow> x \<le> y)) \<or>
        (iters st' (brk st) = Some \<lparr>node' = Some this, container' = Some this\<rparr> \<and>
         (\<forall>y\<in>set (elems t). y \<le> v))"
  proof
    assume "\<exists>a x. ub t v None = Some a \<and> (a, x) \<in> set (inorder t) \<and> v < x \<and>
          (\<forall>y\<in>set (elems t). v < y \<longrightarrow> x \<le> y)"
    then obtain a x where h: "ub t v None = Some a" "(a, x) \<in> set (inorder t)" "v < x"
      "\<forall>y\<in>set (elems t). v < y \<longrightarrow> x \<le> y" by blast
    have "deref st' (brk st) = Some (Returns x st')"
      using deref_set [OF inv h(2) st'(3)] h(1) by simp
    then show ?thesis using h elems_of_inorder [OF h(2)] by blast
  next
    assume "ub t v None = None \<and> (\<forall>y\<in>set (elems t). y \<le> v)"
    then show ?thesis using st'(3) by simp
  qed
  then show "\<exists>i st'. upper_bound st this v = Some (Returns i st') \<and> bk st st' \<and>
       ((\<exists>x. deref st' i = Some (Returns x st') \<and> x \<in> set (elems t) \<and> v < x \<and>
             (\<forall>y\<in>set (elems t). v < y \<longrightarrow> x \<le> y)) \<or>
        (iters st' i = Some \<lparr>node' = Some this, container' = Some this\<rparr> \<and>
         (\<forall>y\<in>set (elems t). y \<le> v)))"
    using st'(1,2) by blast
qed

theorem bounds_least_witness:
  "set_inv four 0 four_shape \<and> bst four_shape \<and> oom four = [] \<and>
   (\<exists>i st'. lower_bound four 0 2 = Some (Returns i st') \<and> deref st' i = Some (Returns 3 st')) \<and>
   (\<exists>i st'. lower_bound four 0 3 = Some (Returns i st') \<and> deref st' i = Some (Returns 3 st')) \<and>
   (\<exists>i st'. lower_bound four 0 4 = Some (Returns i st') \<and> deref st' i = Some (Returns 5 st')) \<and>
   (\<exists>i st'. lower_bound four 0 8 = Some (Returns i st') \<and>
       iters st' i = Some \<lparr>node' = Some 0, container' = Some 0\<rparr>) \<and>
   (\<exists>i st'. upper_bound four 0 2 = Some (Returns i st') \<and> deref st' i = Some (Returns 3 st')) \<and>
   (\<exists>i st'. upper_bound four 0 3 = Some (Returns i st') \<and> deref st' i = Some (Returns 5 st')) \<and>
   (\<exists>i st'. upper_bound four 0 7 = Some (Returns i st') \<and>
       iters st' i = Some \<lparr>node' = Some 0, container' = Some 0\<rparr>)"
proof -
  have o: "oom four = []" by (simp add: four_def)
  have e: "set (elems four_shape) = {1, 3, 5, 7}" by (auto simp: four_shape_def)
  note b = bounds_least [OF four_inv four_bst o, unfolded e]
  have l2: "\<exists>i st'. lower_bound four 0 2 = Some (Returns i st') \<and> deref st' i = Some (Returns 3 st')"
    using b [of 2, THEN conjunct1] by auto
  have l3: "\<exists>i st'. lower_bound four 0 3 = Some (Returns i st') \<and> deref st' i = Some (Returns 3 st')"
    using b [of 3, THEN conjunct1] by auto
  have l4: "\<exists>i st'. lower_bound four 0 4 = Some (Returns i st') \<and> deref st' i = Some (Returns 5 st')"
    using b [of 4, THEN conjunct1] by auto
  have l8: "\<exists>i st'. lower_bound four 0 8 = Some (Returns i st') \<and>
       iters st' i = Some \<lparr>node' = Some 0, container' = Some 0\<rparr>"
    using b [of 8, THEN conjunct1] by auto
  have u2: "\<exists>i st'. upper_bound four 0 2 = Some (Returns i st') \<and> deref st' i = Some (Returns 3 st')"
    using b [of 2, THEN conjunct2] by auto
  have u3: "\<exists>i st'. upper_bound four 0 3 = Some (Returns i st') \<and> deref st' i = Some (Returns 5 st')"
    using b [of 3, THEN conjunct2] by auto
  have u7: "\<exists>i st'. upper_bound four 0 7 = Some (Returns i st') \<and>
       iters st' i = Some \<lparr>node' = Some 0, container' = Some 0\<rparr>"
    using b [of 7, THEN conjunct2] by auto
  show ?thesis
    using four_inv four_bst o l2 l3 l4 l8 u2 u3 u7 by blast
qed

section \<open>Decrementing begin()\<close>

text \<open>
  Claim C9. Decrementing \<open>begin()\<close> of a set that was default-constructed and then
  filled fails the assertion at the end of \<open>operator--\<close>. In a copy of that set the
  same decrement returns normally and leaves the iterator on \<open>end()\<close>: the constructor
  \<open>set(size)\<close> leaves the anchor's \<open>parent\<close> pointing at the anchor, only the first
  \<open>insert\<close> resets it, and the copy constructor never does.
\<close>

theorem decrement_begin_of_copy:
  "aborted (bind filled_default decrement_begin_is_end) = Some AssertFail \<and>
   returned (bind copy_of_filled decrement_begin_is_end) = Some True"
  by code_simp

section \<open>clear\<close>

lemma reset_iterators_ok:
  "\<forall>i\<in>set js. m i \<noteq> None \<Longrightarrow>
   reset_iterators js m =
     Some (\<lambda>i. if i \<in> set js then map_option (\<lambda>it. it\<lparr>node' := None\<rparr>) (m i) else m i)"
proof (induction js arbitrary: m)
  case Nil
  then show ?case by simp
next
  case (Cons j js)
  from Cons.prems obtain it where it: "m j = Some it" by auto
  have "\<forall>i\<in>set js. (m(j \<mapsto> it\<lparr>node' := None\<rparr>)) i \<noteq> None"
    using Cons.prems by simp
  from Cons.IH [OF this]
  have "reset_iterators js (m(j \<mapsto> it\<lparr>node' := None\<rparr>)) =
     Some (\<lambda>i. if i \<in> set js
        then map_option (\<lambda>it. it\<lparr>node' := None\<rparr>) ((m(j \<mapsto> it\<lparr>node' := None\<rparr>)) i)
        else (m(j \<mapsto> it\<lparr>node' := None\<rparr>)) i)" .
  moreover have "(\<lambda>i. if i \<in> set js
        then map_option (\<lambda>it. it\<lparr>node' := None\<rparr>) ((m(j \<mapsto> it\<lparr>node' := None\<rparr>)) i)
        else (m(j \<mapsto> it\<lparr>node' := None\<rparr>)) i) =
     (\<lambda>i. if i \<in> set (j # js) then map_option (\<lambda>it. it\<lparr>node' := None\<rparr>) (m i) else m i)"
    using it by (auto simp: fun_eq_iff)
  moreover have "reset_iterators (j # js) m = reset_iterators js (m(j \<mapsto> it\<lparr>node' := None\<rparr>))"
    using it by simp
  ultimately show ?case by simp
qed

lemma delete_node_ok:
  assumes "nodes st a = Some nd" and "\<forall>i\<in>set (share nd). iters st i \<noteq> None"
  shows "delete_node st a = Some (Returns () (st\<lparr>iters :=
       (\<lambda>i. if i \<in> set (share nd) then map_option (\<lambda>it. it\<lparr>node' := None\<rparr>) (iters st i)
            else iters st i),
     nodes := (nodes st)(a := None)\<rparr>))"
  using assms reset_iterators_ok [of "share nd" "iters st"]
  by (simp add: delete_node_def)

lemma del_subtree_tree:
  assumes "tree_at (nodes st) t par" and "distinct (addrs t)" and "shares_live st"
  shows "\<exists>st'. del_subtree st (root t) = Some (Returns () st') \<and>
     (\<forall>a. nodes st' a = (if a \<in> set (addrs t) then None else nodes st a)) \<and>
     size' st' = size' st \<and> (\<forall>i. (iters st' i = None) = (iters st i = None)) \<and>
     oom st' = oom st \<and> brk st' = brk st"
  using assms
proof (induction t arbitrary: st par)
  case Tip
  show ?case by (subst del_subtree.simps) simp
next
  case (Fork l a v r)
  from Fork.prems(1) obtain nd where nd: "nodes st a = Some nd" "left nd = root l" "right nd = root r"
    "tree_at (nodes st) l (Some a)" "tree_at (nodes st) r (Some a)"
    by (auto split: option.splits)
  have dl: "distinct (addrs l)" and dr: "distinct (addrs r)"
    and disj: "set (addrs l) \<inter> set (addrs r) = {}" "a \<notin> set (addrs l)" "a \<notin> set (addrs r)"
    using Fork.prems(2) by auto
  from Fork.IH(1) [OF nd(4) dl Fork.prems(3)] obtain s2 where s2:
    "del_subtree st (root l) = Some (Returns () s2)"
    "\<forall>b. nodes s2 b = (if b \<in> set (addrs l) then None else nodes st b)"
    "size' s2 = size' st" "\<forall>i. (iters s2 i = None) = (iters st i = None)"
    "oom s2 = oom st" "brk s2 = brk st"
    by blast
  have n2: "nodes s2 a = Some nd" using s2(2) nd(1) disj by simp
  have t2: "tree_at (nodes s2) r (Some a)"
    using nd(5) s2(2) disj by (subst tree_at_lnk [of r _ "nodes st"]) auto
  have l2: "shares_live s2"
    using Fork.prems(3) s2(2,4) unfolding shares_live_def
    by (metis option.distinct(1))
  from Fork.IH(2) [OF t2 dr l2] obtain s4 where s4:
    "del_subtree s2 (root r) = Some (Returns () s4)"
    "\<forall>b. nodes s4 b = (if b \<in> set (addrs r) then None else nodes s2 b)"
    "size' s4 = size' s2" "\<forall>i. (iters s4 i = None) = (iters s2 i = None)"
    "oom s4 = oom s2" "brk s4 = brk s2"
    by blast
  have n4: "nodes s4 a = Some nd" using s4(2) n2 disj by simp
  have "\<forall>i\<in>set (share nd). iters st i \<noteq> None"
    using Fork.prems(3) nd(1) by (auto simp: shares_live_def)
  then have live4: "\<forall>i\<in>set (share nd). iters s4 i \<noteq> None"
    using s2(4) s4(4) by simp
  define s5 where "s5 = s4\<lparr>iters :=
       (\<lambda>i. if i \<in> set (share nd) then map_option (\<lambda>it. it\<lparr>node' := None\<rparr>) (iters s4 i)
            else iters s4 i),
     nodes := (nodes s4)(a := None)\<rparr>"
  have d: "delete_node s4 a = Some (Returns () s5)"
    unfolding s5_def by (rule delete_node_ok [OF n4 live4])
  have run: "del_subtree st (root (Fork l a v r)) = Some (Returns () s5)"
    using nd(1,2,3) s2(1) n2 s4(1) d
    by (subst del_subtree.simps) (simp add: get_node_def)
  have "\<forall>b. nodes s5 b = (if b \<in> set (addrs (Fork l a v r)) then None else nodes st b)"
    using s4(2) s2(2) by (auto simp: s5_def)
  moreover have "\<forall>i. (iters s5 i = None) = (iters st i = None)"
    using s4(4) s2(4) by (auto simp: s5_def)
  ultimately show ?case
    using run s4(3,5,6) s2(3,5,6) by (auto simp: s5_def)
qed

lemma clear_set:
  assumes "set_inv st this t" and "t \<noteq> Tip" and "shares_live st"
  shows "\<exists>st'. clear st this = Some (Returns () st') \<and> size' st' this = Some 0 \<and>
     map_option lnk (nodes st' this) =
       map_option (\<lambda>f. (None, right f, parent f, value' f)) (nodes st this) \<and>
     (\<forall>a. a \<noteq> this \<longrightarrow> nodes st' a = (if a \<in> set (addrs t) then None else nodes st a)) \<and>
     set_inv st' this Tip \<and> oom st' = oom st \<and> brk st' = brk st"
proof -
  from set_inv_anchor [OF assms(1)] assms(2) obtain f where f: "nodes st this = Some f"
    "value' f = None" "right f = None" "left f = root t" by auto
  have sz: "size' st this = Some (length (addrs t))" and tr: "tree_at (nodes st) t (Some this)"
    and nth: "this \<notin> set (addrs t)" and dt: "distinct (addrs t)"
    using set_inv_facts [OF assms(1)] by simp_all
  have nz: "length (addrs t) \<noteq> 0" using assms(2) by (cases t) auto
  from del_subtree_tree [OF tr dt assms(3)] obtain s3 where s3:
    "del_subtree st (root t) = Some (Returns () s3)"
    "\<forall>a. nodes s3 a = (if a \<in> set (addrs t) then None else nodes st a)"
    "size' s3 = size' st" "oom s3 = oom st" "brk s3 = brk st"
    by blast
  have n3: "nodes s3 this = Some f" using s3(2) nth f(1) by simp
  define s5 where "s5 = s3\<lparr>nodes := (nodes s3)(this \<mapsto> f\<lparr>left := None\<rparr>),
     size' := (size' s3)(this \<mapsto> 0)\<rparr>"
  have run: "clear st this = Some (Returns () s5)"
    using f(1,4) sz nz s3(1,3) n3 unfolding s5_def
    by (simp add: clear_def set_empty_def set_size_def take_root_def get_node_def set_left_def
        put_size_def)
  have "set_inv s5 this Tip"
    using f by (simp add: set_inv_def s5_def)
  then show ?thesis
    using run f s3 by (auto simp: s5_def lnk_def)
qed

section \<open>The root slot of an empty set\<close>

text \<open>
  Claim C5, as amended. The constructor leaves the root slot of the new, empty set
  pointing at the set's own anchor. \<open>clear()\<close> on a well-formed set that is not empty
  (whose \<open>share\<close> vectors list live iterators only) returns with \<open>size_\<close> zero and
  the root slot null; \<open>clear()\<close> on a set whose \<open>size_\<close> is zero changes nothing.
\<close>

theorem empty_root_slot:
  "(\<exists>this st'. set_default_ctor st = Some (Returns this st') \<and> size' st' this = Some 0 \<and>
       map_option left (nodes st' this) = Some (Some this)) \<and>
   (set_inv st this t \<and> t \<noteq> Tip \<and> shares_live st \<longrightarrow>
      (\<exists>st'. clear st this = Some (Returns () st') \<and> size' st' this = Some 0 \<and>
         map_option left (nodes st' this) = Some None)) \<and>
   (size' st this = Some 0 \<longrightarrow> clear st this = Some (Returns () st))"
proof (intro conjI impI)
  show "\<exists>this st'. set_default_ctor st = Some (Returns this st') \<and> size' st' this = Some 0 \<and>
       map_option left (nodes st' this) = Some (Some this)"
    by (simp add: set_default_ctor_def set_ctor_def Let_def)
next
  assume a: "set_inv st this t \<and> t \<noteq> Tip \<and> shares_live st"
  from clear_set [of st this t] a obtain st' where st': "clear st this = Some (Returns () st')"
    "size' st' this = Some 0"
    "map_option lnk (nodes st' this) = map_option (\<lambda>f. (None, right f, parent f, value' f)) (nodes st this)"
    by blast
  from set_inv_anchor [of st this t] a obtain f where "nodes st this = Some f" by blast
  with st'(3) have "map_option left (nodes st' this) = Some None"
    by (auto simp: lnk_def)
  then show "\<exists>st'. clear st this = Some (Returns () st') \<and> size' st' this = Some 0 \<and>
         map_option left (nodes st' this) = Some None"
    using st'(1,2) by blast
next
  assume "size' st this = Some 0"
  then show "clear st this = Some (Returns () st)"
    by (simp add: clear_def set_empty_def set_size_def)
qed

theorem empty_root_slot_witness:
  "set_inv four 0 four_shape \<and> four_shape \<noteq> Tip \<and> shares_live four \<and>
   (\<exists>st'. clear four 0 = Some (Returns () st') \<and> size' st' 0 = Some 0 \<and>
      map_option left (nodes st' 0) = Some None) \<and>
   size' empty_example 0 = Some 0 \<and> clear empty_example 0 = Some (Returns () empty_example) \<and>
   (\<exists>this st'. set_default_ctor initial = Some (Returns this st') \<and> size' st' this = Some 0 \<and>
       map_option left (nodes st' this) = Some (Some this))"
proof -
  have a: "four_shape \<noteq> Tip" by (simp add: four_shape_def)
  have b: "shares_live four" by (simp add: shares_live_def four_def)
  have c: "size' empty_example 0 = Some 0" by (simp add: empty_example_def)
  note t1 = empty_root_slot [of four 0 four_shape]
  note t2 = empty_root_slot [of empty_example 0 Tip]
  note t3 = empty_root_slot [of initial 0 Tip]
  from t1 four_inv a b have "\<exists>st'. clear four 0 = Some (Returns () st') \<and> size' st' 0 = Some 0 \<and>
      map_option left (nodes st' 0) = Some None" by blast
  moreover from t2 c have "clear empty_example 0 = Some (Returns () empty_example)" by blast
  moreover from t3 have "\<exists>this st'. set_default_ctor initial = Some (Returns this st') \<and>
       size' st' this = Some 0 \<and> map_option left (nodes st' this) = Some (Some this)" by blast
  ultimately show ?thesis using four_inv a b c by blast
qed

text \<open>
  The claim C5 as it stands fails after \<open>clear()\<close>: the set of four elements is empty
  afterwards (\<open>size_\<close> is zero), with a null root slot, not one that points at the
  anchor at address 0.
\<close>

theorem clear_root_slot_null:
  "size_after (clear four 0) 0 = Some 0 \<and> root_slot_after (clear four 0) 0 = Some None \<and>
   root_slot_after (clear four 0) 0 \<noteq> Some (Some 0)"
  by code_simp

text \<open>
  Erasing the last element leaves a null root slot as well, by a slip of the code:
  lines 499 to 501 mean to write \<open>put_root(del_parent)\<close>, which would point the root
  slot at the anchor again, but the slot has been written through \<open>del_parent->left\<close>
  before (line 490), so the test \<open>take_root() == node_to_delete\<close> is false and the
  \<open>put_root\<close> never runs.
\<close>

definition erase_the_only_element :: "(addr, nat state) outcome option" where
  "erase_the_only_element =
     bind filled_default (\<lambda>s st.
     bind (set_begin st s) (\<lambda>it st1.
     erase st1 s it))"

lemma erase_last_root_slot_null:
  "size_after erase_the_only_element 0 = Some 0 \<and>
   root_slot_after erase_the_only_element 0 = Some None"
  by code_simp

section \<open>Exceptions leave the links alone\<close>

lemma kept_refl [simp]: "kept st st"
  by (simp add: kept_def)

lemma kept_trans: "kept st s1 \<Longrightarrow> kept s1 s2 \<Longrightarrow> kept st s2"
  unfolding kept_def by (metis option.map_disc_iff)

lemma kept_set_inv:
  assumes "kept st st'" and "set_inv st this t"
  shows "set_inv st' this t"
proof -
  note i = assms(2) [unfolded set_inv_iff]
  have k: "\<And>a. nodes st a \<noteq> None \<Longrightarrow> map_option lnk (nodes st' a) = map_option lnk (nodes st a)"
    and sz: "size' st' = size' st"
    using assms(1) by (simp_all add: kept_def)
  have athis: "map_option lnk (nodes st' this) = map_option lnk (nodes st this)"
    using i by (intro k) auto
  have tr: "tree_at (nodes st') t (Some this) = tree_at (nodes st) t (Some this)"
  proof (rule tree_at_lnk)
    fix a assume "a \<in> set (addrs t)"
    from tree_at_live [of "nodes st" t "Some this" a] this i
    have "nodes st a \<noteq> None" by auto
    then show "map_option lnk (nodes st' a) = map_option lnk (nodes st a)" by (rule k)
  qed
  have tip: "\<And>x. map_option value' (nodes st x) = Some None \<Longrightarrow>
      map_option value' (nodes st' x) = Some None"
  proof -
    fix x assume v: "map_option value' (nodes st x) = Some None"
    then have "nodes st x \<noteq> None" by auto
    from lnk_fields [OF k [OF this]] v show "map_option value' (nodes st' x) = Some None" by simp
  qed
  have f: "map_option left (nodes st' this) = map_option left (nodes st this)"
    "map_option right (nodes st' this) = map_option right (nodes st this)"
    "map_option value' (nodes st' this) = map_option value' (nodes st this)"
    using lnk_fields [OF athis] by simp_all
  show ?thesis
  proof (cases "t = Tip")
    case True
    then show ?thesis
      unfolding set_inv_iff f sz using i tip by auto
  next
    case False
    then show ?thesis
      unfolding set_inv_iff f sz tr using i by simp
  qed
qed

lemma add_iterator_kept:
  assumes "add_iterator st n i = Some (Returns x st') \<or> add_iterator st n i = Some (Throws st')"
  shows "kept st st' \<and> iters st' = iters st \<and> brk st' = brk st \<and>
   (\<forall>a. (nodes st' a = None) = (nodes st a = None))"
proof (cases "nodes st n")
  case None
  then show ?thesis using assms by (simp add: add_iterator_def grown_def)
next
  case (Some nd)
  then consider "st' = st\<lparr>nodes := (nodes st)(n \<mapsto> nd\<lparr>share := share nd @ [i]\<rparr>)\<rparr>"
    | "st' = alloc_next st"
    | "st' = (alloc_next st)\<lparr>nodes := (nodes st)(n \<mapsto> nd\<lparr>share := share nd @ [i],
                                                 share_cap := grown (length (share nd))\<rparr>)\<rparr>"
    using assms by (auto simp: add_iterator_def grown_def split: if_splits)
  then show ?thesis
    using Some by cases (auto simp: kept_def lnk_def alloc_next_def)
qed

lemma remove_iterator_kept:
  assumes "remove_iterator st n i = Some (Returns x st')"
  shows "kept st st' \<and> iters st' = iters st \<and> brk st' = brk st \<and>
   (\<forall>a. (nodes st' a = None) = (nodes st a = None))"
proof (cases "nodes st n")
  case None
  then show ?thesis using assms by (simp add: remove_iterator_def)
next
  case (Some nd)
  then have "st' = st\<lparr>nodes := (nodes st)(n \<mapsto> nd\<lparr>share := remove1 i (share nd)\<rparr>)\<rparr>"
    using assms by (simp add: remove_iterator_def)
  then show ?thesis
    using Some by (auto simp: kept_def lnk_def)
qed

lemma remove_iterator_no_throw: "remove_iterator st n i \<noteq> Some (Throws s)"
  by (simp add: remove_iterator_def split: option.splits)

lemma s_iterator_dtor_no_throw: "s_iterator_dtor st i \<noteq> Some (Throws s)"
proof (cases "iters st i")
  case None
  then show ?thesis by (simp add: s_iterator_dtor_def)
next
  case (Some it)
  show ?thesis
  proof (cases "node' it")
    case None
    then show ?thesis using Some by (simp add: s_iterator_dtor_def)
  next
    case (Some n)
    then show ?thesis using \<open>iters st i = Some it\<close>
      by (cases "nodes st n") (simp_all add: s_iterator_dtor_def remove_iterator_def)
  qed
qed

lemma s_iterator_dtor_kept:
  assumes "s_iterator_dtor st i = Some (Returns x st')"
  shows "kept st st' \<and> (\<forall>a. (nodes st' a = None) = (nodes st a = None)) \<and>
     iters st' = (iters st)(i := None) \<and> brk st' = brk st"
proof (cases "iters st i")
  case None
  then show ?thesis using assms by (simp add: s_iterator_dtor_def)
next
  case (Some it)
  show ?thesis
  proof (cases "node' it")
    case None
    then show ?thesis using Some assms by (auto simp: s_iterator_dtor_def kept_def)
  next
    case n: (Some n)
    show ?thesis
    proof (cases "remove_iterator st n i")
      case None
      then show ?thesis using Some n assms by (simp add: s_iterator_dtor_def)
    next
      case r: (Some r)
      show ?thesis
      proof (cases r)
        case (Returns u s1)
        then have "st' = s1\<lparr>iters := (iters s1)(i := None)\<rparr>"
          using Some n r assms by (simp add: s_iterator_dtor_def)
        then show ?thesis
          using remove_iterator_kept [of st n i u s1] r Returns by (auto simp: kept_def)
      next
        case (Throws s1)
        then show ?thesis using Some n r assms by (simp add: s_iterator_dtor_def)
      next
        case (Aborts e)
        then show ?thesis using Some n r assms by (simp add: s_iterator_dtor_def)
      qed
    qed
  qed
qed

lemma s_iterator_ctor_kept:
  assumes "s_iterator_ctor st p c = Some (Returns x st') \<or> s_iterator_ctor st p c = Some (Throws st')"
  shows "kept st st' \<and> (\<forall>a. (nodes st' a = None) = (nodes st a = None))"
proof (cases p)
  case None
  then show ?thesis using assms by (auto simp: s_iterator_ctor_def Let_def kept_def)
next
  case (Some n)
  define s1 where "s1 = st\<lparr>iters := (iters st)(brk st \<mapsto> \<lparr>node' = p, container' = c\<rparr>), brk := Suc (brk st)\<rparr>"
  have k1: "kept st s1" "\<forall>a. (nodes s1 a = None) = (nodes st a = None)"
    by (simp_all add: kept_def s1_def)
  show ?thesis
  proof (cases "add_iterator s1 n (brk st)")
    case None
    then show ?thesis using assms Some unfolding s1_def by (simp add: s_iterator_ctor_def Let_def)
  next
    case r: (Some r)
    show ?thesis
    proof (cases r)
      case (Returns u s2)
      then have "st' = s2"
        using assms Some r unfolding s1_def by (simp add: s_iterator_ctor_def Let_def)
      moreover have "kept s1 s2 \<and> (\<forall>a. (nodes s2 a = None) = (nodes s1 a = None))"
        using add_iterator_kept [of s1 n "brk st" u s2] r Returns by simp
      ultimately show ?thesis
        using k1 kept_trans [of st s1 s2] by simp
    next
      case (Throws s2)
      then have "st' = s2\<lparr>iters := (iters s2)(brk st := None)\<rparr>"
        using assms Some r unfolding s1_def by (simp add: s_iterator_ctor_def Let_def)
      moreover have "kept s1 s2 \<and> (\<forall>a. (nodes s2 a = None) = (nodes s1 a = None))"
        using add_iterator_kept [of s1 n "brk st" undefined s2] r Throws by simp
      ultimately show ?thesis
        using k1 by (auto simp: kept_def)
    next
      case (Aborts e)
      then show ?thesis using assms Some r unfolding s1_def by (simp add: s_iterator_ctor_def Let_def)
    qed
  qed
qed

lemma bind_Throws:
  "bind m f = Some (Throws s) \<Longrightarrow>
   m = Some (Throws s) \<or> (\<exists>x s1. m = Some (Returns x s1) \<and> f x s1 = Some (Throws s))"
  by (auto simp: bind_def split: option.splits outcome.splits)

lemma scoped_Throws:
  "scoped i m = Some (Throws s') \<Longrightarrow>
   \<exists>s. m = Some (Throws s) \<and> s_iterator_dtor s i = Some (Returns () s')"
  using s_iterator_dtor_no_throw
  by (auto simp: scoped_def bind_def split: option.splits outcome.splits)

lemma return_pair_Throws:
  assumes "return_pair st p this b = Some (Throws st')"
  shows "kept st st' \<and> (\<forall>a. (nodes st' a = None) = (nodes st a = None))"
proof -
  from bind_Throws [OF assms [unfolded return_pair_def]]
  consider "s_iterator_ctor st p (Some this) = Some (Throws st')"
    | tmp s1 where "s_iterator_ctor st p (Some this) = Some (Returns tmp s1)"
        "scoped tmp (bind (s_iterator_copy s1 tmp) (\<lambda>res st2. Some (Returns (res, b) st2))) = Some (Throws st')"
    by blast
  then show ?thesis
  proof cases
    case 1
    then show ?thesis using s_iterator_ctor_kept [of st p "Some this" undefined st'] by simp
  next
    case 2
    from scoped_Throws [OF 2(2)] obtain s where s:
      "bind (s_iterator_copy s1 tmp) (\<lambda>res st2. Some (Returns (res, b) st2)) = Some (Throws s)"
      "s_iterator_dtor s tmp = Some (Returns () st')" by blast
    from bind_Throws [OF s(1)] have c: "s_iterator_copy s1 tmp = Some (Throws s)" by auto
    have k1: "kept st s1 \<and> (\<forall>a. (nodes s1 a = None) = (nodes st a = None))"
      using s_iterator_ctor_kept [of st p "Some this" tmp s1] 2(1) by simp
    have k2: "kept s1 s \<and> (\<forall>a. (nodes s a = None) = (nodes s1 a = None))"
      using c s_iterator_ctor_kept [of s1 _ _ undefined s]
      by (auto simp: s_iterator_copy_def split: option.splits)
    have k3: "kept s st' \<and> (\<forall>a. (nodes st' a = None) = (nodes s a = None))"
      using s_iterator_dtor_kept [OF s(2)] by simp
    have "kept st st'"
      using k1 k2 k3 kept_trans [of st s1 s] kept_trans [of st s st'] by blast
    then show ?thesis using k1 k2 k3 by simp
  qed
qed

lemma s_iterator_ctor_room:
  assumes "nodes st n = Some nd" and "length (share nd) < share_cap nd"
  shows "\<exists>st'. s_iterator_ctor st (Some n) c = Some (Returns (brk st) st')"
  using assms by (simp add: s_iterator_ctor_def Let_def add_iterator_def grown_def bind_def)

lemma del_subtree_leaf:
  assumes "nodes st n = Some nd" and "left nd = None" and "right nd = None" and "share nd = []"
  shows "del_subtree st (Some n) = Some (Returns () (st\<lparr>iters := iters st, nodes := (nodes st)(n := None)\<rparr>))"
  using assms
  by (subst del_subtree.simps) (simp add: get_node_def del_subtree.simps [of _ None] delete_node_def)

text \<open>
  \<open>it = iterator(new_node, this)\<close> on a node just allocated: two allocation requests, one
  for the temporary and one for \<open>it\<close>. When both are served the share vector holds
  \<open>it\<close> alone and has room for a second entry.
\<close>

lemma assign_to_fresh:
  assumes n: "nodes st n = Some nd" and sh: "share nd = []" "share_cap nd = 0"
    and i: "iters st i = Some \<lparr>node' = None, container' = None\<rparr>" and ib: "i \<noteq> brk st"
  shows "(\<exists>s c. bind (s_iterator_ctor st (Some n) (Some this))
                 (\<lambda>tmp st5. scoped tmp (s_iterator_assign st5 i tmp)) = Some (Throws s) \<and>
            kept st s \<and> iters s i = Some \<lparr>node' = None, container' = c\<rparr>) \<or>
         (\<exists>s nd'. bind (s_iterator_ctor st (Some n) (Some this))
                 (\<lambda>tmp st5. scoped tmp (s_iterator_assign st5 i tmp)) = Some (Returns () s) \<and>
            nodes s = (nodes st)(n \<mapsto> nd') \<and> share nd' = [i] \<and> share_cap nd' = 2 \<and>
            lnk nd' = lnk nd \<and> size' s = size' st \<and>
            iters s i = Some \<lparr>node' = Some n, container' = Some this\<rparr>)"
proof (cases "alloc_fails st")
  case True
  have "bind (s_iterator_ctor st (Some n) (Some this))
          (\<lambda>tmp st5. scoped tmp (s_iterator_assign st5 i tmp)) =
        Some (Throws (st\<lparr>brk := Suc (brk st), oom := tl (oom st),
                         iters := (iters st)(brk st := None)\<rparr>))"
    using True n sh ib
    by (simp add: s_iterator_ctor_def Let_def add_iterator_def grown_def bind_def alloc_next_def alloc_fails_def)
  moreover have "kept st (st\<lparr>brk := Suc (brk st), oom := tl (oom st),
                         iters := (iters st)(brk st := None)\<rparr>)"
    by (simp add: kept_def)
  ultimately show ?thesis using i ib by auto
next
  case False
  define b where "b = brk st"
  define s2 where "s2 = st\<lparr>iters := (iters st)(b \<mapsto> \<lparr>node' = Some n, container' = Some this\<rparr>),
     brk := Suc b, oom := tl (oom st),
     nodes := (nodes st)(n \<mapsto> nd\<lparr>share := [b], share_cap := Suc 0\<rparr>)\<rparr>"
  have c: "s_iterator_ctor st (Some n) (Some this) = Some (Returns b s2)"
    using False n sh
    by (simp add: s_iterator_ctor_def Let_def add_iterator_def grown_def bind_def alloc_next_def alloc_fails_def
        s2_def b_def)
  have ib': "i \<noteq> b" using ib by (simp add: b_def)
  show ?thesis
  proof (cases "alloc_fails s2")
    case True
    define s where "s = s2\<lparr>oom := tl (oom s2),
       nodes := (nodes st)(n \<mapsto> nd\<lparr>share_cap := Suc 0, share := []\<rparr>),
       iters := (iters st)(i \<mapsto> \<lparr>node' = None, container' = Some this\<rparr>, b := None)\<rparr>"
    have "scoped b (s_iterator_assign s2 i b) = Some (Throws s)"
      using True i ib'
      by (simp add: scoped_def s_iterator_assign_def move_to_another_node_def add_iterator_def grown_def
          s_iterator_dtor_def remove_iterator_def bind_def alloc_next_def alloc_fails_def s2_def s_def
          fun_upd_twist)
    then have "bind (s_iterator_ctor st (Some n) (Some this))
          (\<lambda>tmp st5. scoped tmp (s_iterator_assign st5 i tmp)) = Some (Throws s)"
      using c by (simp add: bind_def)
    moreover have "kept st s"
      using n by (simp add: kept_def s_def s2_def lnk_def)
    moreover have "iters s i = Some \<lparr>node' = None, container' = Some this\<rparr>"
      using ib' by (simp add: s_def)
    ultimately show ?thesis by blast
  next
    case f2: False
    define s where "s = s2\<lparr>oom := tl (oom s2),
       nodes := (nodes st)(n \<mapsto> nd\<lparr>share_cap := Suc (Suc 0), share := [i]\<rparr>),
       iters := (iters st)(i \<mapsto> \<lparr>node' = Some n, container' = Some this\<rparr>, b := None)\<rparr>"
    have "scoped b (s_iterator_assign s2 i b) = Some (Returns () s)"
      using f2 i ib'
      by (simp add: scoped_def s_iterator_assign_def move_to_another_node_def add_iterator_def grown_def
          s_iterator_dtor_def remove_iterator_def bind_def alloc_next_def alloc_fails_def s2_def s_def
          fun_upd_twist)
    then have "bind (s_iterator_ctor st (Some n) (Some this))
          (\<lambda>tmp st5. scoped tmp (s_iterator_assign st5 i tmp)) = Some (Returns () s)"
      using c by (simp add: bind_def)
    moreover have "nodes s = (nodes st)(n \<mapsto> nd\<lparr>share_cap := Suc (Suc 0), share := [i]\<rparr>)"
      by (simp add: s_def)
    moreover have "iters s i = Some \<lparr>node' = Some n, container' = Some this\<rparr>"
      using ib' by (simp add: s_def)
    moreover have "size' s = size' st" by (simp add: s_def s2_def)
    ultimately show ?thesis by (auto simp: lnk_def)
  qed
qed


text \<open>
  \<open>return {iterator(root, this), true}\<close> on a node just allocated: the same two requests.
  When one of them fails, the node is left with an empty share vector.
\<close>

lemma return_pair_fresh:
  assumes n: "nodes st n = Some nd" and sh: "share nd = []" "share_cap nd = 0"
  shows "(\<exists>s nd'. return_pair st (Some n) this b = Some (Throws s) \<and>
            nodes s = (nodes st)(n \<mapsto> nd') \<and> share nd' = [] \<and> lnk nd' = lnk nd \<and>
            size' s = size' st) \<or>
         (\<exists>r s. return_pair st (Some n) this b = Some (Returns r s))"
proof (cases "alloc_fails st")
  case True
  have "return_pair st (Some n) this b =
        Some (Throws (st\<lparr>brk := Suc (brk st), oom := tl (oom st),
                         iters := (iters st)(brk st := None)\<rparr>))"
    using True n sh
    by (simp add: return_pair_def s_iterator_ctor_def Let_def add_iterator_def grown_def bind_def alloc_next_def
        alloc_fails_def)
  moreover have "nodes st = (nodes st)(n \<mapsto> nd)" using n by (simp add: fun_upd_idem)
  ultimately show ?thesis using sh by auto
next
  case False
  define c where "c = brk st"
  define s2 where "s2 = st\<lparr>iters := (iters st)(c \<mapsto> \<lparr>node' = Some n, container' = Some this\<rparr>),
     brk := Suc c, oom := tl (oom st),
     nodes := (nodes st)(n \<mapsto> nd\<lparr>share := [c], share_cap := Suc 0\<rparr>)\<rparr>"
  have c: "s_iterator_ctor st (Some n) (Some this) = Some (Returns c s2)"
    using False n sh
    by (simp add: s_iterator_ctor_def Let_def add_iterator_def grown_def bind_def alloc_next_def alloc_fails_def
        s2_def c_def)
  show ?thesis
  proof (cases "alloc_fails s2")
    case True
    define s where "s = s2\<lparr>oom := tl (oom s2), brk := Suc (Suc c),
       nodes := (nodes st)(n \<mapsto> nd\<lparr>share_cap := Suc 0, share := []\<rparr>),
       iters := (iters st)(c := None, Suc c := None)\<rparr>"
    have "scoped c (bind (s_iterator_copy s2 c) (\<lambda>res st2. Some (Returns (res, b) st2))) =
        Some (Throws s)"
      using True
      by (simp add: scoped_def s_iterator_copy_def s_iterator_ctor_def Let_def add_iterator_def grown_def
          s_iterator_dtor_def remove_iterator_def bind_def alloc_next_def alloc_fails_def s2_def s_def
          fun_upd_twist)
    then have "return_pair st (Some n) this b = Some (Throws s)"
      using c by (simp add: return_pair_def bind_def)
    moreover have "nodes s = (nodes st)(n \<mapsto> nd\<lparr>share_cap := Suc 0, share := []\<rparr>)"
      by (simp add: s_def)
    moreover have "size' s = size' st" by (simp add: s_def s2_def)
    ultimately show ?thesis by (auto simp: lnk_def)
  next
    case f2: False
    have "\<exists>r s. scoped c (bind (s_iterator_copy s2 c) (\<lambda>res st2. Some (Returns (res, b) st2))) =
        Some (Returns r s)"
      using f2
      by (simp add: scoped_def s_iterator_copy_def s_iterator_ctor_def Let_def add_iterator_def grown_def
          s_iterator_dtor_def remove_iterator_def bind_def alloc_next_def alloc_fails_def s2_def)
    then show ?thesis
      using c by (simp add: return_pair_def bind_def)
  qed
qed

text \<open>
  \<open>insert\<close> into the empty set. When \<open>new node\<close> throws, nothing has happened. When
  the \<open>return\<close> throws, \<open>clear()\<close> deletes the root again and nulls the root slot;
  the anchor's \<open>parent\<close> was nulled before.
\<close>

lemma set_insert_empty_Throws:
  assumes inv: "set_inv st this Tip" and fr: "nodes_fresh st"
    and thr: "set_insert st this v = Some (Throws st')"
  shows "size' st' = size' st \<and> (\<forall>a. a \<noteq> this \<longrightarrow> nodes st' a = nodes st a) \<and>
     (nodes st' this = nodes st this \<or>
      \<not> alloc_fails st \<and>
      nodes st' this = map_option (\<lambda>f. f\<lparr>parent := None, left := None\<rparr>) (nodes st this))"
proof (cases "alloc_fails st")
  case True
  have sz: "size' st this = Some 0" using set_inv_facts [OF inv] by simp
  have "set_insert st this v = Some (Throws (alloc_next st))"
    using True sz by (simp add: set_insert_def set_empty_def set_size_def new_node_def bind_def)
  with thr have "st' = alloc_next st" by simp
  then show ?thesis by (simp add: alloc_next_def)
next
  case False
  from set_inv_anchor [OF inv] obtain f where f: "nodes st this = Some f" "value' f = None"
    "right f = None" by blast
  have sz: "size' st this = Some 0" using set_inv_facts [OF inv] by simp
  define n where "n = brk st"
  have nt: "n \<noteq> this" using fr f by (auto simp: nodes_fresh_def n_def)
  have nn: "nodes st n = None" using fr by (auto simp: nodes_fresh_def n_def)
  define nd where "nd = \<lparr>left = None, right = None, parent = Some this, share = [],
        share_cap = 0, value' = Some v\<rparr>"
  define s5 where "s5 = st\<lparr>oom := tl (oom st), brk := Suc n,
     size' := (size' st)(this \<mapsto> Suc 0),
     nodes := (nodes st)(n \<mapsto> nd, this \<mapsto> f\<lparr>left := Some n, parent := None\<rparr>)\<rparr>"
  have n5: "nodes s5 n = Some nd" using nt by (simp add: s5_def)
  have run: "set_insert st this v =
      catch_rethrow (return_pair s5 (Some n) this True) (\<lambda>s. clear s this)"
    using False f sz nt unfolding s5_def nd_def n_def
    by (simp add: set_insert_def set_empty_def set_size_def new_node_def put_root_def set_left_def
        put_size_def set_parent_def take_root_def get_node_def alloc_next_def bind_def)
  have sh: "share nd = []" "share_cap nd = 0" by (simp_all add: nd_def)
  from return_pair_fresh [OF n5 sh, of this True]
  consider s nd' where "return_pair s5 (Some n) this True = Some (Throws s)"
      "nodes s = (nodes s5)(n \<mapsto> nd')" "share nd' = []" "lnk nd' = lnk nd" "size' s = size' s5"
    | r s where "return_pair s5 (Some n) this True = Some (Returns r s)"
    by blast
  then show ?thesis
  proof cases
    case 1
    have ns: "nodes s n = Some nd'" "nodes s this = Some (f\<lparr>left := Some n, parent := None\<rparr>)"
      using 1(2) nt by (simp_all add: s5_def)
    have l: "left nd' = None" "right nd' = None"
      using 1(4) by (simp_all add: lnk_def nd_def)
    note d = del_subtree_leaf [OF ns(1) l 1(3)]
    define s9 where "s9 = s\<lparr>iters := iters s,
       nodes := (nodes s)(n := None, this \<mapsto> f\<lparr>parent := None, left := None\<rparr>),
       size' := (size' s)(this \<mapsto> 0)\<rparr>"
    have "clear s this = Some (Returns () s9)"
      using ns(2) 1(5) d nt unfolding s9_def
      by (simp add: clear_def set_empty_def set_size_def take_root_def get_node_def set_left_def
          put_size_def bind_def noexcept_def s5_def)
    then have "set_insert st this v = Some (Throws s9)"
      using run 1(1) by (simp add: catch_rethrow_def bind_def)
    with thr have e: "st' = s9" by simp
    have "size' s9 = size' st"
      using 1(5) sz by (simp add: s9_def s5_def fun_upd_idem)
    moreover have "\<forall>a. a \<noteq> this \<longrightarrow> nodes s9 a = nodes st a"
      using 1(2) nn by (simp add: s9_def s5_def)
    moreover have "nodes s9 this = map_option (\<lambda>f. f\<lparr>parent := None, left := None\<rparr>) (nodes st this)"
      using f by (simp add: s9_def)
    ultimately show ?thesis using e False by simp
  next
    case 2
    then have "set_insert st this v = Some (Returns r s)"
      using run by (simp add: catch_rethrow_def)
    with thr show ?thesis by simp
  qed
qed


text \<open>
  \<open>insert\<close> of a new value into a set that is not empty. An exception can leave the
  \<open>try\<close> block only; once \<open>it\<close> stands on the new node, the vector of that node has
  room for the copy that \<open>return {it, true}\<close> makes, and nothing after the block
  allocates.
\<close>

lemma set_insert_new_Throws:
  assumes inv: "set_inv st this t" and ne: "t \<noteq> Tip" and nf: "snd (descent t v None) = None"
    and fr: "nodes_fresh st" and thr: "set_insert st this v = Some (Throws st')"
  shows "kept st st'"
proof -
  define b0 where "b0 = brk st"
  define n where "n = Suc b0"
  from descent_not_found [OF nf ne] obtain p where p: "descent t v None = (Some p, None)"
    "p \<in> set (addrs t)" by blast
  from set_inv_anchor [OF inv] ne obtain f where f: "nodes st this = Some f" "value' f = None"
    "right f = None" "left f = root t" by auto
  have sz: "size' st this = Some (length (addrs t))" and tr: "tree_at (nodes st) t (Some this)"
    and nth: "this \<notin> set (addrs t)" and dt: "distinct (addrs t)"
    using set_inv_facts [OF inv] by simp_all
  have nz: "length (addrs t) \<noteq> 0" using ne by (cases t) auto
  from addr_in_inorder [OF p(2)] obtain x where x: "(p, x) \<in> set (inorder t)" ..
  from node_at [OF tr dt x] obtain pn where pn: "nodes st p = Some pn" "value' pn = Some x" by blast
  have fresh: "\<And>a. nodes st a \<noteq> None \<Longrightarrow> a < b0"
    using fr by (simp add: nodes_fresh_def b0_def)
  have nlive: "nodes st n = None" using fresh [of n] by (cases "nodes st n") (auto simp: n_def)
  have n_p: "n \<noteq> p" using nlive pn by auto
  define s3 where "s3 = st\<lparr>iters := (iters st)(b0 \<mapsto> \<lparr>node' = None, container' = None\<rparr>),
     brk := Suc b0\<rparr>"
  have c3: "s_iterator_ctor st None None = Some (Returns b0 s3)"
    by (simp add: s_iterator_ctor_def Let_def s3_def b0_def)
  have b3: "brk s3 = n" by (simp add: s3_def n_def)
  have pre: "set_insert st this v =
      scoped b0
        (bind (catch_rethrow
                 (bind (new_node s3 (Some p) v) (\<lambda>a st4.
                  bind (bind (s_iterator_ctor st4 (Some a) (Some this)) (\<lambda>tmp st5.
                          scoped tmp (s_iterator_assign st5 b0 tmp))) (\<lambda>_ st6.
                  Some (Returns a st6))))
                 (\<lambda>s. Some (Returns () s)))
           (\<lambda>a st7.
              bind (get_node st7 (Some p)) (\<lambda>pn st8.
                case value' pn of
                  None \<Rightarrow> Some (Aborts Undefined)
                | Some x \<Rightarrow>
                    bind (if v < x then set_left st8 (Some p) (Some a)
                          else set_right st8 (Some p) (Some a)) (\<lambda>_ st9.
                    bind (set_size st9 this) (\<lambda>n st10.
                    bind (put_size st10 this (Suc n)) (\<lambda>_ st11.
                    bind (s_iterator_copy st11 b0) (\<lambda>res st12.
                    Some (Returns (res, True) st12))))))))"
    using f(1,4) sz nz insert_descent_tree [OF tr, of v None] p(1) c3
    by (simp add: set_insert_def set_empty_def set_size_def take_root_def get_node_def)
  show ?thesis
  proof (cases "alloc_fails s3")
    case True
    define s where "s = st\<lparr>brk := Suc b0, oom := tl (oom st), iters := (iters st)(b0 := None)\<rparr>"
    have nn: "new_node s3 (Some p) v = Some (Throws (alloc_next s3))"
      using True by (simp add: new_node_def)
    have d: "s_iterator_dtor (alloc_next s3) b0 = Some (Returns () s)"
      by (simp add: s_iterator_dtor_def alloc_next_def s3_def s_def)
    have "set_insert st this v = Some (Throws s)"
      unfolding pre using nn d by (simp add: scoped_def catch_rethrow_def)
    with thr have "st' = s" by simp
    then show ?thesis by (simp add: kept_def s_def)
  next
    case False
    define nd where "nd = \<lparr>left = None, right = None, parent = Some p, share = [],
        share_cap = 0, value' = Some v\<rparr>"
    define s4 where "s4 = (alloc_next s3)\<lparr>nodes := (nodes s3)(n \<mapsto> nd), brk := Suc n\<rparr>"
    have nn: "new_node s3 (Some p) v = Some (Returns n s4)"
      using False b3 by (simp add: new_node_def s4_def nd_def)
    have n4: "nodes s4 n = Some nd" by (simp add: s4_def)
    have sh: "share nd = []" "share_cap nd = 0" by (simp_all add: nd_def)
    have i4: "iters s4 b0 = Some \<lparr>node' = None, container' = None\<rparr>"
      by (simp add: s4_def s3_def alloc_next_def)
    have ib: "b0 \<noteq> brk s4" by (simp add: s4_def n_def)
    have k4: "kept st s4"
      using nlive by (simp add: kept_def s4_def s3_def alloc_next_def)
    from assign_to_fresh [OF n4 sh i4 ib, of this]
    consider s c where "bind (s_iterator_ctor s4 (Some n) (Some this))
                 (\<lambda>tmp st5. scoped tmp (s_iterator_assign st5 b0 tmp)) = Some (Throws s)"
        "kept s4 s" "iters s b0 = Some \<lparr>node' = None, container' = c\<rparr>"
      | s nd' where "bind (s_iterator_ctor s4 (Some n) (Some this))
                 (\<lambda>tmp st5. scoped tmp (s_iterator_assign st5 b0 tmp)) = Some (Returns () s)"
        "nodes s = (nodes s4)(n \<mapsto> nd')" "share nd' = [b0]" "share_cap nd' = 2"
        "size' s = size' s4" "iters s b0 = Some \<lparr>node' = Some n, container' = Some this\<rparr>"
      by blast
    then show ?thesis
    proof cases
      case 1
      have d: "s_iterator_dtor s b0 = Some (Returns () (s\<lparr>iters := (iters s)(b0 := None)\<rparr>))"
        using 1(3) by (simp add: s_iterator_dtor_def)
      have "set_insert st this v = Some (Throws (s\<lparr>iters := (iters s)(b0 := None)\<rparr>))"
        unfolding pre using nn 1(1) d by (simp add: scoped_def catch_rethrow_def)
      with thr have "st' = s\<lparr>iters := (iters s)(b0 := None)\<rparr>" by simp
      then have "kept s st'" by (simp add: kept_def)
      with kept_trans [OF k4 1(2)] show ?thesis by (rule kept_trans)
    next
      case 2
      have np: "nodes s p = Some pn"
        using 2(2) n_p pn(1) by (simp add: s4_def s3_def alloc_next_def)
      have gp: "get_node s (Some p) = Some (Returns pn s)"
        using np by (simp add: get_node_def)
      define s9 where "s9 = s\<lparr>nodes := (nodes s)(p \<mapsto> (if v < x then pn\<lparr>left := Some n\<rparr>
                                                      else pn\<lparr>right := Some n\<rparr>))\<rparr>"
      have hook: "(if v < x then set_left s (Some p) (Some n) else set_right s (Some p) (Some n))
          = Some (Returns () s9)"
        using np by (simp add: set_left_def set_right_def s9_def)
      have sz9: "size' s9 this = Some (length (addrs t))"
        using 2(5) sz by (simp add: s9_def s4_def s3_def alloc_next_def)
      define s11 where "s11 = s9\<lparr>size' := (size' s9)(this \<mapsto> Suc (length (addrs t)))\<rparr>"
      have n11: "nodes s11 n = Some nd'"
        using 2(2) n_p by (simp add: s11_def s9_def)
      have "length (share nd') < share_cap nd'" using 2(3,4) by simp
      from s_iterator_ctor_room [OF n11 this, of "Some this"] obtain s12 where
        "s_iterator_ctor s11 (Some n) (Some this) = Some (Returns (brk s11) s12)" ..
      moreover have "iters s11 b0 = Some \<lparr>node' = Some n, container' = Some this\<rparr>"
        using 2(6) by (simp add: s11_def s9_def)
      ultimately have cp: "s_iterator_copy s11 b0 = Some (Returns (brk s11) s12)"
        by (simp add: s_iterator_copy_def)
      have "set_insert st this v =
          bind (s_iterator_dtor s12 b0) (\<lambda>_ s'. Some (Returns (brk s11, True) s'))"
        unfolding pre using nn 2(1) gp pn(2) hook sz9 cp
        by (simp add: scoped_def catch_rethrow_def set_size_def put_size_def s11_def)
      with thr have "bind (s_iterator_dtor s12 b0) (\<lambda>_ s'. Some (Returns (brk s11, True) s')) =
          Some (Throws st')" by simp
      from bind_Throws [OF this] s_iterator_dtor_no_throw [of s12 b0 st'] show ?thesis by auto
    qed
  qed
qed


lemma set_insert_found_Throws:
  assumes inv: "set_inv st this t" and f: "snd (descent t v None) \<noteq> None"
    and thr: "set_insert st this v = Some (Throws st')"
  shows "kept st st'"
proof -
  from descent_found [OF f] obtain a where a: "descent t v None = (Some a, Some a)"
    "(a, v) \<in> set (inorder t)" by blast
  then have ne: "t \<noteq> Tip" by auto
  from set_inv_anchor [OF inv] ne obtain fa where fa: "nodes st this = Some fa" "left fa = root t"
    by auto
  have sz: "size' st this = Some (length (addrs t))" and tr: "tree_at (nodes st) t (Some this)"
    using set_inv_facts [OF inv] by simp_all
  have nz: "length (addrs t) \<noteq> 0" using ne by (cases t) auto
  have "set_insert st this v = return_pair st (Some a) this False"
    using fa sz nz insert_descent_tree [OF tr, of v None] a(1)
    by (simp add: set_insert_def set_empty_def set_size_def take_root_def get_node_def)
  with thr have "return_pair st (Some a) this False = Some (Throws st')" by simp
  from return_pair_Throws [OF this] show ?thesis by simp
qed

text \<open>A set of one's own making, about to run short of memory.\<close>

definition starved :: "nat state" where
  "starved =
     \<lparr>nodes = [0 \<mapsto> \<lparr>left = Some 0, right = None, parent = Some 0, share = [], share_cap = 0,
                       value' = None\<rparr>],
      iters = Map.empty,
      size' = [0 \<mapsto> 0],
      brk = 1,
      oom = [False, True]\<rparr>"

definition four_starved :: "nat state" where
  "four_starved = four\<lparr>oom := [False, True]\<rparr>"

lemma throws_state: "throws m \<Longrightarrow> \<exists>s. m = Some (Throws s)"
  by (auto simp: throws_def split: option.splits outcome.splits)

lemma starved_made: "set_default_ctor (initial\<lparr>oom := [False, True]\<rparr>) = Some (Returns 0 starved)"
  by (simp add: set_default_ctor_def set_ctor_def noexcept_def initial_def starved_def Let_def)

text \<open>
  Claim C4. When \<open>std::bad_alloc\<close> leaves \<open>insert(v)\<close> on a well-formed set, the
  set holds the shape it held before (the same nodes with the same elements, none
  attached), \<open>size_\<close> is what it was, and every node of the heap but the anchor has
  kept its links and its value. The anchor has kept its links too, unless the set was
  empty and the exception came after the root node had been allocated: then \<open>clear()\<close>
  has run in the handler, and the anchor says "no root" with a null root slot and a
  null \<open>parent\<close>, however it said it before; the set is empty before and after.
\<close>

theorem insert_throws:
  assumes "set_inv st this t" and "nodes_fresh st" and "set_insert st this v = Some (Throws st')"
  shows "set_inv st' this t \<and> size' st' = size' st \<and>
     (\<forall>a. a \<noteq> this \<longrightarrow> nodes st a \<noteq> None \<longrightarrow>
          map_option lnk (nodes st' a) = map_option lnk (nodes st a)) \<and>
     (map_option lnk (nodes st' this) = map_option lnk (nodes st this) \<or>
      t = Tip \<and> \<not> alloc_fails st \<and>
      map_option lnk (nodes st' this) = Some (None, None, None, None))"
proof (cases "t = Tip")
  case True
  from set_inv_anchor [OF assms(1)] obtain f where f: "nodes st this = Some f" "value' f = None"
    "right f = None" by blast
  from set_insert_empty_Throws [OF assms(1) [unfolded True] assms(2,3)]
  have sz: "size' st' = size' st" and o: "\<And>a. a \<noteq> this \<Longrightarrow> nodes st' a = nodes st a"
    and an: "nodes st' this = nodes st this \<or>
      \<not> alloc_fails st \<and>
      nodes st' this = map_option (\<lambda>f. f\<lparr>parent := None, left := None\<rparr>) (nodes st this)"
    by simp_all
  from an show ?thesis
  proof
    assume e: "nodes st' this = nodes st this"
    have "\<And>a. nodes st' a = nodes st a"
    proof -
      fix a show "nodes st' a = nodes st a" using e o [of a] by (cases "a = this") simp_all
    qed
    then have "kept st st'" using sz by (simp add: kept_def)
    from kept_set_inv [OF this assms(1)] show ?thesis using sz o e by simp
  next
    assume e: "\<not> alloc_fails st \<and>
      nodes st' this = map_option (\<lambda>f. f\<lparr>parent := None, left := None\<rparr>) (nodes st this)"
    then have l: "map_option lnk (nodes st' this) = Some (None, None, None, None)"
      using f by (simp add: lnk_def)
    have "set_inv st' this Tip"
      using assms(1) e f sz unfolding True set_inv_iff by simp
    then show ?thesis using sz o l e True by simp
  qed
next
  case False
  have k: "kept st st'"
  proof (cases "snd (descent t v None) = None")
    case True
    from set_insert_new_Throws [OF assms(1) False True assms(2,3)] show ?thesis .
  next
    case False
    from set_insert_found_Throws [OF assms(1) False assms(3)] show ?thesis .
  qed
  from set_inv_anchor [OF assms(1)] obtain f where f: "nodes st this = Some f" by blast
  have "map_option lnk (nodes st' this) = map_option lnk (nodes st this)"
    using k f by (simp add: kept_def)
  then show ?thesis
    using kept_set_inv [OF k assms(1)] k by (simp add: kept_def)
qed

theorem insert_throws_witness:
  "set_inv four_starved 0 four_shape \<and> nodes_fresh four_starved \<and>
   (\<exists>st'. set_insert four_starved 0 4 = Some (Throws st') \<and>
      set_inv st' 0 four_shape \<and> size' st' = size' four_starved)"
proof -
  have i: "set_inv four_starved 0 four_shape"
    by (simp add: set_inv_def four_starved_def four_def four_shape_def)
  have fr: "nodes_fresh four_starved"
    by (simp add: nodes_fresh_def four_starved_def four_def)
  have "throws (set_insert four_starved 0 4)" by code_simp
  from throws_state [OF this] obtain st' where st': "set_insert four_starved 0 4 = Some (Throws st')" ..
  from insert_throws [OF i fr st'] have "set_inv st' 0 four_shape \<and> size' st' = size' four_starved"
    by simp
  then show ?thesis using i fr st' by blast
qed

text \<open>
  The second case, in a set that has never held an element: its root slot points at
  the anchor (address 0) before the call; the root node is allocated, the
  registration of the iterator to be returned throws, and the handler's \<open>clear()\<close>
  leaves a null root slot.
\<close>

lemma insert_throw_root_slot:
  "map_option left (nodes starved 0) = Some (Some 0) \<and>
   root_slot_thrown (set_insert starved 0 5) 0 = Some None \<and>
   map_option left (nodes starved 0) \<noteq> root_slot_thrown (set_insert starved 0 5) 0"
  by code_simp

text \<open>
  In a set that is not empty the handler tests \<open>!new_node\<close> and so deletes nothing:
  the node allocated at address 6 for the value 4 is still there after the exception,
  pointing at the parent it was meant for, which does not point at it.
\<close>

lemma insert_throw_leaks_node:
  "node_thrown (set_insert four_starved 0 4) 6 = Some (None, None, Some 2, Some 4) \<and>
   node_thrown (set_insert four_starved 0 4) 2 = Some (Some 4, None, Some 1, Some 3)"
  by code_simp

section \<open>The iterators of every node, in every state\<close>

text \<open>
  Every operation leaves the bookkeeping \<open>registered\<close> in place, whether it returns
  or throws; so it holds in every state that client code can be in
  (\<open>built_registered\<close>).
\<close>

lemma keeps_simps [simp]:
  "keeps P None" "keeps P (Some (Returns r s)) = P s" "keeps P (Some (Throws s)) = P s"
  "keeps P (Some (Aborts e))"
  by (simp_all add: keeps_def)

lemma reads_simps [simp]:
  "reads st None" "reads st (Some (Returns r s)) = (s = st)" "reads st (Some (Throws s)) = False"
  "reads st (Some (Aborts e))"
  by (simp_all add: reads_def)

lemma keeps_bind:
  assumes "keeps P m" and "\<And>r s. P s \<Longrightarrow> keeps P (f r s)"
  shows "keeps P (bind m f)"
proof (cases m)
  case None
  then show ?thesis by simp
next
  case (Some y)
  then show ?thesis using assms by (cases y) simp_all
qed

lemma keeps_catch:
  assumes "keeps P m" and "\<And>s. P s \<Longrightarrow> keeps P (h s)"
  shows "keeps P (catch_rethrow m h)"
proof (cases m)
  case None
  then show ?thesis by (simp add: catch_rethrow_def)
next
  case (Some y)
  show ?thesis
  proof (cases y)
    case (Throws s)
    then have "P s" using assms(1) Some by simp
    from assms(2) [OF this] show ?thesis
      using Some Throws by (cases "h s") (auto simp: catch_rethrow_def keeps_def bind_def split: outcome.splits)
  qed (use Some assms(1) in \<open>simp_all add: catch_rethrow_def\<close>)
qed

lemma keeps_noexcept: "keeps P m \<Longrightarrow> keeps P (noexcept m)"
  by (auto simp: keeps_def noexcept_def split: option.splits outcome.splits)

lemma reads_keeps: "reads st m \<Longrightarrow> P st \<Longrightarrow> keeps P m"
  by (auto simp: keeps_def reads_def split: option.splits outcome.splits)

lemma reads_bind:
  assumes "reads st m" and "\<And>r. reads st (f r st)"
  shows "reads st (bind m f)"
proof (cases m)
  case None
  then show ?thesis by simp
next
  case (Some y)
  then show ?thesis using assms by (cases y) simp_all
qed

lemma registered_share:
  "registered st \<Longrightarrow> nodes st a = Some nd \<Longrightarrow>
   distinct (share nd) \<and> (\<forall>i. (i \<in> set (share nd)) = (\<exists>q. iters st i = Some q \<and> node' q = Some a))"
  by (simp add: registered_def)

lemma registered_live:
  "registered st \<Longrightarrow> iters st i = Some q \<Longrightarrow> node' q = Some a \<Longrightarrow> \<exists>nd. nodes st a = Some nd"
  by (auto simp: registered_def)

lemma registered_fresh:
  "registered st \<Longrightarrow> nodes st (brk st) = None \<and> iters st (brk st) = None"
  unfolding registered_def by (metis less_irrefl)

lemma registered_node_brk: "registered st \<Longrightarrow> nodes st a = Some nd \<Longrightarrow> a < brk st"
  by (simp add: registered_def)

lemma registered_iter_brk: "registered st \<Longrightarrow> iters st i = Some q \<Longrightarrow> i < brk st"
  by (simp add: registered_def)

text \<open>Writes to the links, to \<open>size_\<close> and to the allocator leave the registrations alone.\<close>

lemma registered_links:
  assumes "registered st" and "iters st' = iters st" and "brk st \<le> brk st'"
    and "\<And>a. map_option share (nodes st' a) = map_option share (nodes st a)"
  shows "registered st'"
proof -
  have sh: "\<And>a nd'. nodes st' a = Some nd' \<Longrightarrow> \<exists>nd. nodes st a = Some nd \<and> share nd = share nd'"
  proof -
    fix a nd' assume "nodes st' a = Some nd'"
    then show "\<exists>nd. nodes st a = Some nd \<and> share nd = share nd'"
      using assms(4) [of a] by (cases "nodes st a") auto
  qed
  have lv: "\<And>a. (nodes st' a = None) = (nodes st a = None)"
  proof -
    fix a show "(nodes st' a = None) = (nodes st a = None)"
      using assms(4) [of a] by (cases "nodes st a"; cases "nodes st' a") auto
  qed
  show ?thesis
    unfolding registered_def
  proof (intro conjI allI impI)
    fix a nd' assume "nodes st' a = Some nd'"
    from sh [OF this] obtain nd where nd: "nodes st a = Some nd" "share nd = share nd'" by blast
    from registered_share [OF assms(1) nd(1)] nd(2)
    show "distinct (share nd')" by simp
  next
    fix a nd' i assume "nodes st' a = Some nd'"
    from sh [OF this] obtain nd where nd: "nodes st a = Some nd" "share nd = share nd'" by blast
    from registered_share [OF assms(1) nd(1)] nd(2) assms(2)
    show "(i \<in> set (share nd')) = (\<exists>q. iters st' i = Some q \<and> node' q = Some a)" by simp
  next
    fix i q a assume "iters st' i = Some q" "node' q = Some a"
    then show "nodes st' a \<noteq> None"
      using registered_live [OF assms(1), of i q a] assms(2) lv by auto
  next
    fix a assume "nodes st' a \<noteq> None"
    then obtain nd where "nodes st a = Some nd" using lv [of a] by auto
    from registered_node_brk [OF assms(1) this] show "a < brk st'" using assms(3) by simp
  next
    fix i assume "iters st' i \<noteq> None"
    then obtain q where "iters st i = Some q" using assms(2) by auto
    from registered_iter_brk [OF assms(1) this] show "i < brk st'" using assms(3) by simp
  qed
qed

lemma set_left_keeps: "registered st \<Longrightarrow> keeps registered (set_left st p v)"
  by (auto simp: set_left_def split: option.splits intro!: registered_links [of st])

lemma set_right_keeps: "registered st \<Longrightarrow> keeps registered (set_right st p v)"
  by (auto simp: set_right_def split: option.splits intro!: registered_links [of st])

lemma set_parent_keeps: "registered st \<Longrightarrow> keeps registered (set_parent st p v)"
  by (auto simp: set_parent_def split: option.splits intro!: registered_links [of st])

lemma put_size_keeps: "registered st \<Longrightarrow> keeps registered (put_size st this n)"
  by (auto simp: put_size_def split: option.splits intro!: registered_links [of st])

lemma put_root_keeps: "registered st \<Longrightarrow> keeps registered (put_root st this p)"
  by (simp add: put_root_def set_left_keeps)

lemma alloc_next_registered: "registered st \<Longrightarrow> registered (alloc_next st)"
  by (rule registered_links [of st]) (simp_all add: alloc_next_def)

lemma swap_sentinel_keeps: "registered st \<Longrightarrow> keeps registered (swap_sentinel st a b)"
  by (auto simp: swap_sentinel_def split: option.splits intro!: registered_links [of st])

text \<open>Reads.\<close>

lemma get_node_reads: "reads st (get_node st p)"
  by (simp add: get_node_def split: option.splits)

lemma take_root_reads: "reads st (take_root st this)"
  by (simp add: take_root_def get_node_def split: option.splits)

lemma set_size_reads: "reads st (set_size st this)"
  by (simp add: set_size_def split: option.splits)

lemma set_empty_reads: "reads st (set_empty st this)"
  by (simp add: set_empty_def set_size_def split: option.splits)

lemma base_assert_reads: "reads st (base_assert st i)"
  by (simp add: base_assert_def split: option.splits)

lemma iter_eq_reads: "reads st (iter_eq st l r)"
  by (simp add: iter_eq_def split: option.splits)

lemma deref_reads: "reads st (deref st i)"
  by (auto simp: deref_def base_assert_def get_node_def bind_def split: option.splits)


text \<open>
  One iterator object \<open>i\<close> changes the node it stands on, from \<open>old\<close> to \<open>new\<close> (null
  for a singular iterator, and for one that does not exist yet or any more), and the
  \<open>share\<close> vectors follow.
\<close>

lemma registered_move:
  assumes r: "registered st"
    and io: "map_option node' (iters st i) = Some old \<or> (iters st i = None \<and> old = None)"
    and others: "\<And>j. j \<noteq> i \<Longrightarrow> iters st' j = iters st j"
    and inew: "(iters st' i = None \<and> new = None) \<or> map_option node' (iters st' i) = Some new"
    and live: "\<And>a. (nodes st' a = None) = (nodes st a = None)"
    and newlive: "\<And>n. new = Some n \<Longrightarrow> nodes st n \<noteq> None"
    and sh: "\<And>a nd nd'. nodes st a = Some nd \<Longrightarrow> nodes st' a = Some nd' \<Longrightarrow>
          distinct (share nd') \<and>
          set (share nd') = (set (share nd) - (if old = Some a then {i} else {})) \<union>
                            (if new = Some a then {i} else {})"
    and b: "brk st \<le> brk st'" "i < brk st'"
  shows "registered st'"
  unfolding registered_def
proof (intro conjI allI impI)
  fix a nd' assume n': "nodes st' a = Some nd'"
  then obtain nd where nd: "nodes st a = Some nd" using live [of a] by (cases "nodes st a") auto
  from sh [OF nd n'] show "distinct (share nd')" by simp
next
  fix a nd' j assume n': "nodes st' a = Some nd'"
  then obtain nd where nd: "nodes st a = Some nd" using live [of a] by (cases "nodes st a") auto
  note s = sh [OF nd n', THEN conjunct2]
  note o = registered_share [OF r nd, THEN conjunct2, rule_format]
  show "(j \<in> set (share nd')) = (\<exists>q. iters st' j = Some q \<and> node' q = Some a)"
  proof (cases "j = i")
    case False
    then show ?thesis using s o [of j] others [of j] by auto
  next
    case True
    have 1: "(i \<in> set (share nd)) = (old = Some a)" using o [of i] io by auto
    have 2: "(\<exists>q. iters st' i = Some q \<and> node' q = Some a) = (new = Some a)" using inew by auto
    show ?thesis unfolding True 2 using s 1 by auto
  qed
next
  fix j q a assume j: "iters st' j = Some q" "node' q = Some a"
  show "nodes st' a \<noteq> None"
  proof (cases "j = i")
    case True
    then have "new = Some a" using inew j by auto
    from newlive [OF this] show ?thesis using live by simp
  next
    case False
    then have "iters st j = Some q" using others j by simp
    from registered_live [OF r this j(2)] show ?thesis using live by auto
  qed
next
  fix a assume "nodes st' a \<noteq> None"
  then obtain nd where "nodes st a = Some nd" using live [of a] by auto
  from registered_node_brk [OF r this] show "a < brk st'" using b by simp
next
  fix j assume j: "iters st' j \<noteq> None"
  show "j < brk st'"
  proof (cases "j = i")
    case True
    then show ?thesis using b by simp
  next
    case False
    then obtain q where "iters st j = Some q" using others j by auto
    from registered_iter_brk [OF r this] show ?thesis using b by simp
  qed
qed

text \<open>A node is allocated: no iterator stands on it.\<close>

lemma registered_new:
  assumes r: "registered st" and n: "nodes st' = (nodes st)(brk st \<mapsto> nd)" "share nd = []"
    and i: "iters st' = iters st" and b: "brk st' = Suc (brk st)"
  shows "registered st'"
  unfolding registered_def
proof (intro conjI allI impI)
  fix a nd' assume "nodes st' a = Some nd'"
  then show "distinct (share nd')"
    using n registered_share [OF r, of a nd'] by (cases "a = brk st") auto
next
  fix a nd' j assume n': "nodes st' a = Some nd'"
  show "(j \<in> set (share nd')) = (\<exists>q. iters st' j = Some q \<and> node' q = Some a)"
  proof (cases "a = brk st")
    case True
    then have "nodes st a = None" using registered_fresh [OF r] by simp
    then have "\<not> (\<exists>q. iters st j = Some q \<and> node' q = Some a)"
      using registered_live [OF r, of j _ a] by auto
    then show ?thesis using True n n' i by auto
  next
    case False
    then show ?thesis using n n' i registered_share [OF r, of a nd'] by auto
  qed
next
  fix j q a assume "iters st' j = Some q" "node' q = Some a"
  then show "nodes st' a \<noteq> None" using registered_live [OF r, of j q a] i n by auto
next
  fix a assume "nodes st' a \<noteq> None"
  then show "a < brk st'"
    using n b registered_node_brk [OF r, of a] by (cases "a = brk st") (auto simp: less_Suc_eq)
next
  fix j assume "iters st' j \<noteq> None"
  then show "j < brk st'" using i b registered_iter_brk [OF r, of j] by (auto simp: less_Suc_eq)
qed

lemma new_node_keeps:
  assumes "registered st"
  shows "keeps registered (new_node st p v)"
proof (cases "alloc_fails st")
  case True
  then show ?thesis using alloc_next_registered [OF assms] by (simp add: new_node_def)
next
  case False
  have "registered ((alloc_next st)
             \<lparr>nodes := (nodes st)(brk st \<mapsto>
                 \<lparr>left = None, right = None, parent = p, share = [], share_cap = 0,
                  value' = Some v\<rparr>),
              brk := Suc (brk st)\<rparr>)"
    by (rule registered_new [OF assms, where nd = "\<lparr>left = None, right = None, parent = p,
        share = [], share_cap = 0, value' = Some v\<rparr>"]) (simp_all add: alloc_next_def)
  then show ?thesis using False by (simp add: new_node_def)
qed

lemma set_ctor_keeps:
  assumes "registered st"
  shows "keeps registered (set_ctor st n)"
proof -
  have "registered (st
        \<lparr>nodes := (nodes st)(brk st \<mapsto>
            \<lparr>left = Some (brk st), right = None, parent = Some (brk st), share = [], share_cap = 0,
             value' = None\<rparr>),
         size' := (size' st)(brk st \<mapsto> n),
         brk := Suc (brk st)\<rparr>)"
    by (rule registered_new [OF assms, where nd = "\<lparr>left = Some (brk st), right = None,
        parent = Some (brk st), share = [], share_cap = 0, value' = None\<rparr>"]) simp_all
  then show ?thesis by (simp add: set_ctor_def Let_def)
qed

lemma set_default_ctor_keeps: "registered st \<Longrightarrow> keeps registered (set_default_ctor st)"
  by (simp add: set_default_ctor_def keeps_noexcept set_ctor_keeps)


lemma registered_on:
  "registered st \<Longrightarrow> nodes st a = Some nd \<Longrightarrow>
   (i \<in> set (share nd)) = (map_option node' (iters st i) = Some (Some a))"
  using registered_share [of st a nd] by (cases "iters st i") auto

text \<open>The four ways an iterator changes its registration.\<close>

lemma registered_none:
  assumes r: "registered st"
    and o: "iters st i = None \<or> map_option node' (iters st i) = Some None"
    and n: "\<And>j. j \<noteq> i \<Longrightarrow> iters st' j = iters st j"
      "iters st' i = None \<or> map_option node' (iters st' i) = Some None"
    and h: "nodes st' = nodes st" and b: "brk st \<le> brk st'" "i < brk st'"
  shows "registered st'"
proof (rule registered_move [OF r, of i None st' None])
  show "map_option node' (iters st i) = Some None \<or> iters st i = None \<and> None = None"
    using o by auto
  show "iters st' i = None \<and> None = None \<or> map_option node' (iters st' i) = Some None"
    using n(2) by auto
  show "\<And>j. j \<noteq> i \<Longrightarrow> iters st' j = iters st j" using n(1) by auto
  show "\<And>a. (nodes st' a = None) = (nodes st a = None)" using h by simp
  show "\<And>a nd nd'. nodes st a = Some nd \<Longrightarrow> nodes st' a = Some nd' \<Longrightarrow>
      distinct (share nd') \<and>
      set (share nd') = set (share nd) - (if None = Some a then {i} else {}) \<union>
        (if None = Some a then {i} else {})"
    using h registered_share [OF r] by auto
qed (use b in simp_all)

lemma registered_add:
  assumes r: "registered st"
    and o: "iters st i = None \<or> map_option node' (iters st i) = Some None"
    and nd: "nodes st n = Some nd"
    and n: "iters st' = (iters st)(i \<mapsto> q)" "node' q = Some n"
    and h: "nodes st' = (nodes st)(n \<mapsto> nd')" "share nd' = share nd @ [i]"
    and b: "brk st \<le> brk st'" "i < brk st'"
  shows "registered st'"
proof (rule registered_move [OF r, of i None st' "Some n"])
  show "map_option node' (iters st i) = Some None \<or> iters st i = None \<and> None = None"
    using o by auto
  show "iters st' i = None \<and> Some n = None \<or> map_option node' (iters st' i) = Some (Some n)"
    using n by simp
  show "\<And>j. j \<noteq> i \<Longrightarrow> iters st' j = iters st j" using n by simp
  show "\<And>a. (nodes st' a = None) = (nodes st a = None)" using h nd by simp
  show "\<And>m. Some n = Some m \<Longrightarrow> nodes st m \<noteq> None" using nd by simp
  have ni: "i \<notin> set (share nd)" using registered_on [OF r nd, of i] o by auto
  show "\<And>a x x'. nodes st a = Some x \<Longrightarrow> nodes st' a = Some x' \<Longrightarrow>
      distinct (share x') \<and>
      set (share x') = set (share x) - (if None = Some a then {i} else {}) \<union>
        (if Some n = Some a then {i} else {})"
  proof -
    fix a x x' assume x: "nodes st a = Some x" "nodes st' a = Some x'"
    show "distinct (share x') \<and>
      set (share x') = set (share x) - (if None = Some a then {i} else {}) \<union>
        (if Some n = Some a then {i} else {})"
    proof (cases "a = n")
      case True
      then have "x = nd" "x' = nd'" using x nd h by simp_all
      then show ?thesis using True h(2) ni registered_share [OF r nd] by auto
    next
      case False
      then have "x' = x" using x h by simp
      then show ?thesis using False registered_share [OF r x(1)] by auto
    qed
  qed
qed (use b in simp_all)

lemma registered_remove:
  assumes r: "registered st"
    and o: "iters st i = Some q0" "node' q0 = Some n"
    and nd: "nodes st n = Some nd"
    and n: "\<And>j. j \<noteq> i \<Longrightarrow> iters st' j = iters st j"
      "iters st' i = None \<or> map_option node' (iters st' i) = Some None"
    and h: "nodes st' = (nodes st)(n \<mapsto> nd')" "share nd' = remove1 i (share nd)"
    and b: "brk st \<le> brk st'"
  shows "registered st'"
proof (rule registered_move [OF r, of i "Some n" st' None])
  show "map_option node' (iters st i) = Some (Some n) \<or> iters st i = None \<and> Some n = None"
    using o by simp
  show "iters st' i = None \<and> None = None \<or> map_option node' (iters st' i) = Some None"
    using n(2) by auto
  show "\<And>j. j \<noteq> i \<Longrightarrow> iters st' j = iters st j" using n(1) by auto
  show "\<And>a. (nodes st' a = None) = (nodes st a = None)" using h nd by simp
  show "i < brk st'" using registered_iter_brk [OF r o(1)] b by simp
  show "\<And>a x x'. nodes st a = Some x \<Longrightarrow> nodes st' a = Some x' \<Longrightarrow>
      distinct (share x') \<and>
      set (share x') = set (share x) - (if Some n = Some a then {i} else {}) \<union>
        (if None = Some a then {i} else {})"
  proof -
    fix a x x' assume x: "nodes st a = Some x" "nodes st' a = Some x'"
    show "distinct (share x') \<and>
      set (share x') = set (share x) - (if Some n = Some a then {i} else {}) \<union>
        (if None = Some a then {i} else {})"
    proof (cases "a = n")
      case True
      then have "x = nd" "x' = nd'" using x nd h by simp_all
      then show ?thesis using True h(2) registered_share [OF r nd] by auto
    next
      case False
      then have "x' = x" using x h by simp
      then show ?thesis using False registered_share [OF r x(1)] by auto
    qed
  qed
qed (use b in simp_all)

lemma registered_hop:
  assumes r: "registered st"
    and o: "iters st i = Some q0" "node' q0 = Some old"
    and nd: "nodes st n = Some nd" and ndo: "nodes st old = Some ndo"
    and n: "iters st' = (iters st)(i \<mapsto> q)" "node' q = Some n"
    and h: "if old = n then nodes st' = (nodes st)(n \<mapsto> nd') \<and> share nd' = remove1 i (share nd @ [i])
            else nodes st' = (nodes st)(n \<mapsto> nd', old \<mapsto> ndo') \<and> share nd' = share nd @ [i] \<and>
                 share ndo' = remove1 i (share ndo)"
    and b: "brk st \<le> brk st'"
  shows "registered st'"
proof (rule registered_move [OF r, of i "Some old" st' "Some n"])
  show "map_option node' (iters st i) = Some (Some old) \<or> iters st i = None \<and> Some old = None"
    using o by simp
  show "iters st' i = None \<and> Some n = None \<or> map_option node' (iters st' i) = Some (Some n)"
    using n by simp
  show "\<And>j. j \<noteq> i \<Longrightarrow> iters st' j = iters st j" using n by simp
  show "\<And>a. (nodes st' a = None) = (nodes st a = None)"
    using h nd ndo by (auto split: if_splits)
  show "\<And>m. Some n = Some m \<Longrightarrow> nodes st m \<noteq> None" using nd by simp
  show "i < brk st'" using registered_iter_brk [OF r o(1)] b by simp
  have io: "i \<in> set (share ndo)" using registered_on [OF r ndo, of i] o by simp
  have "old \<noteq> n \<Longrightarrow> i \<notin> set (share nd)" using registered_on [OF r nd, of i] o by simp
  note ni = this
  show "\<And>a x x'. nodes st a = Some x \<Longrightarrow> nodes st' a = Some x' \<Longrightarrow>
      distinct (share x') \<and>
      set (share x') = set (share x) - (if Some old = Some a then {i} else {}) \<union>
        (if Some n = Some a then {i} else {})"
  proof -
    fix a x x' assume x: "nodes st a = Some x" "nodes st' a = Some x'"
    show "distinct (share x') \<and>
      set (share x') = set (share x) - (if Some old = Some a then {i} else {}) \<union>
        (if Some n = Some a then {i} else {})"
    proof (cases "old = n")
      case True
      with h have h': "nodes st' = (nodes st)(n \<mapsto> nd')" "share nd' = remove1 i (share nd @ [i])"
        by simp_all
      have e: "nd = ndo" using True nd ndo by simp
      have d: "distinct (share nd)" using registered_share [OF r nd] by simp
      have rm: "remove1 i (share nd @ [i]) = remove1 i (share nd) @ [i]"
        using io e by (simp add: remove1_append)
      show ?thesis
      proof (cases "a = n")
        case an: True
        then have "x = nd" "x' = nd'" using x nd h' by simp_all
        then show ?thesis using an True h'(2) rm d io e by auto
      next
        case False
        then have "x' = x" using x h' by simp
        then show ?thesis using False True registered_share [OF r x(1)] by auto
      qed
    next
      case False
      with h have h': "nodes st' = (nodes st)(n \<mapsto> nd', old \<mapsto> ndo')" "share nd' = share nd @ [i]"
        "share ndo' = remove1 i (share ndo)" by simp_all
      consider "a = n" | "a = old" | "a \<noteq> n" "a \<noteq> old" by blast
      then show ?thesis
      proof cases
        case 1
        then have "x = nd" "x' = nd'" using x nd h' False by simp_all
        then show ?thesis using 1 False h'(2) ni registered_share [OF r nd] by auto
      next
        case 2
        then have "x = ndo" "x' = ndo'" using x ndo h' by simp_all
        then show ?thesis using 2 False h'(3) registered_share [OF r ndo] by auto
      next
        case 3
        then have "x' = x" using x h' by simp
        then show ?thesis using 3 registered_share [OF r x(1)] by auto
      qed
    qed
  qed
qed (use b in simp_all)


lemma s_iterator_ctor_keeps:
  assumes r: "registered st"
  shows "keeps registered (s_iterator_ctor st p c)"
proof -
  define i where "i = brk st"
  define st1 where "st1 = st\<lparr>iters := (iters st)(i \<mapsto> \<lparr>node' = p, container' = c\<rparr>), brk := Suc i\<rparr>"
  have fi: "iters st i = None" using registered_fresh [OF r] by (simp add: i_def)
  show ?thesis
  proof (cases p)
    case None
    have "registered st1"
      by (rule registered_none [OF r, of i]) (use fi None in \<open>simp_all add: st1_def i_def\<close>)
    then show ?thesis using None by (simp add: s_iterator_ctor_def Let_def st1_def i_def)
  next
    case (Some n)
    show ?thesis
    proof (cases "nodes st n")
      case None
      then show ?thesis using Some
        by (simp add: s_iterator_ctor_def Let_def add_iterator_def)
    next
      case nd: (Some nd)
      have ok: "\<And>s nd'. iters s = (iters st)(i \<mapsto> \<lparr>node' = Some n, container' = c\<rparr>) \<Longrightarrow>
          nodes s = (nodes st)(n \<mapsto> nd') \<Longrightarrow> share nd' = share nd @ [i] \<Longrightarrow>
          brk s = Suc i \<Longrightarrow> registered s"
      proof -
        fix s :: "'a state" and nd'
        assume "iters s = (iters st)(i \<mapsto> \<lparr>node' = Some n, container' = c\<rparr>)"
          "nodes s = (nodes st)(n \<mapsto> nd')" "share nd' = share nd @ [i]" "brk s = Suc i"
        then show "registered s"
          by (intro registered_add [OF r _ nd, where i = i and st' = s and nd' = nd'
                and q = "\<lparr>node' = Some n, container' = c\<rparr>"])
            (use fi in \<open>simp_all add: i_def\<close>)
      qed
      show ?thesis
      proof (cases "length (share nd) < share_cap nd")
        case True
        have "registered (st1\<lparr>nodes := (nodes st)(n \<mapsto> nd\<lparr>share := share nd @ [i]\<rparr>)\<rparr>)"
          by (rule ok [where nd' = "nd\<lparr>share := share nd @ [i]\<rparr>"]) (simp_all add: st1_def Some)
        then show ?thesis using Some nd True
          by (simp add: s_iterator_ctor_def Let_def add_iterator_def st1_def i_def)
      next
        case False
        show ?thesis
        proof (cases "alloc_fails st")
          case True
          have "registered (st\<lparr>brk := Suc i, oom := tl (oom st), iters := (iters st)(i := None)\<rparr>)"
            by (rule registered_none [OF r, of i]) (use fi in \<open>simp_all add: i_def\<close>)
          then show ?thesis using Some nd False True
            by (simp add: s_iterator_ctor_def Let_def add_iterator_def alloc_fails_def alloc_next_def
                i_def)
        next
          case af: False
          have "registered (st\<lparr>iters := (iters st)(i \<mapsto> \<lparr>node' = Some n, container' = c\<rparr>),
                  brk := Suc i, oom := tl (oom st),
                  nodes := (nodes st)(n \<mapsto> nd\<lparr>share := share nd @ [i],
                  share_cap := grown (length (share nd))\<rparr>)\<rparr>)"
            by (rule ok [where nd' = "nd\<lparr>share := share nd @ [i],
                  share_cap := grown (length (share nd))\<rparr>"]) simp_all
          then show ?thesis using Some nd False af
            by (simp add: s_iterator_ctor_def Let_def add_iterator_def alloc_fails_def alloc_next_def
                i_def)
        qed
      qed
    qed
  qed
qed

lemma s_iterator_copy_keeps: "registered st \<Longrightarrow> keeps registered (s_iterator_copy st i)"
  by (simp add: s_iterator_copy_def s_iterator_ctor_keeps split: option.splits)

lemma s_iterator_dtor_keeps:
  assumes r: "registered st"
  shows "keeps registered (s_iterator_dtor st i)"
proof (cases "iters st i")
  case None
  then show ?thesis by (simp add: s_iterator_dtor_def)
next
  case (Some it)
  have bi: "i < brk st" using registered_iter_brk [OF r Some] .
  show ?thesis
  proof (cases "node' it")
    case None
    have "registered (st\<lparr>iters := (iters st)(i := None)\<rparr>)"
      by (rule registered_none [OF r, of i]) (use Some None bi in simp_all)
    then show ?thesis using Some None by (simp add: s_iterator_dtor_def)
  next
    case n: (Some n)
    from registered_live [OF r Some n] obtain nd where nd: "nodes st n = Some nd" ..
    have "registered (st\<lparr>nodes := (nodes st)(n \<mapsto> nd\<lparr>share := remove1 i (share nd)\<rparr>),
        iters := (iters st)(i := None)\<rparr>)"
      by (rule registered_remove [OF r Some n nd, where nd' = "nd\<lparr>share := remove1 i (share nd)\<rparr>"])
        simp_all
    then show ?thesis using Some n nd by (simp add: s_iterator_dtor_def remove_iterator_def)
  qed
qed


lemma add_iterator_cases:
  assumes "nodes st n = Some nd"
  shows "add_iterator st n i = Some (Throws (alloc_next st)) \<or>
     (\<exists>s nd'. add_iterator st n i = Some (Returns () s) \<and> nodes s = (nodes st)(n \<mapsto> nd') \<and>
        share nd' = share nd @ [i] \<and> iters s = iters st \<and> brk s = brk st)"
proof (cases "length (share nd) < share_cap nd")
  case True
  then show ?thesis using assms
    by (auto simp: add_iterator_def intro!: exI [of _ "nd\<lparr>share := share nd @ [i]\<rparr>"])
next
  case False
  then show ?thesis using assms
    by (auto simp: add_iterator_def alloc_next_def
        intro!: exI [of _ "nd\<lparr>share := share nd @ [i], share_cap := grown (length (share nd))\<rparr>"])
qed

lemma move_to_another_node_keeps:
  assumes r: "registered st"
  shows "keeps registered (move_to_another_node st i new)"
proof (cases "iters st i")
  case None
  then show ?thesis by (simp add: move_to_another_node_def)
next
  case (Some it)
  define st1 where "st1 = st\<lparr>iters := (iters st)(i \<mapsto> it\<lparr>node' := new\<rparr>)\<rparr>"
  have bi: "i < brk st" using registered_iter_brk [OF r Some] .
  show ?thesis
  proof (cases new)
    case None
    show ?thesis
    proof (cases "node' it")
      case old: None
      have "registered st1"
        by (rule registered_none [OF r, of i]) (use Some old None bi in \<open>simp_all add: st1_def\<close>)
      then show ?thesis using Some None old
        by (simp add: move_to_another_node_def Let_def st1_def)
    next
      case old: (Some ol)
      from registered_live [OF r Some old] obtain ndo where ndo: "nodes st ol = Some ndo" ..
      have "registered (st1\<lparr>nodes := (nodes st)(ol \<mapsto> ndo\<lparr>share := remove1 i (share ndo)\<rparr>)\<rparr>)"
        by (rule registered_remove [OF r Some old ndo,
              where nd' = "ndo\<lparr>share := remove1 i (share ndo)\<rparr>"])
          (use None in \<open>simp_all add: st1_def\<close>)
      then show ?thesis using Some None old ndo
        by (simp add: move_to_another_node_def Let_def st1_def remove_iterator_def)
    qed
  next
    case new: (Some n)
    show ?thesis
    proof (cases "nodes st n")
      case None
      then show ?thesis using Some new
        by (simp add: move_to_another_node_def Let_def add_iterator_def)
    next
      case nd: (Some nd)
      have nd1: "nodes st1 n = Some nd" using nd by (simp add: st1_def)
      have st1: "st\<lparr>iters := (iters st)(i \<mapsto> it\<lparr>node' := Some n\<rparr>)\<rparr> = st1"
        by (simp add: st1_def new)
      from add_iterator_cases [OF nd1, of i]
      consider "add_iterator st1 n i = Some (Throws (alloc_next st1))"
        | s nd' where "add_iterator st1 n i = Some (Returns () s)" "nodes s = (nodes st)(n \<mapsto> nd')"
            "share nd' = share nd @ [i]" "iters s = (iters st)(i \<mapsto> it\<lparr>node' := Some n\<rparr>)"
            "brk s = brk st"
        by (auto simp: st1_def new)
      then show ?thesis
      proof cases
        case 1
        have "(iters st)(i \<mapsto> it) = iters st" using Some by (simp add: fun_upd_idem)
        then have "registered ((alloc_next st1)\<lparr>iters := (iters (alloc_next st1))(i \<mapsto> it)\<rparr>)"
          by (intro registered_links [OF r]) (simp_all add: alloc_next_def st1_def)
        then show ?thesis using Some new 1
          by (simp add: move_to_another_node_def Let_def st1)
      next
        case 2
        show ?thesis
        proof (cases "node' it")
          case old: None
          have "registered s"
            by (rule registered_add [OF r _ nd, where i = i and nd' = nd'
                  and q = "it\<lparr>node' := Some n\<rparr>"])
              (use Some old 2 bi in simp_all)
          then show ?thesis using Some new 2(1) old
            by (simp add: move_to_another_node_def Let_def st1)
        next
          case old: (Some ol)
          from registered_live [OF r Some old] obtain ndo where ndo: "nodes st ol = Some ndo" ..
          define s' where "s' = (if ol = n
              then s\<lparr>nodes := (nodes s)(n \<mapsto> nd'\<lparr>share := remove1 i (share nd')\<rparr>)\<rparr>
              else s\<lparr>nodes := (nodes s)(ol \<mapsto> ndo\<lparr>share := remove1 i (share ndo)\<rparr>)\<rparr>)"
          have rm: "remove_iterator s ol i = Some (Returns () s')"
            using 2(2) ndo by (simp add: remove_iterator_def s'_def)
          have "registered s'"
          proof (rule registered_hop [OF r Some old nd ndo,
                where q = "it\<lparr>node' := Some n\<rparr>"
                  and nd' = "if ol = n then nd'\<lparr>share := remove1 i (share nd')\<rparr> else nd'"
                  and ndo' = "ndo\<lparr>share := remove1 i (share ndo)\<rparr>"])
            show "iters s' = (iters st)(i \<mapsto> it\<lparr>node' := Some n\<rparr>)"
              using 2(4) by (simp add: s'_def)
            show "node' (it\<lparr>node' := Some n\<rparr>) = Some n" by simp
            show "brk st \<le> brk s'" using 2(5) by (simp add: s'_def)
            show "if ol = n
              then nodes s' = (nodes st)(n \<mapsto> if ol = n then nd'\<lparr>share := remove1 i (share nd')\<rparr> else nd') \<and>
                   share (if ol = n then nd'\<lparr>share := remove1 i (share nd')\<rparr> else nd') =
                     remove1 i (share nd @ [i])
              else nodes s' = (nodes st)(n \<mapsto> if ol = n then nd'\<lparr>share := remove1 i (share nd')\<rparr> else nd',
                     ol \<mapsto> ndo\<lparr>share := remove1 i (share ndo)\<rparr>) \<and>
                   share (if ol = n then nd'\<lparr>share := remove1 i (share nd')\<rparr> else nd') = share nd @ [i] \<and>
                   share (ndo\<lparr>share := remove1 i (share ndo)\<rparr>) = remove1 i (share ndo)"
              using 2(2,3) by (simp add: s'_def)
          qed
          then show ?thesis using Some new 2(1) old rm
            by (simp add: move_to_another_node_def Let_def st1)
        qed
      qed
    qed
  qed
qed

lemma s_iterator_assign_keeps:
  assumes r: "registered st"
  shows "keeps registered (s_iterator_assign st i other)"
proof (cases "i = other \<or> iters st i = None \<or> iters st other = None")
  case True
  then show ?thesis using r by (auto simp: s_iterator_assign_def split: option.splits)
next
  case False
  then obtain it ot where it: "iters st i = Some it" "iters st other = Some ot" "i \<noteq> other" by auto
  have "registered (st\<lparr>iters := (iters st)(i \<mapsto> it\<lparr>container' := container' ot\<rparr>)\<rparr>)"
  proof (rule registered_move [OF r, of i "node' it" _ "node' it"])
    show "\<And>n. node' it = Some n \<Longrightarrow> nodes st n \<noteq> None"
      using registered_live [OF r it(1)] by auto
    show "i < brk (st\<lparr>iters := (iters st)(i \<mapsto> it\<lparr>container' := container' ot\<rparr>)\<rparr>)"
      using registered_iter_brk [OF r it(1)] by simp
    show "\<And>a nd nd'. nodes st a = Some nd \<Longrightarrow>
        nodes (st\<lparr>iters := (iters st)(i \<mapsto> it\<lparr>container' := container' ot\<rparr>)\<rparr>) a = Some nd' \<Longrightarrow>
        distinct (share nd') \<and>
        set (share nd') = set (share nd) - (if node' it = Some a then {i} else {}) \<union>
          (if node' it = Some a then {i} else {})"
      using registered_share [OF r] registered_on [OF r, of _ _ i] it(1) by auto
  qed (use it in simp_all)
  from move_to_another_node_keeps [OF this, of i "node' ot"] show ?thesis
    using it by (simp add: s_iterator_assign_def)
qed

lemma delete_node_keeps:
  assumes r: "registered st"
  shows "keeps registered (delete_node st a)"
proof (cases "nodes st a")
  case None
  then show ?thesis by (simp add: delete_node_def)
next
  case (Some nd)
  have lv: "\<forall>i\<in>set (share nd). iters st i \<noteq> None"
    using registered_share [OF r Some] by auto
  define st' where "st' = st\<lparr>iters :=
       (\<lambda>i. if i \<in> set (share nd) then map_option (\<lambda>it. it\<lparr>node' := None\<rparr>) (iters st i)
            else iters st i),
     nodes := (nodes st)(a := None)\<rparr>"
  have d: "delete_node st a = Some (Returns () st')"
    unfolding st'_def by (rule delete_node_ok [OF Some lv])
  have on: "\<And>i. (i \<in> set (share nd)) = (map_option node' (iters st i) = Some (Some a))"
    using registered_on [OF r Some] .
  have it: "\<And>i q. iters st' i = Some q \<Longrightarrow>
      \<exists>q0. iters st i = Some q0 \<and> (if node' q0 = Some a then node' q = None else q = q0)"
  proof -
    fix i q assume "iters st' i = Some q"
    then show "\<exists>q0. iters st i = Some q0 \<and> (if node' q0 = Some a then node' q = None else q = q0)"
      using on [of i] by (cases "iters st i") (auto simp: st'_def split: if_splits)
  qed
  have it2: "\<And>i q0. iters st i = Some q0 \<Longrightarrow> node' q0 \<noteq> Some a \<Longrightarrow> iters st' i = Some q0"
    using on by (auto simp: st'_def)
  have "registered st'"
    unfolding registered_def
  proof (intro conjI allI impI)
    fix b x assume "nodes st' b = Some x"
    then have x: "nodes st b = Some x" "b \<noteq> a" by (auto simp: st'_def split: if_splits)
    from registered_share [OF r x(1)] show "distinct (share x)" by simp
  next
    fix b x i assume "nodes st' b = Some x"
    then have x: "nodes st b = Some x" "b \<noteq> a" by (auto simp: st'_def split: if_splits)
    note o = registered_share [OF r x(1), THEN conjunct2, rule_format, of i]
    show "(i \<in> set (share x)) = (\<exists>q. iters st' i = Some q \<and> node' q = Some b)"
    proof
      assume "i \<in> set (share x)"
      with o obtain q0 where "iters st i = Some q0" "node' q0 = Some b" by auto
      with it2 [of i q0] x(2) show "\<exists>q. iters st' i = Some q \<and> node' q = Some b" by auto
    next
      assume "\<exists>q. iters st' i = Some q \<and> node' q = Some b"
      then obtain q where q: "iters st' i = Some q" "node' q = Some b" by blast
      from it [OF q(1)] q(2) have "iters st i = Some q" by (auto split: if_splits)
      with o q(2) show "i \<in> set (share x)" by auto
    qed
  next
    fix i q b assume q: "iters st' i = Some q" "node' q = Some b"
    from it [OF q(1)] q(2) have "iters st i = Some q" "b \<noteq> a" by (auto split: if_splits)
    with registered_live [OF r this(1) q(2)] show "nodes st' b \<noteq> None" by (auto simp: st'_def)
  next
    fix b assume "nodes st' b \<noteq> None"
    then obtain x where "nodes st b = Some x" by (auto simp: st'_def split: if_splits)
    from registered_node_brk [OF r this] show "b < brk st'" by (simp add: st'_def)
  next
    fix i assume "iters st' i \<noteq> None"
    then obtain q where "iters st i = Some q" by (auto simp: st'_def split: if_splits)
    from registered_iter_brk [OF r this] show "i < brk st'" by (simp add: st'_def)
  qed
  then show ?thesis using d by simp
qed


lemma get_node_keeps: "P st \<Longrightarrow> keeps P (get_node st p)"
  by (rule reads_keeps [OF get_node_reads])

lemma take_root_keeps: "P st \<Longrightarrow> keeps P (take_root st this)"
  by (rule reads_keeps [OF take_root_reads])

lemma set_size_keeps: "P st \<Longrightarrow> keeps P (set_size st this)"
  by (rule reads_keeps [OF set_size_reads])

lemma set_empty_keeps: "P st \<Longrightarrow> keeps P (set_empty st this)"
  by (rule reads_keeps [OF set_empty_reads])

lemma base_assert_keeps: "P st \<Longrightarrow> keeps P (base_assert st i)"
  by (rule reads_keeps [OF base_assert_reads])

lemma iter_eq_keeps: "P st \<Longrightarrow> keeps P (iter_eq st l r)"
  by (rule reads_keeps [OF iter_eq_reads])

lemma deref_keeps: "P st \<Longrightarrow> keeps P (deref st i)"
  by (rule reads_keeps [OF deref_reads])

lemma reads_Some: "(\<And>y. m = Some y \<Longrightarrow> reads st (Some y)) \<Longrightarrow> reads st m"
  by (cases m) (simp_all add: reads_def)

lemma keeps_Some: "(\<And>y. m = Some y \<Longrightarrow> keeps P (Some y)) \<Longrightarrow> keeps P m"
  by (cases m) (simp_all add: keeps_def)

lemma find_min_reads: "reads st (find_min st c)"
proof (rule reads_Some)
  fix y assume "find_min st c = Some y"
  then show "reads st (Some y)"
    by (rule find_min.raw_induct [where P = "\<lambda>st x0 y. reads st (Some y)", rotated])
      (auto split: option.splits)
qed

lemma find_max_reads: "reads st (find_max st c)"
proof (rule reads_Some)
  fix y assume "find_max st c = Some y"
  then show "reads st (Some y)"
    by (rule find_max.raw_induct [where P = "\<lambda>st x0 y. reads st (Some y)", rotated])
      (auto split: option.splits)
qed

lemma climb_from_right_reads: "reads st (climb_from_right st n p)"
proof (rule reads_Some)
  fix y assume "climb_from_right st n p = Some y"
  then show "reads st (Some y)"
    by (rule climb_from_right.raw_induct [where P = "\<lambda>st x0 x1 y. reads st (Some y)", rotated])
      (auto split: option.splits if_splits)
qed

lemma climb_from_left_reads: "reads st (climb_from_left st n p)"
proof (rule reads_Some)
  fix y assume "climb_from_left st n p = Some y"
  then show "reads st (Some y)"
    by (rule climb_from_left.raw_induct [where P = "\<lambda>st x0 x1 y. reads st (Some y)", rotated])
      (auto split: option.splits if_splits)
qed

lemma find_next_reads: "reads st (find_next st p)"
  by (auto simp: find_next_def climb_from_right_reads split: option.splits
      intro!: reads_bind find_min_reads)

lemma insert_descent_reads: "reads st (insert_descent st v par c)"
proof (rule reads_Some)
  fix y assume "insert_descent st v par c = Some y"
  then show "reads st (Some y)"
    by (rule insert_descent.raw_induct [where P = "\<lambda>st x0 x1 x2 y. reads st (Some y)", rotated])
      (auto simp: get_node_def split: option.splits if_splits)
qed

lemma lower_bound_loop_reads: "reads st (lower_bound_loop st v c r)"
proof (rule reads_Some)
  fix y assume "lower_bound_loop st v c r = Some y"
  then show "reads st (Some y)"
    by (rule lower_bound_loop.raw_induct [where P = "\<lambda>st x0 x1 x2 y. reads st (Some y)", rotated])
      (auto simp: get_node_def split: option.splits if_splits)
qed

lemma upper_bound_loop_reads: "reads st (upper_bound_loop st v c r)"
proof (rule reads_Some)
  fix y assume "upper_bound_loop st v c r = Some y"
  then show "reads st (Some y)"
    by (rule upper_bound_loop.raw_induct [where P = "\<lambda>st x0 x1 x2 y. reads st (Some y)", rotated])
      (auto simp: get_node_def split: option.splits if_splits)
qed

lemma find_min_keeps: "P st \<Longrightarrow> keeps P (find_min st c)"
  by (rule reads_keeps [OF find_min_reads])

lemma find_next_keeps: "P st \<Longrightarrow> keeps P (find_next st c)"
  by (rule reads_keeps [OF find_next_reads])

lemma keeps_scoped:
  assumes "keeps registered m"
  shows "keeps registered (scoped i m)"
proof (cases m)
  case None
  then show ?thesis by (simp add: scoped_def)
next
  case (Some y)
  then show ?thesis using assms
    by (cases y) (auto simp: scoped_def intro!: keeps_bind s_iterator_dtor_keeps)
qed

lemma set_end_keeps: "registered st \<Longrightarrow> keeps registered (set_end st this)"
  unfolding set_end_def by (intro keeps_noexcept s_iterator_ctor_keeps)

lemma set_begin_keeps: "registered st \<Longrightarrow> keeps registered (set_begin st this)"
  unfolding set_begin_def
  by (intro keeps_noexcept keeps_bind set_empty_keeps)
    (auto intro!: keeps_bind set_end_keeps take_root_keeps find_min_keeps s_iterator_ctor_keeps)

lemma increment_keeps: "registered st \<Longrightarrow> keeps registered (increment st i)"
  unfolding increment_def
  by (intro keeps_bind base_assert_keeps)
    (auto split: option.splits intro!: keeps_bind find_next_keeps move_to_another_node_keeps)

lemma decrement_keeps: "registered st \<Longrightarrow> keeps registered (decrement st i)"
  unfolding decrement_def
  by (intro keeps_bind base_assert_keeps)
    (auto split: option.splits
      intro!: keeps_bind get_node_keeps base_assert_keeps move_to_another_node_keeps
        reads_keeps [OF find_max_reads] reads_keeps [OF climb_from_left_reads])

lemma lower_bound_keeps: "registered st \<Longrightarrow> keeps registered (lower_bound st this v)"
  unfolding lower_bound_def
  by (intro keeps_bind set_empty_keeps)
    (auto split: option.splits
      intro!: keeps_bind set_end_keeps take_root_keeps s_iterator_ctor_keeps
        reads_keeps [OF lower_bound_loop_reads])

lemma upper_bound_keeps: "registered st \<Longrightarrow> keeps registered (upper_bound st this v)"
  unfolding upper_bound_def
  by (intro keeps_bind set_empty_keeps)
    (auto split: option.splits
      intro!: keeps_bind set_end_keeps take_root_keeps s_iterator_ctor_keeps
        reads_keeps [OF upper_bound_loop_reads])


lemma del_subtree_keeps:
  assumes "registered st"
  shows "keeps registered (del_subtree st d)"
proof (rule keeps_Some)
  fix y assume "del_subtree st d = Some y"
  then have "registered st \<longrightarrow> keeps registered (Some y)"
  proof (rule del_subtree.raw_induct
      [where P = "\<lambda>st d y. registered st \<longrightarrow> keeps registered (Some y)", rotated])
    fix f :: "'a state \<Rightarrow> addr option \<Rightarrow> (unit, 'a state) outcome option" and st d y
    assume IH: "\<And>st d y. f st d = Some y \<Longrightarrow> registered st \<longrightarrow> keeps registered (Some y)"
      and b: "(case d of
        None \<Rightarrow> Some (Returns () st)
      | Some a \<Rightarrow>
          bind (get_node st (Some a)) (\<lambda>nd st1.
          bind (f st1 (left nd)) (\<lambda>_ st2.
          bind (get_node st2 (Some a)) (\<lambda>nd2 st3.
          bind (f st3 (right nd2)) (\<lambda>_ st4.
          delete_node st4 a))))) = Some y"
    have k: "\<And>st d. registered st \<Longrightarrow> keeps registered (f st d)"
      using IH by (blast intro: keeps_Some)
    show "registered st \<longrightarrow> keeps registered (Some y)"
    proof
      assume r: "registered st"
      have "keeps registered (case d of
        None \<Rightarrow> Some (Returns () st)
      | Some a \<Rightarrow>
          bind (get_node st (Some a)) (\<lambda>nd st1.
          bind (f st1 (left nd)) (\<lambda>_ st2.
          bind (get_node st2 (Some a)) (\<lambda>nd2 st3.
          bind (f st3 (right nd2)) (\<lambda>_ st4.
          delete_node st4 a)))))"
        using r by (auto split: option.splits intro!: keeps_bind get_node_keeps k delete_node_keeps)
      then show "keeps registered (Some y)" unfolding b .
    qed
  qed
  with assms show "keeps registered (Some y)" by simp
qed

lemma clear_keeps: "registered st \<Longrightarrow> keeps registered (clear st this)"
  unfolding clear_def
  by (intro keeps_noexcept keeps_bind set_empty_keeps)
    (auto intro!: keeps_bind take_root_keeps del_subtree_keeps set_left_keeps put_size_keeps)

lemma set_dtor_keeps: "registered st \<Longrightarrow> keeps registered (set_dtor st this)"
proof -
  have s: "\<And>s. registered s \<Longrightarrow> registered (s\<lparr>size' := (size' s)(this := None)\<rparr>)"
    by (rule registered_links) simp_all
  show "registered st \<Longrightarrow> keeps registered (set_dtor st this)"
    unfolding set_dtor_def
    by (intro keeps_noexcept keeps_bind clear_keeps delete_node_keeps) (simp_all add: s)
qed

lemma return_pair_keeps: "registered st \<Longrightarrow> keeps registered (return_pair st p this b)"
  unfolding return_pair_def
  by (intro keeps_bind keeps_scoped s_iterator_ctor_keeps s_iterator_copy_keeps) simp_all

lemma set_insert_keeps:
  assumes "registered st"
  shows "keeps registered (set_insert st this v)"
  unfolding set_insert_def using assms
  by (intro keeps_bind set_empty_keeps)
    (auto split: option.splits prod.splits
      intro!: keeps_bind keeps_catch keeps_scoped new_node_keeps put_root_keeps set_size_keeps
        put_size_keeps set_parent_keeps take_root_keeps return_pair_keeps clear_keeps
        reads_keeps [OF insert_descent_reads] s_iterator_ctor_keeps s_iterator_assign_keeps
        get_node_keeps set_left_keeps set_right_keeps s_iterator_copy_keeps)

lemma insert_all_keeps: "registered st \<Longrightarrow> keeps registered (insert_all st this vs)"
proof (induction vs arbitrary: st)
  case Nil
  then show ?case by simp
next
  case (Cons v vs)
  show ?case
    unfolding insert_all.simps using Cons.prems
    by (intro keeps_bind set_insert_keeps)
      (auto split: prod.splits intro!: keeps_bind s_iterator_dtor_keeps Cons.IH)
qed

lemma relink_parent_keeps: "registered st \<Longrightarrow> keeps registered (relink_parent st m)"
  unfolding relink_parent_def
  by (intro keeps_bind get_node_keeps) (auto split: option.splits intro!: set_parent_keeps)

lemma merge_keeps: "registered st \<Longrightarrow> keeps registered (merge st l r)"
  unfolding merge_def Let_def
  by (auto intro!: keeps_bind find_min_keeps get_node_keeps set_left_keeps set_right_keeps
      set_parent_keeps relink_parent_keeps)

lemma erase_keeps: "registered st \<Longrightarrow> keeps registered (erase st this pos)"
  unfolding erase_def Let_def
  by (auto split: option.splits
      intro!: keeps_bind set_empty_keeps set_end_keeps find_next_keeps get_node_keeps merge_keeps
        set_left_keeps set_right_keeps set_parent_keeps take_root_keeps put_root_keeps
        delete_node_keeps set_size_keeps put_size_keeps s_iterator_ctor_keeps)

lemma set_swap_keeps: "registered st \<Longrightarrow> keeps registered (set_swap st a b)"
  unfolding set_swap_def
  by (intro keeps_noexcept)
    (auto split: option.splits
      intro!: keeps_bind take_root_keeps swap_sentinel_keeps set_size_keeps put_size_keeps
        set_parent_keeps)

lemma registered_initial: "registered initial"
  by (simp add: registered_def initial_def)


lemma copy_tree_keeps:
  assumes "registered st"
  shows "keeps registered (copy_tree st d)"
proof (rule keeps_Some)
  fix y assume "copy_tree st d = Some y"
  then have "registered st \<longrightarrow> keeps registered (Some y)"
  proof (rule copy_tree.raw_induct
      [where P = "\<lambda>st d y. registered st \<longrightarrow> keeps registered (Some y)", rotated])
    fix f :: "'a state \<Rightarrow> addr option \<Rightarrow> (addr option, 'a state) outcome option" and st d y
    assume IH: "\<And>st d y. f st d = Some y \<Longrightarrow> registered st \<longrightarrow> keeps registered (Some y)"
      and b: "(case d of
        None \<Rightarrow> Some (Returns None st)
      | Some a \<Rightarrow>
          bind (get_node st (Some a)) (\<lambda>orig st0.
            case value' orig of
              None \<Rightarrow> Some (Aborts Undefined)
            | Some v \<Rightarrow>
                bind (new_node st0 None v) (\<lambda>n st1.
                  catch_rethrow
                    (bind (get_node st1 (Some a)) (\<lambda>o1 st2.
                     bind (case left o1 of
                             None \<Rightarrow> Some (Returns () st2)
                           | Some l \<Rightarrow>
                               bind (f st2 (Some l)) (\<lambda>c st3.
                               bind (set_left st3 (Some n) c) (\<lambda>_ st4.
                               bind (get_node st4 (Some n)) (\<lambda>nn st5.
                               set_parent st5 (left nn) (Some n))))) (\<lambda>_ st6.
                     bind (get_node st6 (Some a)) (\<lambda>o2 st7.
                     bind (case right o2 of
                             None \<Rightarrow> Some (Returns () st7)
                           | Some r \<Rightarrow>
                               bind (f st7 (Some r)) (\<lambda>c st8.
                               bind (set_right st8 (Some n) c) (\<lambda>_ st9.
                               bind (get_node st9 (Some n)) (\<lambda>nn st10.
                               set_parent st10 (right nn) (Some n))))) (\<lambda>_ st11.
                     Some (Returns (Some n) st11))))))
                    (\<lambda>s. del_subtree s (Some n))))) = Some y"
    have k: "\<And>st d. registered st \<Longrightarrow> keeps registered (f st d)"
      using IH by (blast intro: keeps_Some)
    show "registered st \<longrightarrow> keeps registered (Some y)"
    proof
      assume r: "registered st"
      show "keeps registered (Some y)"
        unfolding b [symmetric] using r
        by (auto split: option.splits
            intro!: keeps_bind keeps_catch get_node_keeps new_node_keeps k set_left_keeps
              set_right_keeps set_parent_keeps del_subtree_keeps)
    qed
  qed
  with assms show "keeps registered (Some y)" by simp
qed

lemma set_copy_ctor_keeps: "registered st \<Longrightarrow> keeps registered (set_copy_ctor st other)"
  unfolding set_copy_ctor_def
  by (intro keeps_bind set_size_keeps)
    (auto intro!: keeps_bind keeps_catch set_ctor_keeps set_empty_keeps take_root_keeps
      copy_tree_keeps put_root_keeps set_parent_keeps put_size_keeps set_dtor_keeps)


lemma point_iterators_ok:
  "\<forall>i\<in>set js. m i \<noteq> None \<Longrightarrow>
   point_iterators js n m =
     Some (\<lambda>i. if i \<in> set js then map_option (\<lambda>it. it\<lparr>node' := Some n\<rparr>) (m i) else m i)"
proof (induction js arbitrary: m)
  case Nil
  then show ?case by simp
next
  case (Cons j js)
  from Cons.prems obtain it where it: "m j = Some it" by auto
  have "\<forall>i\<in>set js. (m(j \<mapsto> it\<lparr>node' := Some n\<rparr>)) i \<noteq> None"
    using Cons.prems by simp
  from Cons.IH [OF this]
  have "point_iterators js n (m(j \<mapsto> it\<lparr>node' := Some n\<rparr>)) =
     Some (\<lambda>i. if i \<in> set js
        then map_option (\<lambda>it. it\<lparr>node' := Some n\<rparr>) ((m(j \<mapsto> it\<lparr>node' := Some n\<rparr>)) i)
        else (m(j \<mapsto> it\<lparr>node' := Some n\<rparr>)) i)" .
  moreover have "(\<lambda>i. if i \<in> set js
        then map_option (\<lambda>it. it\<lparr>node' := Some n\<rparr>) ((m(j \<mapsto> it\<lparr>node' := Some n\<rparr>)) i)
        else (m(j \<mapsto> it\<lparr>node' := Some n\<rparr>)) i) =
     (\<lambda>i. if i \<in> set (j # js) then map_option (\<lambda>it. it\<lparr>node' := Some n\<rparr>) (m i) else m i)"
    using it by (auto simp: fun_eq_iff)
  moreover have "point_iterators (j # js) n m = point_iterators js n (m(j \<mapsto> it\<lparr>node' := Some n\<rparr>))"
    using it by simp
  ultimately show ?case by simp
qed

lemma registered_same:
  assumes r: "registered st" and n: "nodes st' = nodes st" and b: "brk st \<le> brk st'"
    and i: "\<And>i. map_option node' (iters st' i) = map_option node' (iters st i)"
  shows "registered st'"
proof -
  have e: "\<And>i a. (\<exists>q. iters st' i = Some q \<and> node' q = Some a) =
      (\<exists>q. iters st i = Some q \<and> node' q = Some a)"
  proof -
    fix j a
    show "(\<exists>q. iters st' j = Some q \<and> node' q = Some a) =
      (\<exists>q. iters st j = Some q \<and> node' q = Some a)"
      using i [of j] by (cases "iters st j"; cases "iters st' j") auto
  qed
  have d: "\<And>i. (iters st' i \<noteq> None) = (iters st i \<noteq> None)"
  proof -
    fix j show "(iters st' j \<noteq> None) = (iters st j \<noteq> None)"
      using i [of j] by (cases "iters st j"; cases "iters st' j") auto
  qed
  have 1: "\<forall>a nd. nodes st' a = Some nd \<longrightarrow>
             distinct (share nd) \<and>
             (\<forall>i. (i \<in> set (share nd)) = (\<exists>q. iters st' i = Some q \<and> node' q = Some a))"
    using r unfolding registered_def n e by blast
  have 2: "\<forall>i q a. iters st' i = Some q \<longrightarrow> node' q = Some a \<longrightarrow> nodes st' a \<noteq> None"
  proof (intro allI impI)
    fix j q a assume "iters st' j = Some q" "node' q = Some a"
    then have "\<exists>q. iters st' j = Some q \<and> node' q = Some a" by blast
    then obtain q0 where "iters st j = Some q0" "node' q0 = Some a" unfolding e by blast
    from registered_live [OF r this] show "nodes st' a \<noteq> None" unfolding n by simp
  qed
  have 3: "\<forall>a. nodes st' a \<noteq> None \<longrightarrow> a < brk st'"
    using r b unfolding registered_def n by (meson less_le_trans)
  have 4: "\<forall>i. iters st' i \<noteq> None \<longrightarrow> i < brk st'"
    using r b unfolding registered_def d by (meson less_le_trans)
  show ?thesis unfolding registered_def using 1 2 3 4 by blast
qed

lemma s_iterator_swap_keeps:
  assumes r: "registered st"
  shows "keeps registered (s_iterator_swap st l r')"
proof (cases "\<exists>li ri ln rn lnd rnd. iters st l = Some li \<and> iters st r' = Some ri \<and>
    node' li = Some ln \<and> node' ri = Some rn \<and> nodes st ln = Some lnd \<and> nodes st rn = Some rnd")
  case False
  then show ?thesis
    by (auto simp: s_iterator_swap_def Let_def split: option.splits)
next
  case True
  then obtain li ri ln rn lnd rnd where h: "iters st l = Some li" "iters st r' = Some ri"
    "node' li = Some ln" "node' ri = Some rn" "nodes st ln = Some lnd" "nodes st rn = Some rnd"
    by blast
  define m1 where "m1 = ((iters st)(l \<mapsto> li\<lparr>node' := node' ri, container' := container' ri\<rparr>))
      (r' \<mapsto> ri\<lparr>node' := node' li, container' := container' li\<rparr>)"
  define m2 where "m2 = (\<lambda>i. if i \<in> set (share lnd)
      then map_option (\<lambda>it. it\<lparr>node' := Some ln\<rparr>) (m1 i) else m1 i)"
  define m3 where "m3 = (\<lambda>i. if i \<in> set (share rnd)
      then map_option (\<lambda>it. it\<lparr>node' := Some rn\<rparr>) (m2 i) else m2 i)"
  note onl = registered_on [OF r h(5)]
  note onr = registered_on [OF r h(6)]
  have d1: "\<And>i. (m1 i = None) = (iters st i = None)" using h by (simp add: m1_def)
  have l1: "\<forall>i\<in>set (share lnd). m1 i \<noteq> None"
    using onl d1 by auto
  have d2: "\<And>i. (m2 i = None) = (iters st i = None)" using d1 by (simp add: m2_def)
  have l2: "\<forall>i\<in>set (share rnd). m2 i \<noteq> None"
    using onr d2 by auto
  have p1: "point_iterators (share lnd) ln m1 = Some m2"
    unfolding m2_def by (rule point_iterators_ok [OF l1])
  have p2: "point_iterators (share rnd) rn m2 = Some m3"
    unfolding m3_def by (rule point_iterators_ok [OF l2])
  have s: "s_iterator_swap st l r' = Some (Returns () (st\<lparr>iters := m3\<rparr>))"
    using h p1 p2 unfolding m1_def by (simp add: s_iterator_swap_def Let_def)
  have "\<And>i. map_option node' (m3 i) = map_option node' (iters st i)"
  proof -
    fix i
    have il: "l \<in> set (share lnd)" using onl [of l] h by simp
    have ir: "r' \<in> set (share rnd)" using onr [of r'] h by simp
    show "map_option node' (m3 i) = map_option node' (iters st i)"
    proof (cases "i \<in> set (share rnd)")
      case True
      then have "map_option node' (iters st i) = Some (Some rn)" using onr by simp
      moreover have "map_option node' (m3 i) = Some (Some rn)"
        using True d2 [of i] calculation by (cases "m2 i") (auto simp: m3_def)
      ultimately show ?thesis by (simp only:)
    next
      case nr: False
      show ?thesis
      proof (cases "i \<in> set (share lnd)")
        case True
        then have "map_option node' (iters st i) = Some (Some ln)" using onl by simp
        moreover have "map_option node' (m3 i) = Some (Some ln)"
          using True nr d1 [of i] calculation by (cases "m1 i") (auto simp: m3_def m2_def)
        ultimately show ?thesis by (simp only:)
      next
        case False
        then have "i \<noteq> l" "i \<noteq> r'" using il ir nr by auto
        then show ?thesis using False nr by (simp add: m3_def m2_def m1_def)
      qed
    qed
  qed
  then have "registered (st\<lparr>iters := m3\<rparr>)"
    by (intro registered_same [OF r]) simp_all
  then show ?thesis using s by simp
qed

lemma left_by_keeps: "keeps P m \<Longrightarrow> left_by m s \<Longrightarrow> P s"
  by (auto simp: keeps_def left_by_def split: option.splits outcome.splits)

lemma built_registered: "built st \<Longrightarrow> registered st"
proof (induction rule: built.induct)
  case (heap sched)
  show ?case by (simp add: registered_def)
next
  case (constructed st st')
  then show ?case using left_by_keeps [OF set_default_ctor_keeps] by blast
next
  case (copied st other st')
  then show ?case using left_by_keeps [OF set_copy_ctor_keeps] by blast
next
  case (destroyed st this st')
  then show ?case using left_by_keeps [OF set_dtor_keeps] by blast
next
  case (cleared st this st')
  then show ?case using left_by_keeps [OF clear_keeps] by blast
next
  case (inserted st this v st')
  then show ?case using left_by_keeps [OF set_insert_keeps] by blast
next
  case (erased st this pos st')
  then show ?case using left_by_keeps [OF erase_keeps] by blast
next
  case (swapped st lhs rhs st')
  then show ?case using left_by_keeps [OF set_swap_keeps] by blast
next
  case (begun st this st')
  then show ?case using left_by_keeps [OF set_begin_keeps] by blast
next
  case (ended st this st')
  then show ?case using left_by_keeps [OF set_end_keeps] by blast
next
  case (lower st this v st')
  then show ?case using left_by_keeps [OF lower_bound_keeps] by blast
next
  case (upper st this v st')
  then show ?case using left_by_keeps [OF upper_bound_keeps] by blast
next
  case (made st p c st')
  then show ?case using left_by_keeps [OF s_iterator_ctor_keeps] by blast
next
  case (iterator_copied st i st')
  then show ?case using left_by_keeps [OF s_iterator_copy_keeps] by blast
next
  case (iterator_destroyed st i st')
  then show ?case using left_by_keeps [OF s_iterator_dtor_keeps] by blast
next
  case (assigned st i other st')
  then show ?case using left_by_keeps [OF s_iterator_assign_keeps] by blast
next
  case (incremented st i st')
  then show ?case using left_by_keeps [OF increment_keeps] by blast
next
  case (decremented st i st')
  then show ?case using left_by_keeps [OF decrement_keeps] by blast
next
  case (iterators_swapped st l r st')
  then show ?case using left_by_keeps [OF s_iterator_swap_keeps] by blast
qed

lemma keeps_left_by: "(\<And>s. left_by m s \<Longrightarrow> P s) \<Longrightarrow> keeps P m"
  by (auto simp: keeps_def left_by_def split: option.splits outcome.splits)

lemma built_insert_all: "built st \<Longrightarrow> keeps built (insert_all st this vs)"
proof (induction vs arbitrary: st)
  case Nil
  then show ?case by simp
next
  case (Cons v vs)
  show ?case
    unfolding insert_all.simps
  proof (intro keeps_bind)
    show "keeps built (set_insert st this v)"
      using Cons.prems by (blast intro: keeps_left_by built.inserted)
  next
    fix r and s :: "'a state" assume s: "built s"
    show "keeps built
      ((\<lambda>(i, b) st1. bind (s_iterator_dtor st1 i) (\<lambda>_ st2. insert_all st2 this vs)) r s)"
      using s
      by (auto split: prod.splits
          intro!: keeps_bind Cons.IH intro: keeps_left_by built.iterator_destroyed)
  qed
qed

section \<open>\<open>merge\<close> and \<open>erase\<close>\<close>

lemma subtree_addrs: "set (addrs (subtree a t)) \<subseteq> set (addrs t)"
  by (induction t) auto

lemma subtree_distinct: "distinct (addrs t) \<Longrightarrow> distinct (addrs (subtree a t))"
  by (induction t) auto

lemma subtree_root: "a \<in> set (addrs t) \<Longrightarrow> root (subtree a t) = Some a"
  by (induction t) auto

lemma subtree_Fork:
  "a \<in> set (addrs t) \<Longrightarrow> \<exists>l v r. subtree a t = Fork l a v r"
  using subtree_root [of a t] by (cases "subtree a t") auto

lemma subtree_inorder:
  "subtree a t = Fork l a v r \<Longrightarrow> (a, v) \<in> set (inorder t)"
  by (induction t) (auto split: if_splits)

lemma parent_in_root: "root t = Some a \<Longrightarrow> parent_in a t par = par"
  by (cases t) auto

lemma parent_in_inside:
  "a \<in> set (addrs t) \<Longrightarrow> distinct (addrs t) \<Longrightarrow> root t \<noteq> Some a \<Longrightarrow>
   \<exists>c. parent_in a t par = Some c \<and> c \<in> set (addrs t) \<and> c \<notin> set (addrs (subtree a t))"
proof (induction t arbitrary: par)
  case Tip
  then show ?case by simp
next
  case (Fork l b v r)
  from Fork.prems have ab: "a \<noteq> b" by simp
  have sl: "set (addrs (subtree a l)) \<subseteq> set (addrs l)" by (rule subtree_addrs)
  have sr: "set (addrs (subtree a r)) \<subseteq> set (addrs r)" by (rule subtree_addrs)
  show ?case
  proof (cases "a \<in> set (addrs l)")
    case True
    show ?thesis
    proof (cases "root l = Some a")
      case r: True
      then have "parent_in a l (Some b) = Some b" by (rule parent_in_root)
      then show ?thesis using True ab sl Fork.prems(2) by auto
    next
      case False
      from Fork.IH(1) [OF True _ False, of "Some b"] Fork.prems(2)
      obtain c where "parent_in a l (Some b) = Some c" "c \<in> set (addrs l)"
        "c \<notin> set (addrs (subtree a l))" by auto
      then show ?thesis using True ab by auto
    qed
  next
    case False
    then have ar: "a \<in> set (addrs r)" using Fork.prems(1) ab by simp
    show ?thesis
    proof (cases "root r = Some a")
      case r: True
      then have "parent_in a r (Some b) = Some b" by (rule parent_in_root)
      then show ?thesis using False ab sr Fork.prems(2) by auto
    next
      case nr: False
      from Fork.IH(2) [OF ar _ nr, of "Some b"] Fork.prems(2)
      obtain c where "parent_in a r (Some b) = Some c" "c \<in> set (addrs r)"
        "c \<notin> set (addrs (subtree a r))" by auto
      then show ?thesis using False ab by auto
    qed
  qed
qed

lemma inorder_Nil: "(inorder t = []) = (t = Tip)"
  by (cases t) simp_all

lemma del_min_inorder: "inorder (del_min t) = tl (inorder t)"
  by (induction t) (simp_all add: inorder_Nil)

lemma addrs_Nil: "(addrs t = []) = (t = Tip)"
  by (cases t) simp_all

lemma merge_shape_inorder: "inorder (merge_shape l r) = inorder l @ inorder r"
proof -
  have "r \<noteq> Tip \<Longrightarrow> hd (inorder r) # tl (inorder r) = inorder r"
    by (simp add: inorder_Nil)
  then show ?thesis
    by (auto simp: merge_shape_def del_min_inorder split: prod.splits)
qed

lemma delete_at_inorder:
  "distinct (addrs t) \<Longrightarrow> inorder (delete_at a t) = filter (\<lambda>p. fst p \<noteq> a) (inorder t)"
proof (induction t)
  case Tip
  show ?case by simp
next
  case (Fork l b v r)
  have keep: "\<And>s :: 'a shape. a \<notin> set (addrs s) \<Longrightarrow>
      filter (\<lambda>p. fst p \<noteq> a) (inorder s) = inorder s"
  proof -
    fix s :: "'a shape" assume "a \<notin> set (addrs s)"
    then have "\<forall>p\<in>set (inorder s). fst p \<noteq> a"
      using in_inorder_addr [of _ _ s] by auto
    then show "filter (\<lambda>p. fst p \<noteq> a) (inorder s) = inorder s" by simp
  qed
  show ?case
  proof (cases "a = b")
    case True
    then have "a \<notin> set (addrs l)" "a \<notin> set (addrs r)" using Fork.prems by auto
    then show ?thesis using True keep by (simp add: merge_shape_inorder)
  next
    case False
    show ?thesis
    proof (cases "a \<in> set (addrs l)")
      case True
      then have "a \<notin> set (addrs r)" using Fork.prems by auto
      then show ?thesis using False True Fork keep by simp
    next
      case nl: False
      then show ?thesis using False Fork keep by simp
    qed
  qed
qed

lemma delete_at_addrs:
  "distinct (addrs t) \<Longrightarrow> addrs (delete_at a t) = filter (\<lambda>b. b \<noteq> a) (addrs t)"
  using delete_at_inorder [of t a] addrs_inorder [of t] addrs_inorder [of "delete_at a t"]
  by (metis (mono_tags, lifting) comp_apply filter_cong filter_map)

lemma delete_at_graft:
  "subtree a t = Fork l a v r \<Longrightarrow> delete_at a t = graft a (merge_shape l r) t"
  by (induction t) (auto split: if_splits)

text \<open>The leftmost node has no left subtree; taking it out is a graft of its right subtree.\<close>

lemma del_min_graft:
  "t \<noteq> Tip \<Longrightarrow> distinct (addrs t) \<Longrightarrow>
   \<exists>x mr. subtree (hd (addrs t)) t = Fork Tip (hd (addrs t)) x mr \<and>
          hd (inorder t) = (hd (addrs t), x) \<and>
          del_min t = graft (hd (addrs t)) mr t"
proof (induction t)
  case Tip
  then show ?case by simp
next
  case (Fork l b v r)
  show ?case
  proof (cases "l = Tip")
    case True
    then show ?thesis by simp
  next
    case False
    then have ne: "addrs l \<noteq> []" "inorder l \<noteq> []" by (simp_all add: addrs_Nil inorder_Nil)
    then have h: "hd (addrs (Fork l b v r)) = hd (addrs l)" "hd (inorder (Fork l b v r)) = hd (inorder l)"
      by simp_all
    have m: "hd (addrs l) \<in> set (addrs l)" using ne by simp
    then have mb: "hd (addrs l) \<noteq> b" using Fork.prems(2) by auto
    from Fork.IH(1) [OF False] Fork.prems(2) obtain x mr where
      "subtree (hd (addrs l)) l = Fork Tip (hd (addrs l)) x mr"
      "hd (inorder l) = (hd (addrs l), x)" "del_min l = graft (hd (addrs l)) mr l"
      by auto
    then show ?thesis unfolding h using m mb False by simp
  qed
qed


lemma tree_at_Fork_lnk:
  "tree_at h (Fork l b v r) par \<longleftrightarrow>
     map_option lnk (h b) = Some (root l, root r, par, Some v) \<and>
     tree_at h l (Some b) \<and> tree_at h r (Some b)"
  by (auto simp: lnk_def split: option.splits)

lemma parent_in_range:
  "a \<in> set (addrs t) \<Longrightarrow> parent_in a t par = par \<or> (\<exists>c\<in>set (addrs t). parent_in a t par = Some c)"
proof (induction t arbitrary: par)
  case Tip
  then show ?case by simp
next
  case (Fork l b v r)
  show ?case
  proof (cases "a = b")
    case True
    then show ?thesis by simp
  next
    case False
    show ?thesis
    proof (cases "a \<in> set (addrs l)")
      case True
      from Fork.IH(1) [OF True, of "Some b"] show ?thesis using False True by auto
    next
      case nl: False
      then have "a \<in> set (addrs r)" using Fork.prems False by simp
      from Fork.IH(2) [OF this, of "Some b"] show ?thesis using False nl by auto
    qed
  qed
qed

lemma graft_root: "root t \<noteq> Some a \<Longrightarrow> root (graft a s t) = root t"
  by (cases t) auto

lemma graft_at_root: "root t = Some a \<Longrightarrow> graft a s t = s"
  by (cases t) auto

lemma subtree_at:
  "tree_at h t par \<Longrightarrow> a \<in> set (addrs t) \<Longrightarrow> tree_at h (subtree a t) (parent_in a t par)"
proof (induction t arbitrary: par)
  case Tip
  then show ?case by simp
next
  case (Fork l b v r)
  from Fork.prems(1) [unfolded tree_at_Fork_lnk]
  have t: "tree_at h l (Some b)" "tree_at h r (Some b)"
    by simp_all
  show ?case
  proof (cases "a = b")
    case True
    then show ?thesis using Fork.prems(1) by simp
  next
    case False
    show ?thesis
    proof (cases "a \<in> set (addrs l)")
      case True
      from Fork.IH(1) [OF t(1) True] show ?thesis using False True by simp
    next
      case nl: False
      then have "a \<in> set (addrs r)" using Fork.prems(2) False by simp
      from Fork.IH(2) [OF t(2) this] show ?thesis using False nl by simp
    qed
  qed
qed

text \<open>The parent of a node that is not the root of \<open>t\<close> points at it, left or right.\<close>

lemma parent_slot:
  "tree_at h t par \<Longrightarrow> a \<in> set (addrs t) \<Longrightarrow> root t \<noteq> Some a \<Longrightarrow>
   \<exists>c x y p w. parent_in a t par = Some c \<and> map_option lnk (h c) = Some (x, y, p, w) \<and>
      (x = Some a \<or> y = Some a)"
proof (induction t arbitrary: par)
  case Tip
  then show ?case by simp
next
  case (Fork l b v r)
  from Fork.prems(1) [unfolded tree_at_Fork_lnk]
  have t: "tree_at h l (Some b)" "tree_at h r (Some b)"
    "map_option lnk (h b) = Some (root l, root r, par, Some v)"
    by simp_all
  from Fork.prems(3) have ab: "a \<noteq> b" by simp
  show ?case
  proof (cases "a \<in> set (addrs l)")
    case True
    show ?thesis
    proof (cases "root l = Some a")
      case r: True
      then have "parent_in a l (Some b) = Some b" by (rule parent_in_root)
      then have "parent_in a (Fork l b v r) par = Some b" using True ab by simp
      moreover have "map_option lnk (h b) = Some (Some a, root r, par, Some v)"
        using t(3) r by simp
      ultimately show ?thesis by blast
    next
      case False
      from Fork.IH(1) [OF t(1) True False] show ?thesis using True ab by simp
    qed
  next
    case False
    then have ar: "a \<in> set (addrs r)" using Fork.prems(2) ab by simp
    show ?thesis
    proof (cases "root r = Some a")
      case r: True
      then have "parent_in a r (Some b) = Some b" by (rule parent_in_root)
      then have "parent_in a (Fork l b v r) par = Some b" using False ab by simp
      moreover have "map_option lnk (h b) = Some (root l, Some a, par, Some v)"
        using t(3) r by simp
      ultimately show ?thesis by blast
    next
      case nr: False
      from Fork.IH(2) [OF t(2) ar nr] show ?thesis using False ab by simp
    qed
  qed
qed

text \<open>
  The heap after a graft at \<open>a\<close>: the new subtree hangs below the parent of \<open>a\<close>, the
  slot of that parent which held \<open>a\<close> holds the new root, and the other nodes outside
  the old subtree have kept their links.
\<close>

lemma tree_at_graft:
  assumes "tree_at h t par" and "distinct (addrs t)" and "a \<in> set (addrs t)"
    and "tree_at h' s (parent_in a t par)"
    and "\<And>b. b \<in> set (addrs t) \<Longrightarrow> b \<notin> set (addrs (subtree a t)) \<Longrightarrow>
          map_option lnk (h' b) =
            (if parent_in a t par = Some b then map_option (slot a (root s)) (map_option lnk (h b))
             else map_option lnk (h b))"
  shows "tree_at h' (graft a s t) par"
  using assms
proof (induction t arbitrary: par)
  case Tip
  then show ?case by simp
next
  case (Fork l b v r)
  from Fork.prems(1) [unfolded tree_at_Fork_lnk]
  have t: "tree_at h l (Some b)" "tree_at h r (Some b)"
    "map_option lnk (h b) = Some (root l, root r, par, Some v)"
    by simp_all
  have d: "distinct (addrs l)" "distinct (addrs r)" "b \<notin> set (addrs l)" "b \<notin> set (addrs r)"
    "set (addrs l) \<inter> set (addrs r) = {}"
    using Fork.prems(2) by auto
  show ?case
  proof (cases "a = b")
    case True
    then show ?thesis using Fork.prems(4) by simp
  next
    case False
    show ?thesis
    proof (cases "a \<in> set (addrs l)")
      case True
      then have anr: "a \<notin> set (addrs r)" using d(5) by auto
      have e: "subtree a (Fork l b v r) = subtree a l"
        "parent_in a (Fork l b v r) par = parent_in a l (Some b)"
        "graft a s (Fork l b v r) = Fork (graft a s l) b v r"
        using False True by simp_all
      have sl: "set (addrs (subtree a l)) \<subseteq> set (addrs l)" by (rule subtree_addrs)
      note frame = Fork.prems(5) [unfolded e]
      have pr: "parent_in a l (Some b) = Some b \<or> (\<exists>c\<in>set (addrs l). parent_in a l (Some b) = Some c)"
        using parent_in_range [OF True] .
      have pb: "(parent_in a l (Some b) = Some b) = (root l = Some a)"
      proof
        assume p: "parent_in a l (Some b) = Some b"
        show "root l = Some a"
        proof (rule ccontr)
          assume "root l \<noteq> Some a"
          from parent_in_inside [OF True d(1) this, of "Some b"] p d(3) show False by auto
        qed
      next
        assume "root l = Some a"
        then show "parent_in a l (Some b) = Some b" by (rule parent_in_root)
      qed
      have r': "tree_at h' r (Some b)"
      proof -
        have "tree_at h' r (Some b) = tree_at h r (Some b)"
        proof (rule tree_at_lnk)
          fix c assume c: "c \<in> set (addrs r)"
          then have "c \<notin> set (addrs (subtree a l))" "parent_in a l (Some b) \<noteq> Some c"
            using sl d(4,5) pr by auto
          then show "map_option lnk (h' c) = map_option lnk (h c)"
            using frame [of c] c by simp
        qed
        then show ?thesis using t(2) by simp
      qed
      have l': "tree_at h' (graft a s l) (Some b)"
      proof (rule Fork.IH(1) [OF t(1) d(1) True])
        show "tree_at h' s (parent_in a l (Some b))" using Fork.prems(4) e by simp
      next
        fix c assume "c \<in> set (addrs l)" "c \<notin> set (addrs (subtree a l))"
        then show "map_option lnk (h' c) =
            (if parent_in a l (Some b) = Some c then map_option (slot a (root s)) (map_option lnk (h c))
             else map_option lnk (h c))"
          using frame [of c] by simp
      qed
      have rt: "root (graft a s l) = (if root l = Some a then root s else root l)"
        using graft_root [of l a s] graft_at_root [of l a s] by auto
      have "b \<notin> set (addrs (subtree a l))" using sl d(3) by auto
      from frame [OF _ this] have "map_option lnk (h' b) =
          Some (root (graft a s l), root r, par, Some v)"
        using t(3) pb rt by (auto simp: slot_def)
      then show ?thesis unfolding e tree_at_Fork_lnk using l' r' by simp
    next
      case nl: False
      then have ar: "a \<in> set (addrs r)" using Fork.prems(3) False by simp
      have e: "subtree a (Fork l b v r) = subtree a r"
        "parent_in a (Fork l b v r) par = parent_in a r (Some b)"
        "graft a s (Fork l b v r) = Fork l b v (graft a s r)"
        using False nl by simp_all
      have sr: "set (addrs (subtree a r)) \<subseteq> set (addrs r)" by (rule subtree_addrs)
      note frame = Fork.prems(5) [unfolded e]
      have pr: "parent_in a r (Some b) = Some b \<or> (\<exists>c\<in>set (addrs r). parent_in a r (Some b) = Some c)"
        using parent_in_range [OF ar] .
      have pb: "(parent_in a r (Some b) = Some b) = (root r = Some a)"
      proof
        assume p: "parent_in a r (Some b) = Some b"
        show "root r = Some a"
        proof (rule ccontr)
          assume "root r \<noteq> Some a"
          from parent_in_inside [OF ar d(2) this, of "Some b"] p d(4) show False by auto
        qed
      next
        assume "root r = Some a"
        then show "parent_in a r (Some b) = Some b" by (rule parent_in_root)
      qed
      have l': "tree_at h' l (Some b)"
      proof -
        have "tree_at h' l (Some b) = tree_at h l (Some b)"
        proof (rule tree_at_lnk)
          fix c assume c: "c \<in> set (addrs l)"
          then have "c \<notin> set (addrs (subtree a r))" "parent_in a r (Some b) \<noteq> Some c"
            using sr d(3,5) pr by auto
          then show "map_option lnk (h' c) = map_option lnk (h c)"
            using frame [of c] c by simp
        qed
        then show ?thesis using t(1) by simp
      qed
      have r': "tree_at h' (graft a s r) (Some b)"
      proof (rule Fork.IH(2) [OF t(2) d(2) ar])
        show "tree_at h' s (parent_in a r (Some b))" using Fork.prems(4) e by simp
      next
        fix c assume "c \<in> set (addrs r)" "c \<notin> set (addrs (subtree a r))"
        then show "map_option lnk (h' c) =
            (if parent_in a r (Some b) = Some c then map_option (slot a (root s)) (map_option lnk (h c))
             else map_option lnk (h c))"
          using frame [of c] by simp
      qed
      have rt: "root (graft a s r) = (if root r = Some a then root s else root r)"
        using graft_root [of r a s] graft_at_root [of r a s] by auto
      have rl: "root l \<noteq> Some a" using nl root_in_addrs [of l a] by auto
      have "b \<notin> set (addrs (subtree a r))" using sr d(4) by auto
      from frame [OF _ this] have "map_option lnk (h' b) =
          Some (root l, root (graft a s r), par, Some v)"
        using t(3) pb rt rl by (auto simp: slot_def)
      then show ?thesis unfolding e tree_at_Fork_lnk using l' r' by simp
    qed
  qed
qed


lemma rp_live: "(rp h p q a = None) = (h a = None)"
  by (auto simp: rp_def split: option.splits)

lemma rp_outside: "p \<noteq> Some a \<Longrightarrow> rp h p q a = h a"
  by (auto simp: rp_def split: option.splits)

lemma rp_repar:
  "map_option lnk (rp h p q a) =
     (if p = Some a then map_option (repar q) (map_option lnk (h a)) else map_option lnk (h a))"
  using rp_lnk [of h p q a] by (cases "h a") (auto simp: repar_def lnk_def)

lemma tree_at_repar:
  assumes "tree_at h t par" and "distinct (addrs t)"
    and "\<And>a. a \<in> set (addrs t) \<Longrightarrow> root t \<noteq> Some a \<Longrightarrow> map_option lnk (h' a) = map_option lnk (h a)"
    and "\<And>a. root t = Some a \<Longrightarrow> map_option lnk (h' a) = map_option (repar par') (map_option lnk (h a))"
  shows "tree_at h' t par'"
proof (rule tree_at_reparent [OF assms(1,2)])
  fix a assume "a \<in> set (addrs t)" "root t \<noteq> Some a"
  then show "map_option lnk (h' a) = map_option lnk (h a)" by (rule assms(3))
next
  fix a nd assume "root t = Some a" "h a = Some nd"
  then show "map_option lnk (h' a) = Some (left nd, right nd, par', value' nd)"
    using assms(4) [of a] by (simp add: repar_def lnk_def)
qed

lemma set_parent_live:
  "nodes s x = Some nd \<Longrightarrow>
   set_parent s (Some x) q = Some (Returns () (s\<lparr>nodes := rp (nodes s) (Some x) q\<rparr>))"
  by (simp add: set_parent_def rp_def)

lemma relink_parent_rp:
  assumes "nodes s m = Some mn"
    and "right mn = None \<or> (\<exists>x nd. right mn = Some x \<and> nodes s x = Some nd)"
  shows "relink_parent s (Some m) =
     Some (Returns () (s\<lparr>nodes := rp (nodes s) (right mn) (parent mn)\<rparr>))"
  using assms by (auto simp: relink_parent_def get_node_def set_parent_def rp_def)

lemma del_min_addrs: "addrs (del_min t) = tl (addrs t)"
  using del_min_inorder [of t] addrs_inorder [of t] addrs_inorder [of "del_min t"]
  by (metis map_tl)

lemma tree_at_node:
  "tree_at h t par \<Longrightarrow> a \<in> set (addrs t) \<Longrightarrow> \<exists>nd. h a = Some nd"
  using tree_at_live [of h t par a] by auto

text \<open>
  \<open>merge\<close> on the heap. The root of the merged subtree is returned with a stale
  \<open>parent\<close>: the caller sets it.
\<close>

lemma merge_tree:
  assumes tl: "tree_at (nodes st) l pl" and tr: "tree_at (nodes st) r pr"
    and d: "distinct (addrs l @ addrs r)"
  shows "\<exists>st'. merge st (root l) (root r) = Some (Returns (root (merge_shape l r)) st') \<and>
     (\<forall>q. tree_at (rp (nodes st') (root (merge_shape l r)) q) (merge_shape l r) q) \<and>
     (\<forall>b. b \<notin> set (addrs l) \<union> set (addrs r) \<longrightarrow> nodes st' b = nodes st b) \<and>
     (\<forall>b. (nodes st' b = None) = (nodes st b = None)) \<and>
     iters st' = iters st \<and> size' st' = size' st \<and> oom st' = oom st \<and> brk st' = brk st"
proof -
  have dl: "distinct (addrs l)" and dr: "distinct (addrs r)"
    and dj: "set (addrs l) \<inter> set (addrs r) = {}"
    using d by auto
  have re: "\<And>t p q. tree_at (nodes st) t p \<Longrightarrow> distinct (addrs t) \<Longrightarrow>
      tree_at (rp (nodes st) (root t) q) t q"
  proof -
    fix t :: "'a shape" and p q
    assume t: "tree_at (nodes st) t p" "distinct (addrs t)"
    show "tree_at (rp (nodes st) (root t) q) t q"
    proof (rule tree_at_reparent [OF t])
      fix a assume "a \<in> set (addrs t)" "root t \<noteq> Some a"
      then show "map_option lnk (rp (nodes st) (root t) q a) = map_option lnk (nodes st a)"
        by (simp add: rp_lnk)
    next
      fix a nd assume "root t = Some a" "nodes st a = Some nd"
      then show "map_option lnk (rp (nodes st) (root t) q a) = Some (left nd, right nd, q, value' nd)"
        by (simp add: rp_lnk)
    qed
  qed
  show ?thesis
  proof (cases "l = Tip")
    case True
    then have "merge st (root l) (root r) = Some (Returns (root r) st)"
      by (simp add: merge_def)
    then show ?thesis using True re [OF tr dr] by (simp add: merge_shape_def)
  next
    case lne: False
    show ?thesis
    proof (cases "r = Tip")
      case True
      then have "merge st (root l) (root r) = Some (Returns (root l) st)"
        using lne by (cases l) (simp_all add: merge_def)
      then show ?thesis using True lne re [OF tl dl] by (simp add: merge_shape_def)
    next
      case rne: False
      define m where "m = hd (addrs r)"
      have fm: "find_min st (root r) = Some (Returns m st)"
        unfolding m_def by (rule find_min_tree [OF tr rne])
      from del_min_graft [OF rne dr] obtain mv mr where sub:
        "subtree m r = Fork Tip m mv mr" "hd (inorder r) = (m, mv)" "del_min r = graft m mr r"
        unfolding m_def by blast
      have mr: "m \<in> set (addrs r)" using rne by (simp add: m_def addrs_Nil)
      then have ml: "m \<notin> set (addrs l)" using dj by auto
      have ms: "merge_shape l r = Fork l m mv (del_min r)"
        using lne rne sub(2) by (simp add: merge_shape_def)
      from subtree_at [OF tr mr] sub(1)
      have "tree_at (nodes st) (Fork Tip m mv mr) (parent_in m r pr)" by simp
      from this [unfolded tree_at_Fork_lnk]
      have lm: "map_option lnk (nodes st m) = Some (None, root mr, parent_in m r pr, Some mv)"
        and tmr: "tree_at (nodes st) mr (Some m)" by simp_all
      from lm obtain mn where mn: "nodes st m = Some mn" "left mn = None" "right mn = root mr"
        "parent mn = parent_in m r pr" "value' mn = Some mv"
        by (auto simp: lnk_def)
      from lne obtain lr where lr: "root l = Some lr" by (cases l) auto
      from rne obtain x where x: "root r = Some x" by (cases r) auto
      have lrl: "lr \<in> set (addrs l)" using lr by (rule root_in_addrs)
      have xr: "x \<in> set (addrs r)" using x by (rule root_in_addrs)
      have smr: "set (addrs mr) \<subseteq> set (addrs r)" "m \<notin> set (addrs mr)" "distinct (addrs mr)"
        using subtree_addrs [of m r] subtree_distinct [OF dr, of m] sub(1) by auto
      show ?thesis
      proof (cases "x = m")
        case True
        then have g: "del_min r = mr" using sub(3) x graft_at_root [of r m mr] by simp
        from tree_at_node [OF tl lrl] obtain ln where ln: "nodes st lr = Some ln" ..
        define h2 where "h2 = (nodes st)(m \<mapsto> mn\<lparr>left := Some lr\<rparr>)"
        define h3 where "h3 = rp h2 (Some lr) (Some m)"
        have lm_ne: "lr \<noteq> m" using lrl ml by auto
        have e1: "set_left st (Some m) (Some lr) = Some (Returns () (st\<lparr>nodes := h2\<rparr>))"
          using mn(1) by (simp add: set_left_def h2_def)
        have e2: "set_parent (st\<lparr>nodes := h2\<rparr>) (Some lr) (Some m) =
            Some (Returns () (st\<lparr>nodes := h3\<rparr>))"
          using set_parent_live [of "st\<lparr>nodes := h2\<rparr>" lr ln "Some m"] ln lm_ne
          by (simp add: h2_def h3_def)
        have run: "merge st (root l) (root r) = Some (Returns (Some m) (st\<lparr>nodes := h3\<rparr>))"
          using lr x True fm e1 e2 by (simp add: merge_def)
        have l3: "\<And>b. map_option lnk (h3 b) =
            (if b = lr then map_option (\<lambda>nd. (left nd, right nd, Some m, value' nd)) (nodes st b)
             else if b = m then Some (Some lr, root mr, parent_in m r pr, Some mv)
             else map_option lnk (nodes st b))"
          using mn lm_ne by (auto simp: h3_def h2_def rp_lnk lnk_def)
        have tree: "\<And>q. tree_at (rp h3 (Some m) q) (Fork l m mv mr) q"
        proof -
          fix q
          have a: "map_option lnk (rp h3 (Some m) q m) = Some (root l, root mr, q, Some mv)"
            using l3 [of m] lm_ne lr by (auto simp: rp_lnk lnk_def)
          have b: "tree_at (rp h3 (Some m) q) l (Some m)"
          proof (rule tree_at_reparent [OF tl dl])
            fix c assume "c \<in> set (addrs l)" "root l \<noteq> Some c"
            then show "map_option lnk (rp h3 (Some m) q c) = map_option lnk (nodes st c)"
              using lr ml by (auto simp: rp_lnk l3)
          next
            fix c nd assume "root l = Some c" "nodes st c = Some nd"
            then show "map_option lnk (rp h3 (Some m) q c) = Some (left nd, right nd, Some m, value' nd)"
              using lr lm_ne by (auto simp: rp_lnk l3)
          qed
          have "tree_at (rp h3 (Some m) q) mr (Some m) = tree_at (nodes st) mr (Some m)"
          proof (rule tree_at_lnk)
            fix c assume "c \<in> set (addrs mr)"
            then have "c \<noteq> m" "c \<noteq> lr" using smr lrl dj by auto
            then show "map_option lnk (rp h3 (Some m) q c) = map_option lnk (nodes st c)"
              by (simp add: rp_lnk l3)
          qed
          then show "tree_at (rp h3 (Some m) q) (Fork l m mv mr) q"
            unfolding tree_at_Fork_lnk using a b tmr by simp
        qed
        have frame: "\<forall>b. b \<notin> set (addrs l) \<union> set (addrs r) \<longrightarrow> h3 b = nodes st b"
        proof (intro allI impI)
          fix b assume b: "b \<notin> set (addrs l) \<union> set (addrs r)"
          then have "b \<noteq> lr" "b \<noteq> m" using lrl mr by auto
          then show "h3 b = nodes st b" by (simp add: h3_def h2_def rp_outside)
        qed
        have live: "\<forall>b. (h3 b = None) = (nodes st b = None)"
          using mn(1) by (auto simp: h3_def h2_def rp_live)
        show ?thesis
          using run ms g tree frame live by (simp del: tree_at.simps)
      next
        case False
        then have rm: "root r \<noteq> Some m" using x by simp
        from parent_slot [OF tr mr rm] obtain c cx cy cp cw where c:
          "parent_in m r pr = Some c" "map_option lnk (nodes st c) = Some (cx, cy, cp, cw)"
          "cx = Some m \<or> cy = Some m" by blast
        from parent_in_inside [OF mr dr rm, of pr] c(1) sub(1)
        have cr: "c \<in> set (addrs r)" "c \<noteq> m" "c \<notin> set (addrs mr)" by auto
        from c(2) obtain cn where cn: "nodes st c = Some cn" "left cn = cx" "right cn = cy"
          by (auto simp: lnk_def)
        from tree_at_node [OF tl lrl] obtain ln where ln: "nodes st lr = Some ln" ..
        from tree_at_node [OF tr xr] obtain xn where xn: "nodes st x = Some xn" ..
        have ne: "lr \<noteq> m" "lr \<noteq> c" "lr \<noteq> x" "lr \<notin> set (addrs mr)" "x \<noteq> m"
          using lrl ml cr xr smr dj False by auto
        define cn' where "cn' = (if left cn = Some m then cn\<lparr>left := root mr\<rparr> else cn\<lparr>right := root mr\<rparr>)"
        define h0 where "h0 = (nodes st)(c \<mapsto> cn')"
        define h1 where "h1 = rp h0 (root mr) (Some c)"
        define h2a where "h2a = h1(m \<mapsto> mn\<lparr>left := Some lr\<rparr>)"
        define h2 where "h2 = h2a(m \<mapsto> mn\<lparr>left := Some lr, right := Some x\<rparr>)"
        define h3 where "h3 = rp h2 (Some lr) (Some m)"
        define h4 where "h4 = rp h3 (Some x) (Some m)"
        have gm: "get_node st (Some m) = Some (Returns mn st)"
          using mn(1) by (simp add: get_node_def)
        have gc: "get_node st (Some c) = Some (Returns cn st)"
          using cn(1) by (simp add: get_node_def)
        have e1a: "left cn = Some m \<Longrightarrow>
            set_left st (Some c) (root mr) = Some (Returns () (st\<lparr>nodes := h0\<rparr>))"
          using cn(1) by (simp add: set_left_def h0_def cn'_def)
        have e1b: "left cn \<noteq> Some m \<Longrightarrow>
            set_right st (Some c) (root mr) = Some (Returns () (st\<lparr>nodes := h0\<rparr>))"
          using cn(1) by (simp add: set_right_def h0_def cn'_def)
        have m0: "h0 m = Some mn" using mn(1) cr(2) by (simp add: h0_def)
        have rl0: "right mn = None \<or> (\<exists>y nd. right mn = Some y \<and> h0 y = Some nd)"
        proof (cases mr)
          case Tip
          then show ?thesis using mn(3) by simp
        next
          case (Fork a1 y a3 a4)
          then have "y \<in> set (addrs mr)" by simp
          then have "y \<in> set (addrs r)" "y \<noteq> c" using smr cr(3) by auto
          from tree_at_node [OF tr this(1)] \<open>y \<noteq> c\<close> show ?thesis
            using mn(3) Fork by (auto simp: h0_def)
        qed
        have e2: "relink_parent (st\<lparr>nodes := h0\<rparr>) (Some m) = Some (Returns () (st\<lparr>nodes := h1\<rparr>))"
          using relink_parent_rp [of "st\<lparr>nodes := h0\<rparr>" m mn] m0 rl0 mn(3,4) c(1)
          by (simp add: h1_def)
        have "root mr \<noteq> Some m" using smr(2) root_in_addrs [of mr m] by auto
        then have m1: "h1 m = Some mn"
          using m0 by (simp add: h1_def rp_outside)
        have e3: "set_left (st\<lparr>nodes := h1\<rparr>) (Some m) (Some lr) = Some (Returns () (st\<lparr>nodes := h2a\<rparr>))"
          using m1 by (simp add: set_left_def h2a_def)
        have e4: "set_right (st\<lparr>nodes := h2a\<rparr>) (Some m) (Some x) = Some (Returns () (st\<lparr>nodes := h2\<rparr>))"
          by (simp add: set_right_def h2a_def h2_def)
        have lr2: "h2 lr \<noteq> None"
          using ln ne by (auto simp: h2_def h2a_def h1_def h0_def rp_live)
        have e5: "set_parent (st\<lparr>nodes := h2\<rparr>) (Some lr) (Some m) = Some (Returns () (st\<lparr>nodes := h3\<rparr>))"
          using set_parent_live [of "st\<lparr>nodes := h2\<rparr>" lr _ "Some m"] lr2 by (auto simp: h3_def)
        have x3: "h3 x \<noteq> None"
          using xn ne by (auto simp: h3_def h2_def h2a_def h1_def h0_def rp_live)
        have e6: "set_parent (st\<lparr>nodes := h3\<rparr>) (Some x) (Some m) = Some (Returns () (st\<lparr>nodes := h4\<rparr>))"
          using set_parent_live [of "st\<lparr>nodes := h3\<rparr>" x _ "Some m"] x3 by (auto simp: h4_def)
        have run: "merge st (root l) (root r) = Some (Returns (Some m) (st\<lparr>nodes := h4\<rparr>))"
          using lr x False fm gm gc mn(3,4) c(1) e1a e1b e2 e3 e4 e5 e6
          by (cases "left cn = Some m") (simp_all add: merge_def)
        \<comment> \<open>the links after the leftmost node of \<open>r\<close> is unhooked\<close>
        have l1: "\<And>b. map_option lnk (h1 b) =
            (if Some b = root mr
             then map_option (\<lambda>nd. (left nd, right nd, Some c, value' nd)) (nodes st b)
             else if b = c then Some (slot m (root mr) (cx, cy, cp, cw))
             else map_option lnk (nodes st b))"
        proof -
          fix b
          have "Some c \<noteq> root mr" using cr(3) root_in_addrs [of mr c] by auto
          then show "map_option lnk (h1 b) =
            (if Some b = root mr
             then map_option (\<lambda>nd. (left nd, right nd, Some c, value' nd)) (nodes st b)
             else if b = c then Some (slot m (root mr) (cx, cy, cp, cw))
             else map_option lnk (nodes st b))"
            using cn c(2) by (auto simp: h1_def h0_def rp_lnk cn'_def slot_def lnk_def)
        qed
        have t1m: "tree_at h1 mr (Some c)"
        proof (rule tree_at_reparent [OF tmr smr(3)])
          fix b assume "b \<in> set (addrs mr)" "root mr \<noteq> Some b"
          then show "map_option lnk (h1 b) = map_option lnk (nodes st b)"
            using cr(3) by (auto simp: l1)
        next
          fix b nd assume "root mr = Some b" "nodes st b = Some nd"
          then show "map_option lnk (h1 b) = Some (left nd, right nd, Some c, value' nd)"
            by (simp add: l1)
        qed
        have t1: "tree_at h1 (del_min r) pr"
          unfolding sub(3)
        proof (rule tree_at_graft [OF tr dr mr])
          show "tree_at h1 mr (parent_in m r pr)" using t1m c(1) by simp
        next
          fix b assume "b \<in> set (addrs r)" "b \<notin> set (addrs (subtree m r))"
          then have "Some b \<noteq> root mr" using sub(1) root_in_addrs [of mr b] by auto
          then show "map_option lnk (h1 b) =
              (if parent_in m r pr = Some b
               then map_option (slot m (root mr)) (map_option lnk (nodes st b))
               else map_option lnk (nodes st b))"
            using c(1,2) by (auto simp: l1)
        qed
        have rdm: "root (del_min r) = Some x"
          using sub(3) graft_root [OF rm, of mr] x by simp
        have adm: "set (addrs (del_min r)) \<subseteq> set (addrs r)" "m \<notin> set (addrs (del_min r))"
          "distinct (addrs (del_min r))"
        proof -
          have "addrs r = m # tl (addrs r)" using rne by (simp add: m_def addrs_Nil)
          then have "distinct (m # tl (addrs r))" "set (addrs r) = set (m # tl (addrs r))"
            using dr by simp_all
          then show "set (addrs (del_min r)) \<subseteq> set (addrs r)" "m \<notin> set (addrs (del_min r))"
            "distinct (addrs (del_min r))"
            by (auto simp: del_min_addrs)
        qed
        have l2: "\<And>b. map_option lnk (h2 b) =
            (if b = m then Some (Some lr, Some x, Some c, Some mv) else map_option lnk (h1 b))"
          using mn(4,5) c(1) by (simp add: h2_def h2a_def lnk_def)
        have l4: "\<And>b q. map_option lnk (rp h4 (Some m) q b) =
            (if b = m then Some (Some lr, Some x, q, Some mv)
             else if b = x then map_option (repar (Some m)) (map_option lnk (h1 b))
             else if b = lr then map_option (repar (Some m)) (map_option lnk (h1 b))
             else map_option lnk (h1 b))"
          using ne by (simp add: rp_repar h4_def h3_def l2 repar_def)
        have h1lr: "map_option lnk (h1 lr) = map_option lnk (nodes st lr)"
        proof -
          have "Some lr \<noteq> root mr" using ne(4) root_in_addrs [of mr lr] by auto
          then show ?thesis using ne by (simp add: l1)
        qed
        have tree: "\<And>q. tree_at (rp h4 (Some m) q) (Fork l m mv (del_min r)) q"
        proof -
          fix q
          have a: "map_option lnk (rp h4 (Some m) q m) = Some (root l, root (del_min r), q, Some mv)"
            using lr rdm by (simp add: l4)
          have b: "tree_at (rp h4 (Some m) q) l (Some m)"
          proof (rule tree_at_repar [OF tl dl])
            fix b assume b: "b \<in> set (addrs l)" "root l \<noteq> Some b"
            then have "b \<noteq> m" "b \<noteq> lr" "b \<noteq> x" "b \<noteq> c" "Some b \<noteq> root mr"
              using ml lr xr cr(1) dj smr(1) root_in_addrs [of mr b] by auto
            then show "map_option lnk (rp h4 (Some m) q b) = map_option lnk (nodes st b)"
              by (simp add: l4 l1)
          next
            fix b assume "root l = Some b"
            then show "map_option lnk (rp h4 (Some m) q b) =
                map_option (repar (Some m)) (map_option lnk (nodes st b))"
              using lr ne h1lr by (simp add: l4)
          qed
          have c: "tree_at (rp h4 (Some m) q) (del_min r) (Some m)"
          proof (rule tree_at_repar [OF t1 adm(3)])
            fix b assume b: "b \<in> set (addrs (del_min r))" "root (del_min r) \<noteq> Some b"
            then have "b \<noteq> m" "b \<noteq> lr" "b \<noteq> x"
              using adm lrl dj rdm by auto
            then show "map_option lnk (rp h4 (Some m) q b) = map_option lnk (h1 b)"
              by (simp add: l4)
          next
            fix b assume "root (del_min r) = Some b"
            then show "map_option lnk (rp h4 (Some m) q b) =
                map_option (repar (Some m)) (map_option lnk (h1 b))"
              using rdm ne by (simp add: l4)
          qed
          show "tree_at (rp h4 (Some m) q) (Fork l m mv (del_min r)) q"
            unfolding tree_at_Fork_lnk using a b c by simp
        qed
        have frame: "\<forall>b. b \<notin> set (addrs l) \<union> set (addrs r) \<longrightarrow> h4 b = nodes st b"
        proof (intro allI impI)
          fix b assume b: "b \<notin> set (addrs l) \<union> set (addrs r)"
          then have "b \<noteq> lr" "b \<noteq> x" "b \<noteq> m" "b \<noteq> c" "Some b \<noteq> root mr"
            using lrl xr mr cr(1) smr(1) root_in_addrs [of mr b] by auto
          then show "h4 b = nodes st b"
            by (simp add: h4_def h3_def h2_def h2a_def h1_def h0_def rp_outside)
        qed
        have live: "\<forall>b. (h4 b = None) = (nodes st b = None)"
          using mn(1) cn(1) by (auto simp: h4_def h3_def h2_def h2a_def h1_def h0_def rp_live)
        show ?thesis
          using run ms tree frame live by (simp del: tree_at.simps)
      qed
    qed
  qed
qed


lemma merge_shape_addrs: "set (addrs (merge_shape l r)) = set (addrs l) \<union> set (addrs r)"
  using merge_shape_inorder [of l r] addrs_inorder [of "merge_shape l r"] addrs_inorder [of l]
    addrs_inorder [of r]
  by (metis map_append set_append)

text \<open>
  \<open>erase\<close> on the heap, for a position on a node \<open>a\<close> of the set. The iterators listed
  in the \<open>share\<close> vector of the node are live objects, and the registration of the
  returned iterator gets the memory it may ask for.
\<close>

lemma erase_set:
  assumes inv: "set_inv st this t" and pos: "addrs t = xs @ a # ys"
    and it: "iters st pos = Some p" "node' p = Some a" "container' p = Some this"
    and dn: "nodes st a = Some dn" and live: "\<forall>i\<in>set (share dn). iters st i \<noteq> None"
    and al: "\<not> alloc_fails st"
  shows "\<exists>st'. erase st this pos = Some (Returns (brk st) st') \<and>
     set_inv st' this (delete_at a t) \<and>
     iters st' =
       (\<lambda>i. if i \<in> set (share dn) then map_option (\<lambda>it. it\<lparr>node' := None\<rparr>) (iters st i)
            else iters st i)
       (brk st \<mapsto> \<lparr>node' = Some (case ys of [] \<Rightarrow> this | b # _ \<Rightarrow> b), container' = Some this\<rparr>) \<and>
     (\<forall>b. (nodes st' b = None) = (b = a \<or> nodes st b = None)) \<and>
     map_option left (nodes st' this) = Some (root (delete_at a t))"
proof -
  define succ where "succ = (case ys of [] \<Rightarrow> this | b # _ \<Rightarrow> b)"
  have at: "a \<in> set (addrs t)" using pos by simp
  then have ne: "t \<noteq> Tip" by auto
  from set_inv_anchor [OF inv] ne obtain f where f: "nodes st this = Some f" "value' f = None"
    "right f = None" "left f = root t" by auto
  have sz: "size' st this = Some (length (addrs t))" and tr: "tree_at (nodes st) t (Some this)"
    and nth: "this \<notin> set (addrs t)" and dt: "distinct (addrs t)"
    using set_inv_facts [OF inv] by simp_all
  have nz: "length (addrs t) \<noteq> 0" using ne by (cases t) auto
  from subtree_Fork [OF at] obtain l v r where sub: "subtree a t = Fork l a v r" by blast
  define dpar where "dpar = parent_in a t (Some this)"
  define M where "M = merge_shape l r"
  from subtree_at [OF tr at] sub
  have "tree_at (nodes st) (Fork l a v r) dpar" by (simp add: dpar_def)
  from this [unfolded tree_at_Fork_lnk]
  have la: "map_option lnk (nodes st a) = Some (root l, root r, dpar, Some v)"
    and tl: "tree_at (nodes st) l (Some a)" and tr': "tree_at (nodes st) r (Some a)"
    by simp_all
  from la dn have dnf: "left dn = root l" "right dn = root r" "parent dn = dpar"
    by (simp_all add: lnk_def)
  have ss: "set (addrs (Fork l a v r)) \<subseteq> set (addrs t)" "distinct (addrs (Fork l a v r))"
    using subtree_addrs [of a t] subtree_distinct [OF dt, of a] sub by simp_all
  then have dlr: "distinct (addrs l @ addrs r)" and alr: "a \<notin> set (addrs l)" "a \<notin> set (addrs r)"
    and sl: "set (addrs l) \<subseteq> set (addrs t)" and sr: "set (addrs r) \<subseteq> set (addrs t)"
    by auto
  have aM: "set (addrs M) = set (addrs l) \<union> set (addrs r)"
    unfolding M_def by (rule merge_shape_addrs)
  \<comment> \<open>the parent of the node\<close>
  have "\<exists>d cx cy cp cw. dpar = Some d \<and> map_option lnk (nodes st d) = Some (cx, cy, cp, cw) \<and>
      (cx = Some a \<or> cy = Some a) \<and> d \<notin> set (addrs (Fork l a v r)) \<and>
      (d = this \<or> d \<in> set (addrs t)) \<and> ((d = this) = (root t = Some a))"
  proof (cases "root t = Some a")
    case True
    then have "dpar = Some this" unfolding dpar_def by (rule parent_in_root)
    moreover have "map_option lnk (nodes st this) = Some (Some a, None, parent f, None)"
      using f True by (simp add: lnk_def)
    moreover have "this \<notin> set (addrs (Fork l a v r))" using ss(1) nth by auto
    ultimately show ?thesis using True by blast
  next
    case False
    from parent_slot [OF tr at False] obtain c cx cy cp cw where c:
      "dpar = Some c" "map_option lnk (nodes st c) = Some (cx, cy, cp, cw)"
      "cx = Some a \<or> cy = Some a" unfolding dpar_def by blast
    from parent_in_inside [OF at dt False, of "Some this"] c(1) sub
    have "c \<in> set (addrs t)" "c \<notin> set (addrs (Fork l a v r))" by (auto simp: dpar_def)
    moreover from this(1) nth have "c \<noteq> this" by auto
    ultimately show ?thesis using c False by blast
  qed
  then obtain d cx cy cp cw where d: "dpar = Some d"
    "map_option lnk (nodes st d) = Some (cx, cy, cp, cw)" "cx = Some a \<or> cy = Some a"
    "d \<notin> set (addrs (Fork l a v r))" "d = this \<or> d \<in> set (addrs t)"
    "(d = this) = (root t = Some a)" by blast
  from d(2) obtain dp where dp: "nodes st d = Some dp" "left dp = cx" "right dp = cy"
    by (auto simp: lnk_def)
  have da: "d \<noteq> a" "d \<notin> set (addrs l)" "d \<notin> set (addrs r)" "d \<notin> set (addrs M)"
    using d(4) aM by auto
  \<comment> \<open>\<open>find_next\<close>, then \<open>merge\<close>\<close>
  have fn: "find_next st (Some a) = Some (Returns (Some succ) st)"
    unfolding succ_def by (rule find_next_set [OF inv pos])
  from merge_tree [OF tl tr' dlr] obtain st3 where st3:
    "merge st (root l) (root r) = Some (Returns (root M) st3)"
    "\<forall>q. tree_at (rp (nodes st3) (root M) q) M q"
    "\<forall>b. b \<notin> set (addrs l) \<union> set (addrs r) \<longrightarrow> nodes st3 b = nodes st b"
    "\<forall>b. (nodes st3 b = None) = (nodes st b = None)"
    "iters st3 = iters st" "size' st3 = size' st" "oom st3 = oom st" "brk st3 = brk st"
    unfolding M_def by blast
  have n3: "nodes st3 d = Some dp" "nodes st3 a = Some dn" "nodes st3 this = Some f"
    using st3(3) da alr dp(1) dn f(1) nth sl sr by auto
  have rM: "root M \<noteq> Some d" "root M \<noteq> Some a" "root M \<noteq> Some this"
    using root_in_addrs [of M] aM da alr nth sl sr by auto
  \<comment> \<open>the splice into the slot of the parent\<close>
  define dp' where "dp' = (if left dp = Some a then dp\<lparr>left := root M\<rparr> else dp\<lparr>right := root M\<rparr>)"
  define h5 where "h5 = (nodes st3)(d \<mapsto> dp')"
  define h6 where "h6 = rp h5 (root M) (Some d)"
  have e5a: "left dp = Some a \<Longrightarrow>
      set_left st3 (Some d) (root M) = Some (Returns () (st3\<lparr>nodes := h5\<rparr>))"
    using n3(1) by (simp add: set_left_def h5_def dp'_def)
  have e5b: "left dp \<noteq> Some a \<Longrightarrow>
      set_right st3 (Some d) (root M) = Some (Returns () (st3\<lparr>nodes := h5\<rparr>))"
    using n3(1) by (simp add: set_right_def h5_def dp'_def)
  have "root M = None \<or> (\<exists>x nd. root M = Some x \<and> nodes (st3\<lparr>nodes := h5\<rparr>) x = Some nd)"
  proof (cases "root M")
    case None
    then show ?thesis by simp
  next
    case (Some x)
    then have "x \<in> set (addrs l) \<union> set (addrs r)" using root_in_addrs [of M x] aM by simp
    then have "x \<in> set (addrs (Fork l a v r))" by auto
    with subtree_at [OF tr at] sub have "\<exists>nd. nodes st x = Some nd"
      using tree_at_node [of "nodes st" "Fork l a v r" _ x] by auto
    then have "nodes st3 x \<noteq> None" using st3(4) by auto
    then show ?thesis using Some rM(1) by (auto simp: h5_def)
  qed
  from set_parent_rp [OF this, of "Some d"]
  have e6: "(case root M of None \<Rightarrow> Some (Returns () (st3\<lparr>nodes := h5\<rparr>))
             | Some _ \<Rightarrow> set_parent (st3\<lparr>nodes := h5\<rparr>) (root M) (parent dn)) =
            Some (Returns () (st3\<lparr>nodes := h6\<rparr>))"
    unfolding h6_def dnf(3) d(1) by simp
  have l6: "\<And>b. map_option lnk (h6 b) =
      (if root M = Some b then map_option (repar (Some d)) (map_option lnk (nodes st3 b))
       else if b = d then Some (slot a (root M) (cx, cy, cp, cw))
       else map_option lnk (nodes st3 b))"
    using rM(1) n3(1) dp d(2)
    by (auto simp: h6_def h5_def rp_repar dp'_def slot_def lnk_def)
  have tM: "tree_at h6 M (Some d)"
  proof -
    have "tree_at h6 M (Some d) = tree_at (rp (nodes st3) (root M) (Some d)) M (Some d)"
    proof (rule tree_at_lnk)
      fix b assume "b \<in> set (addrs M)"
      then have "b \<noteq> d" using da(4) by auto
      then show "map_option lnk (h6 b) = map_option lnk (rp (nodes st3) (root M) (Some d) b)"
        by (simp add: l6 rp_repar)
    qed
    then show ?thesis using st3(2) by simp
  qed
  define t' where "t' = delete_at a t"
  have t'g: "t' = graft a M t" unfolding t'_def M_def by (rule delete_at_graft [OF sub])
  have at': "addrs t' = xs @ ys"
  proof -
    have "a \<notin> set xs" "a \<notin> set ys" using dt pos by auto
    then have "filter (\<lambda>b. b \<noteq> a) xs = xs" "filter (\<lambda>b. b \<noteq> a) ys = ys"
      by (auto simp: filter_id_conv)
    then show ?thesis unfolding t'_def using delete_at_addrs [OF dt, of a] pos by simp
  qed
  have a_t': "a \<notin> set (addrs t')" "this \<notin> set (addrs t')" "distinct (addrs t')"
    "length (addrs t') = length (addrs t) - 1" "set (addrs t') \<subseteq> set (addrs t)"
    using dt nth pos unfolding at' by auto
  have t6: "tree_at h6 t' (Some this)"
    unfolding t'g
  proof (rule tree_at_graft [OF tr dt at])
    show "tree_at h6 M (parent_in a t (Some this))" using tM d(1) by (simp add: dpar_def)
  next
    fix b assume b: "b \<in> set (addrs t)" "b \<notin> set (addrs (subtree a t))"
    then have "b \<notin> set (addrs l) \<union> set (addrs r)" using sub by auto
    then have "nodes st3 b = nodes st b" "root M \<noteq> Some b"
      using st3(3) root_in_addrs [of M b] aM by auto
    then show "map_option lnk (h6 b) =
        (if parent_in a t (Some this) = Some b
         then map_option (slot a (root M)) (map_option lnk (nodes st b))
         else map_option lnk (nodes st b))"
      using d(1,2) by (auto simp: l6 dpar_def)
  qed
  have root': "root t' = (if d = this then root M else root t)"
    using d(6) t'g graft_at_root [of t a M] graft_root [of t a M] by auto
  have an6: "map_option lnk (h6 this) = Some (root t', None, parent f, None)"
  proof (cases "d = this")
    case True
    then have "cx = Some a" "cy = None" "cp = parent f" "cw = None"
      using d(2,6) f by (simp_all add: lnk_def)
    then show ?thesis using True root' rM(3) by (simp add: l6 slot_def)
  next
    case False
    then show ?thesis using root' rM(3) n3(3) f by (simp add: l6 lnk_def)
  qed
  then obtain f6 where f6: "h6 this = Some f6" "left f6 = root t'" by (auto simp: lnk_def)
  have a6: "h6 a = Some dn"
    using n3(2) rM(2) da(1) by (simp add: h6_def h5_def rp_outside)
  have live6: "\<And>b. (h6 b = None) = (nodes st b = None)"
    using st3(4) dp(1) by (simp add: h6_def h5_def rp_live)
  \<comment> \<open>the test of line 499, the deletion, \<open>--size_\<close>\<close>
  have tk: "take_root (st3\<lparr>nodes := h6\<rparr>) this = Some (Returns (root t') (st3\<lparr>nodes := h6\<rparr>))"
    using f6 by (simp add: take_root_def get_node_def)
  have rne: "root t' \<noteq> Some a" using root_in_addrs [of t' a] a_t'(1) by auto
  define I where "I = (\<lambda>i. if i \<in> set (share dn)
       then map_option (\<lambda>it. it\<lparr>node' := None\<rparr>) (iters st i) else iters st i)"
  define st9 where "st9 = st3\<lparr>nodes := h6, iters := I, nodes := h6(a := None)\<rparr>"
  have e9: "delete_node (st3\<lparr>nodes := h6\<rparr>) a = Some (Returns () st9)"
  proof -
    have i: "iters (st3\<lparr>nodes := h6\<rparr>) = iters st" using st3(5) by simp
    have n: "nodes (st3\<lparr>nodes := h6\<rparr>) a = Some dn" using a6 by simp
    have lv: "\<forall>i\<in>set (share dn). iters (st3\<lparr>nodes := h6\<rparr>) i \<noteq> None"
      using live i by simp
    show ?thesis
      using delete_node_ok [OF n lv] unfolding i by (simp add: st9_def I_def)
  qed
  define st11 where "st11 = st9\<lparr>size' := (size' st9)(this \<mapsto> length (addrs t) - 1)\<rparr>"
  have e10: "set_size st9 this = Some (Returns (length (addrs t)) st9)"
    using sz st3(6) by (simp add: set_size_def st9_def)
  have e11: "put_size st9 this (length (addrs t) - 1) = Some (Returns () st11)"
    using sz st3(6) by (simp add: put_size_def st9_def st11_def)
  \<comment> \<open>the iterator that is returned\<close>
  have sa: "succ \<noteq> a" "succ = this \<or> succ \<in> set (addrs t)"
    using dt pos nth by (auto simp: succ_def split: list.splits)
  then have "nodes st succ \<noteq> None"
    using f(1) tree_at_node [OF tr, of succ] by auto
  then obtain sn where sn: "nodes st11 succ = Some sn"
    using sa(1) live6 [of succ] by (auto simp: st11_def st9_def)
  have "\<not> alloc_fails st11"
    using al st3(7) by (simp add: alloc_fails_def st11_def st9_def)
  from s_iterator_ctor_ok [OF sn this, of "Some this"] obtain st12 where st12:
    "s_iterator_ctor st11 (Some succ) (Some this) = Some (Returns (brk st11) st12)"
    "iters st12 = (iters st11)(brk st11 \<mapsto> \<lparr>node' = Some succ, container' = Some this\<rparr>)"
    "nodes st12 = (nodes st11)(succ \<mapsto> sn\<lparr>share := share sn @ [brk st11],
           share_cap := (if length (share sn) < share_cap sn then share_cap sn
                         else grown (length (share sn)))\<rparr>)"
    "size' st12 = size' st11"
    by blast
  have b11: "brk st11 = brk st" using st3(8) by (simp add: st11_def st9_def)
  \<comment> \<open>the run\<close>
  have gn: "get_node st (Some a) = Some (Returns dn st)"
    using dn by (simp add: get_node_def)
  have gd: "get_node st3 (Some d) = Some (Returns dp st3)"
    using n3(1) by (simp add: get_node_def)
  have run: "erase st this pos = Some (Returns (brk st) st12)"
    using it sz nz fn gn dnf d(1) st3(1) gd e5a e5b e6 tk rne e9 e10 e11 st12(1) b11
    by (cases "left dp = Some a") (simp_all add: erase_def set_empty_def set_size_def Let_def)
  \<comment> \<open>the invariant\<close>
  have l12: "\<And>b. map_option lnk (nodes st12 b) = (if b = a then None else map_option lnk (h6 b))"
    using st12(3) sn sa(1) by (auto simp: st11_def st9_def lnk_def)
  have t12: "tree_at (nodes st12) t' (Some this)"
  proof -
    have "tree_at (nodes st12) t' (Some this) = tree_at h6 t' (Some this)"
    proof (rule tree_at_lnk)
      fix b assume "b \<in> set (addrs t')"
      then have "b \<noteq> a" using a_t'(1) by auto
      then show "map_option lnk (nodes st12 b) = map_option lnk (h6 b)" by (simp add: l12)
    qed
    then show ?thesis using t6 by simp
  qed
  have an12: "map_option lnk (nodes st12 this) = Some (root t', None, parent f, None)"
    using an6 at nth by (auto simp: l12)
  have sz12: "size' st12 this = Some (length (addrs t'))"
    using st12(4) a_t'(4) by (simp add: st11_def)
  from an12 obtain f12 where f12: "nodes st12 this = Some f12" "left f12 = root t'"
    "right f12 = None" "value' f12 = None" by (auto simp: lnk_def)
  have inv12: "set_inv st12 this t'"
    unfolding set_inv_iff
    using f12 t12 sz12 a_t'(2,3) by (cases t') simp_all
  have i12: "iters st12 = I(brk st \<mapsto> \<lparr>node' = Some succ, container' = Some this\<rparr>)"
    using st12(2) b11 by (simp add: st11_def st9_def)
  have n12: "\<forall>b. (nodes st12 b = None) = (b = a \<or> nodes st b = None)"
  proof
    fix b
    have "(nodes st12 b = None) = (map_option lnk (nodes st12 b) = None)" by simp
    also have "\<dots> = (b = a \<or> h6 b = None)" by (simp add: l12)
    finally show "(nodes st12 b = None) = (b = a \<or> nodes st b = None)" by (simp add: live6)
  qed
  have "map_option left (nodes st12 this) = Some (root t')" using f12 by simp
  then show ?thesis
    using run inv12 i12 n12 unfolding t'_def I_def succ_def by blast
qed


text \<open>
  A set of five elements with three iterators: the root (address 1) holds 5, with 3 to
  its left and, to its right, 8 over 6 over 7. The iterators at 6 and 8 stand on the
  root, the one at 7 on the node of 6 (address 4), the in-order successor of the root.
\<close>

definition five :: "nat state" where
  "five =
     \<lparr>nodes = [0 \<mapsto> \<lparr>left = Some 1, right = None, parent = None, share = [], share_cap = 0,
                       value' = None\<rparr>,
               1 \<mapsto> \<lparr>left = Some 2, right = Some 3, parent = Some 0, share = [6, 8], share_cap = 2,
                       value' = Some 5\<rparr>,
               2 \<mapsto> \<lparr>left = None, right = None, parent = Some 1, share = [], share_cap = 2,
                       value' = Some 3\<rparr>,
               3 \<mapsto> \<lparr>left = Some 4, right = None, parent = Some 1, share = [], share_cap = 2,
                       value' = Some 8\<rparr>,
               4 \<mapsto> \<lparr>left = None, right = Some 5, parent = Some 3, share = [7], share_cap = 2,
                       value' = Some 6\<rparr>,
               5 \<mapsto> \<lparr>left = None, right = None, parent = Some 4, share = [], share_cap = 2,
                       value' = Some 7\<rparr>],
      iters = [6 \<mapsto> \<lparr>node' = Some 1, container' = Some 0\<rparr>,
               7 \<mapsto> \<lparr>node' = Some 4, container' = Some 0\<rparr>,
               8 \<mapsto> \<lparr>node' = Some 1, container' = Some 0\<rparr>],
      size' = [0 \<mapsto> 5],
      brk = 9,
      oom = []\<rparr>"

definition five_shape :: "nat shape" where
  "five_shape =
     Fork (Fork Tip 2 3 Tip) 1 5 (Fork (Fork Tip 4 6 (Fork Tip 5 7 Tip)) 3 8 Tip)"

definition five_root :: "nat sentinel_node" where
  "five_root = \<lparr>left = Some 2, right = Some 3, parent = Some 0, share = [6, 8], share_cap = 2,
                 value' = Some 5\<rparr>"

lemma five_inv: "set_inv five 0 five_shape"
  by (simp add: set_inv_def five_def five_shape_def)

text \<open>
  Claim C6. In a well-formed set, \<open>erase\<close> at a position on the node \<open>a\<close>, whose
  \<open>share\<close> vector lists live iterators and with memory for the registration of the
  result, returns a new iterator on the node that followed \<open>a\<close> in order before the
  call (on the anchor when \<open>a\<close> was last). The set then holds the shape
  \<open>delete_at a t\<close>: the merge of the two subtrees of \<open>a\<close> grafted where \<open>a\<close> was, the
  root slot holding its root. Read in order, it is the old sequence of nodes and
  elements without \<open>a\<close>: every other element is in the node it was in. The node \<open>a\<close>
  is gone from the heap and no other is; \<open>size_\<close> is one less.
\<close>

theorem erase_position:
  assumes "set_inv st this t" and "addrs t = xs @ a # ys"
    and "iters st pos = Some \<lparr>node' = Some a, container' = Some this\<rparr>"
    and "nodes st a = Some dn" and "\<forall>i\<in>set (share dn). iters st i \<noteq> None"
    and "\<not> alloc_fails st"
  shows "\<exists>st'. erase st this pos = Some (Returns (brk st) st') \<and>
     iters st' (brk st) =
       Some \<lparr>node' = Some (case ys of [] \<Rightarrow> this | b # _ \<Rightarrow> b), container' = Some this\<rparr> \<and>
     set_inv st' this (delete_at a t) \<and>
     delete_at a t =
       graft a (case subtree a t of Tip \<Rightarrow> Tip | Fork l _ _ r \<Rightarrow> merge_shape l r) t \<and>
     map_option left (nodes st' this) = Some (root (delete_at a t)) \<and>
     inorder (delete_at a t) = filter (\<lambda>p. fst p \<noteq> a) (inorder t) \<and>
     (\<forall>b. (nodes st' b = None) = (b = a \<or> nodes st b = None)) \<and>
     size' st' this = Some (length (addrs t) - 1)"
proof -
  have at: "a \<in> set (addrs t)" using assms(2) by simp
  have dt: "distinct (addrs t)" using set_inv_facts [OF assms(1)] by simp
  from erase_set [OF assms(1,2,3) _ _ assms(4,5,6)] obtain st' where st':
    "erase st this pos = Some (Returns (brk st) st')" "set_inv st' this (delete_at a t)"
    "iters st' =
       (\<lambda>i. if i \<in> set (share dn) then map_option (\<lambda>it. it\<lparr>node' := None\<rparr>) (iters st i)
            else iters st i)
       (brk st \<mapsto> \<lparr>node' = Some (case ys of [] \<Rightarrow> this | b # _ \<Rightarrow> b), container' = Some this\<rparr>)"
    "\<forall>b. (nodes st' b = None) = (b = a \<or> nodes st b = None)"
    "map_option left (nodes st' this) = Some (root (delete_at a t))"
    by auto
  from subtree_Fork [OF at] obtain l v r where sub: "subtree a t = Fork l a v r" by blast
  have g: "delete_at a t =
       graft a (case subtree a t of Tip \<Rightarrow> Tip | Fork l _ _ r \<Rightarrow> merge_shape l r) t"
    using delete_at_graft [OF sub] sub by simp
  have len: "length (addrs (delete_at a t)) = length (addrs t) - 1"
  proof -
    have "a \<notin> set xs" "a \<notin> set ys" using dt assms(2) by auto
    then have "filter (\<lambda>b. b \<noteq> a) xs = xs" "filter (\<lambda>b. b \<noteq> a) ys = ys"
      by (auto simp: filter_id_conv)
    then show ?thesis using delete_at_addrs [OF dt, of a] assms(2) by simp
  qed
  have "size' st' this = Some (length (addrs t) - 1)"
    using set_inv_facts [OF st'(2)] len by simp
  moreover have "iters st' (brk st) =
       Some \<lparr>node' = Some (case ys of [] \<Rightarrow> this | b # _ \<Rightarrow> b), container' = Some this\<rparr>"
    using st'(3) by simp
  ultimately show ?thesis
    using st'(1,2,4,5) g delete_at_inorder [OF dt, of a] by blast
qed

theorem erase_position_witness:
  "set_inv five 0 five_shape \<and> addrs five_shape = [2] @ 1 # [4, 5, 3] \<and>
   iters five 6 = Some \<lparr>node' = Some 1, container' = Some 0\<rparr> \<and>
   nodes five 1 = Some five_root \<and> iters five 6 \<noteq> None \<and> iters five 8 \<noteq> None \<and>
   \<not> alloc_fails five \<and>
   (\<exists>st'. erase five 0 6 = Some (Returns 9 st') \<and>
      iters st' 9 = Some \<lparr>node' = Some 4, container' = Some 0\<rparr> \<and>
      set_inv st' 0 (Fork (Fork Tip 2 3 Tip) 4 6 (Fork (Fork Tip 5 7 Tip) 3 8 Tip)) \<and>
      nodes st' 1 = None \<and> nodes st' 4 \<noteq> None \<and> size' st' 0 = Some 4)"
proof -
  have a: "addrs five_shape = [2] @ 1 # [4, 5, 3]" by (simp add: five_shape_def)
  have i: "iters five 6 = Some \<lparr>node' = Some 1, container' = Some 0\<rparr>" by (simp add: five_def)
  have n: "nodes five 1 = Some five_root" by (simp add: five_def five_root_def)
  have l: "\<forall>i\<in>set (share five_root). iters five i \<noteq> None"
    by (simp add: five_def five_root_def)
  have o: "\<not> alloc_fails five" by (simp add: alloc_fails_def five_def)
  have b: "brk five = 9" by (simp add: five_def)
  have d: "delete_at 1 five_shape = Fork (Fork Tip 2 3 Tip) 4 6 (Fork (Fork Tip 5 7 Tip) 3 8 Tip)"
    by (simp add: five_shape_def merge_shape_def)
  have n4: "nodes five 4 \<noteq> None" by (simp add: five_def)
  from erase_position [OF five_inv a i n l o] obtain st' where st':
    "erase five 0 6 = Some (Returns (brk five) st')"
    "iters st' (brk five) = Some \<lparr>node' = Some 4, container' = Some 0\<rparr>"
    "set_inv st' 0 (delete_at 1 five_shape)"
    "\<forall>b. (nodes st' b = None) = (b = 1 \<or> nodes five b = None)"
    "size' st' 0 = Some (length (addrs five_shape) - 1)"
    by auto
  have "nodes st' 1 = None" "nodes st' 4 \<noteq> None" using st'(4) n4 by simp_all
  moreover have "size' st' 0 = Some 4" using st'(5) a by simp
  ultimately show ?thesis
    using five_inv a i n l o st'(1,2,3) unfolding b d by (simp add: five_root_def)
qed

text \<open>
  A state for the claim that follows, built by client code from the empty heap:
  \<open>set<int> s\<close>, the inserts of 5, 3, 8, 6 and 7, \<open>auto i5 = s.lower_bound(5)\<close>,
  \<open>auto i6 = s.lower_bound(6)\<close>, and a copy of \<open>i5\<close>, the argument of the \<open>erase\<close>
  to come. The set is at address 0; its nodes are at 1 (the root, with 5), 5, 9, 13 and
  17; \<open>i5\<close>, \<open>i6\<close> and the copy are at 20, 21 and 22.
\<close>

definition erase_start :: "(addr, nat state) outcome option" where
  "erase_start =
     bind (set_default_ctor initial) (\<lambda>s st.
     bind (insert_all st s [5, 3, 8, 6, 7]) (\<lambda>_ st1.
     bind (lower_bound st1 s 5) (\<lambda>i5 st2.
     bind (lower_bound st2 s 6) (\<lambda>i6 st3.
     s_iterator_copy st3 i5))))"

definition five_built :: "nat state" where
  "five_built = (case erase_start of Some (Returns _ s) \<Rightarrow> s | _ \<Rightarrow> initial)"

definition built_shape :: "nat shape" where
  "built_shape =
     Fork (Fork Tip 5 3 Tip) 1 5 (Fork (Fork Tip 13 6 (Fork Tip 17 7 Tip)) 9 8 Tip)"

lemma keeps_final:
  "keeps P m \<Longrightarrow> P d \<Longrightarrow> P (case m of Some (Returns _ s) \<Rightarrow> s | _ \<Rightarrow> d)"
  by (auto simp: keeps_def split: option.splits outcome.splits)

lemma five_built_built: "built five_built"
proof -
  have i: "built initial" unfolding initial_def by (rule built.heap)
  have k: "keeps built erase_start"
    unfolding erase_start_def
    by (intro keeps_bind built_insert_all)
      (auto intro: i keeps_left_by built.constructed built.lower built.iterator_copied)
  show ?thesis unfolding five_built_def by (rule keeps_final [OF k i])
qed

lemma five_built_facts:
  "set_inv five_built 0 built_shape \<and>
   iters five_built 20 = Some \<lparr>node' = Some 1, container' = Some 0\<rparr> \<and>
   iters five_built 21 = Some \<lparr>node' = Some 13, container' = Some 0\<rparr> \<and>
   iters five_built 22 = Some \<lparr>node' = Some 1, container' = Some 0\<rparr> \<and>
   \<not> alloc_fails five_built"
  by code_simp

text \<open>
  Claim C1. Let the state be one that client code can be in (\<open>built\<close>), with a
  well-formed set at \<open>this\<close>, and let \<open>pos\<close> stand on the node \<open>a\<close> of that set.
  \<open>erase(pos)\<close> returns, when the registration of its result gets its memory, and then:
  the set is well formed again and holds, in order, the elements it held, each in its
  node, except the one of \<open>a\<close>. Every iterator that stood on \<open>a\<close> is singular (its
  \<open>node'\<close> is null, and dereferencing it fails the assertion), and every other iterator
  object is as it was. An iterator that stood on another element of the set stands on
  an element of the set still, and dereferences to the same value before and after the
  call.
\<close>

theorem erase_iterators:
  assumes "built st" and "set_inv st this t" and "addrs t = xs @ a # ys"
    and "iters st pos = Some \<lparr>node' = Some a, container' = Some this\<rparr>"
    and "\<not> alloc_fails st"
  shows "\<exists>r st'. erase st this pos = Some (Returns r st') \<and>
     set_inv st' this (delete_at a t) \<and>
     inorder (delete_at a t) = filter (\<lambda>p. fst p \<noteq> a) (inorder t) \<and>
     (\<forall>i q. iters st i = Some q \<longrightarrow>
        iters st' i = Some (if node' q = Some a then q\<lparr>node' := None\<rparr> else q)) \<and>
     (\<forall>i q. iters st i = Some q \<longrightarrow> node' q = Some a \<longrightarrow>
        deref st' i = Some (Aborts AssertFail)) \<and>
     (\<forall>i q b w. iters st i = Some q \<longrightarrow> node' q = Some b \<longrightarrow> b \<noteq> a \<longrightarrow>
        (b, w) \<in> set (inorder t) \<longrightarrow>
        (b, w) \<in> set (inorder (delete_at a t)) \<and>
        deref st i = Some (Returns w st) \<and> deref st' i = Some (Returns w st'))"
proof -
  have reg: "registered st" using assms(1) by (rule built_registered)
  have dt: "distinct (addrs t)" using set_inv_facts [OF assms(2)] by simp
  have "tree_at (nodes st) t (Some this)" using set_inv_facts [OF assms(2)] by simp
  from tree_at_live [OF this, of a] assms(3) obtain dn where dn: "nodes st a = Some dn"
    by auto
  have sh: "\<And>i. (i \<in> set (share dn)) = (\<exists>q. iters st i = Some q \<and> node' q = Some a)"
    using registered_share [OF reg dn] by simp
  have lv: "\<forall>i\<in>set (share dn). iters st i \<noteq> None" using sh by auto
  have fr: "iters st (brk st) = None"
    using registered_iter_brk [OF reg, of "brk st"] by (cases "iters st (brk st)") auto
  from erase_set [OF assms(2,3,4) _ _ dn lv assms(5)] obtain st' where st':
    "erase st this pos = Some (Returns (brk st) st')" "set_inv st' this (delete_at a t)"
    "iters st' =
       (\<lambda>i. if i \<in> set (share dn) then map_option (\<lambda>it. it\<lparr>node' := None\<rparr>) (iters st i)
            else iters st i)
       (brk st \<mapsto> \<lparr>node' = Some (case ys of [] \<Rightarrow> this | b # _ \<Rightarrow> b), container' = Some this\<rparr>)"
    by auto
  have io: "inorder (delete_at a t) = filter (\<lambda>p. fst p \<noteq> a) (inorder t)"
    by (rule delete_at_inorder [OF dt])
  have it: "\<And>i q. iters st i = Some q \<Longrightarrow>
      iters st' i = Some (if node' q = Some a then q\<lparr>node' := None\<rparr> else q)"
  proof -
    fix i q assume q: "iters st i = Some q"
    then have "i \<noteq> brk st" using fr by auto
    moreover have "(i \<in> set (share dn)) = (node' q = Some a)" using sh [of i] q by simp
    ultimately show "iters st' i = Some (if node' q = Some a then q\<lparr>node' := None\<rparr> else q)"
      using st'(3) q by simp
  qed
  have si: "\<And>i q. iters st i = Some q \<Longrightarrow> node' q = Some a \<Longrightarrow>
      deref st' i = Some (Aborts AssertFail)"
  proof -
    fix i q assume q: "iters st i = Some q" "node' q = Some a"
    from it [OF q(1)] q(2) have "iters st' i = Some (q\<lparr>node' := None\<rparr>)" by simp
    then show "deref st' i = Some (Aborts AssertFail)"
      by (simp add: deref_def base_assert_def)
  qed
  have de: "\<And>i q b w. iters st i = Some q \<Longrightarrow> node' q = Some b \<Longrightarrow> b \<noteq> a \<Longrightarrow>
      (b, w) \<in> set (inorder t) \<Longrightarrow>
      (b, w) \<in> set (inorder (delete_at a t)) \<and>
      deref st i = Some (Returns w st) \<and> deref st' i = Some (Returns w st')"
  proof -
    fix i q b w
    assume q: "iters st i = Some q" "node' q = Some b" "b \<noteq> a" "(b, w) \<in> set (inorder t)"
    have 1: "deref st i = Some (Returns w st)"
      by (rule deref_set [OF assms(2) q(4) q(1) q(2)])
    have 2: "iters st' i = Some q" using it [OF q(1)] q(2,3) by simp
    have 3: "(b, w) \<in> set (inorder (delete_at a t))"
      using io q(3,4) by simp
    have "deref st' i = Some (Returns w st')"
      by (rule deref_set [OF st'(2) 3 2 q(2)])
    with 1 3 show "(b, w) \<in> set (inorder (delete_at a t)) \<and>
      deref st i = Some (Returns w st) \<and> deref st' i = Some (Returns w st')" by simp
  qed
  show ?thesis using st'(1,2) io it si de by blast
qed

theorem erase_iterators_witness:
  "built five_built \<and> set_inv five_built 0 built_shape \<and>
   addrs built_shape = [5] @ 1 # [13, 17, 9] \<and>
   iters five_built 22 = Some \<lparr>node' = Some 1, container' = Some 0\<rparr> \<and>
   iters five_built 20 = Some \<lparr>node' = Some 1, container' = Some 0\<rparr> \<and>
   iters five_built 21 = Some \<lparr>node' = Some 13, container' = Some 0\<rparr> \<and>
   \<not> alloc_fails five_built \<and> (13, 6) \<in> set (inorder built_shape) \<and>
   (\<exists>r st'. erase five_built 0 22 = Some (Returns r st') \<and>
      set_inv st' 0 (Fork (Fork Tip 5 3 Tip) 13 6 (Fork (Fork Tip 17 7 Tip) 9 8 Tip)) \<and>
      iters st' 22 = Some \<lparr>node' = None, container' = Some 0\<rparr> \<and>
      iters st' 20 = Some \<lparr>node' = None, container' = Some 0\<rparr> \<and>
      iters st' 21 = Some \<lparr>node' = Some 13, container' = Some 0\<rparr> \<and>
      deref st' 20 = Some (Aborts AssertFail) \<and>
      deref five_built 21 = Some (Returns 6 five_built) \<and> deref st' 21 = Some (Returns 6 st'))"
proof -
  have a: "addrs built_shape = [5] @ 1 # [13, 17, 9]" by (simp add: built_shape_def)
  have inv: "set_inv five_built 0 built_shape" using five_built_facts by simp
  have i20: "iters five_built 20 = Some \<lparr>node' = Some 1, container' = Some 0\<rparr>"
    using five_built_facts by simp
  have i21: "iters five_built 21 = Some \<lparr>node' = Some 13, container' = Some 0\<rparr>"
    using five_built_facts by simp
  have i22: "iters five_built 22 = Some \<lparr>node' = Some 1, container' = Some 0\<rparr>"
    using five_built_facts by simp
  have o: "\<not> alloc_fails five_built" using five_built_facts by simp
  have m: "(13, 6) \<in> set (inorder built_shape)" by (simp add: built_shape_def)
  have d: "delete_at 1 built_shape = Fork (Fork Tip 5 3 Tip) 13 6 (Fork (Fork Tip 17 7 Tip) 9 8 Tip)"
    by (simp add: built_shape_def merge_shape_def)
  from erase_iterators [OF five_built_built inv a i22 o] obtain r st' where st':
    "erase five_built 0 22 = Some (Returns r st')"
    "set_inv st' 0 (delete_at 1 built_shape)"
    "\<And>i q. iters five_built i = Some q \<Longrightarrow>
        iters st' i = Some (if node' q = Some 1 then q\<lparr>node' := None\<rparr> else q)"
    "\<And>i q. iters five_built i = Some q \<Longrightarrow> node' q = Some 1 \<Longrightarrow>
        deref st' i = Some (Aborts AssertFail)"
    "\<And>i q b w. iters five_built i = Some q \<Longrightarrow> node' q = Some b \<Longrightarrow> b \<noteq> 1 \<Longrightarrow>
        (b, w) \<in> set (inorder built_shape) \<Longrightarrow>
        (b, w) \<in> set (inorder (delete_at 1 built_shape)) \<and>
        deref five_built i = Some (Returns w five_built) \<and> deref st' i = Some (Returns w st')"
    by blast
  have "iters st' 22 = Some \<lparr>node' = None, container' = Some 0\<rparr>" using st'(3) [OF i22] by simp
  moreover have "iters st' 20 = Some \<lparr>node' = None, container' = Some 0\<rparr>"
    using st'(3) [OF i20] by simp
  moreover have "iters st' 21 = Some \<lparr>node' = Some 13, container' = Some 0\<rparr>"
    using st'(3) [OF i21] by simp
  moreover have "deref st' 20 = Some (Aborts AssertFail)" using st'(4) [OF i20] by simp
  moreover have "deref five_built 21 = Some (Returns 6 five_built) \<and>
      deref st' 21 = Some (Returns 6 st')"
    using st'(5) [OF i21 _ _ m] by simp
  ultimately show ?thesis
    using five_built_built inv a i20 i21 i22 o m st'(1) st'(2) [unfolded d] by blast
qed

section \<open>A run of \<open>erase\<close>\<close>

text \<open>
  A run of client code: \<open>set<int> s\<close>, five inserts, \<open>auto i5 = s.lower_bound(5)\<close>,
  \<open>auto i6 = s.lower_bound(6)\<close>, \<open>auto r = s.erase(i5)\<close> (the argument is a copy of
  \<open>i5\<close>, destroyed after the call), then \<open>*i6\<close>, \<open>*r\<close>, the traversal, and the node
  of \<open>i5\<close>.
\<close>

definition erase_demo :: "(nat \<times> nat \<times> nat list \<times> addr option option, nat state) outcome option" where
  "erase_demo =
     bind (set_default_ctor initial) (\<lambda>s st.
     bind (insert_all st s [5, 3, 8, 6, 7]) (\<lambda>_ st1.
     bind (lower_bound st1 s 5) (\<lambda>i5 st2.
     bind (lower_bound st2 s 6) (\<lambda>i6 st3.
     bind (s_iterator_copy st3 i5) (\<lambda>pos st4.
     bind (erase st4 s pos) (\<lambda>r st5.
     bind (s_iterator_dtor st5 pos) (\<lambda>_ st6.
     bind (deref st6 i6) (\<lambda>v6 st7.
     bind (deref st7 r) (\<lambda>vr st8.
     bind (traverse st8 s) (\<lambda>xs st9.
     Some (Returns (v6, vr, xs, map_option node' (iters st9 i5)) st9)))))))))))"

lemma erase_demo_run: "returned erase_demo = Some (6, 6, [3, 6, 7, 8], Some None)"
  by code_simp

section \<open>Decrementing begin(), in any set\<close>

text \<open>
  The climb of \<open>operator--\<close> from the leftmost node of a subtree goes up its left
  spine: it continues from the root of the subtree as it would from the leftmost node.
\<close>

lemma climb_from_left_spine:
  "tree_at (nodes st) t par \<Longrightarrow> root t = Some x \<Longrightarrow> nodes st (hd (addrs t)) = Some mn \<Longrightarrow>
   left mn = None \<and> climb_from_left st (hd (addrs t)) (parent mn) = climb_from_left st x par"
proof (induction t arbitrary: par x)
  case Tip
  then show ?case by simp
next
  case (Fork l y v r)
  from Fork.prems(1) [unfolded tree_at_Fork_lnk]
  have t: "map_option lnk (nodes st y) = Some (root l, root r, par, Some v)"
    "tree_at (nodes st) l (Some y)" by simp_all
  from Fork.prems(2) have xy: "x = y" by simp
  show ?case
  proof (cases "l = Tip")
    case True
    then show ?thesis using t(1) Fork.prems(3) xy by (auto simp: lnk_def)
  next
    case False
    then obtain lx where lx: "root l = Some lx" by (cases l) auto
    have h: "hd (addrs (Fork l y v r)) = hd (addrs l)" using False by (simp add: addrs_Nil)
    from Fork.IH(1) [OF t(2) lx] Fork.prems(3) h
    have 1: "left mn = None"
      "climb_from_left st (hd (addrs l)) (parent mn) = climb_from_left st lx (Some y)" by simp_all
    from t(1) lx obtain yn where yn: "nodes st y = Some yn" "left yn = Some lx" "parent yn = par"
      by (auto simp: lnk_def)
    have "climb_from_left st lx (Some y) = climb_from_left st y par"
      using yn by (subst climb_from_left.simps) simp
    then show ?thesis using 1 h xy by simp
  qed
qed

text \<open>
  \<open>--begin()\<close> in a set that is not empty. The climb reaches the anchor and goes on to
  the anchor's \<open>parent\<close>. Where that is null (as the first \<open>insert\<close> leaves it), the
  iterator becomes singular and the closing \<open>base_assert\<close> fails. Where it points at
  the anchor itself (as the constructor leaves it), the iterator moves to the anchor,
  which is \<open>end()\<close>, and the assertion passes.
\<close>

lemma decrement_begin:
  assumes inv: "set_inv st this t" and ne: "t \<noteq> Tip" and o: "oom st = []"
  shows "\<exists>i st1. set_begin st this = Some (Returns i st1) \<and>
     (map_option parent (nodes st this) = Some None \<longrightarrow>
        decrement st1 i = Some (Aborts AssertFail)) \<and>
     (map_option parent (nodes st this) = Some (Some this) \<longrightarrow>
        (\<exists>st2. decrement st1 i = Some (Returns () st2) \<and>
           iters st2 i = Some \<lparr>node' = Some this, container' = Some this\<rparr>))"
proof -
  define m where "m = hd (addrs t)"
  define i where "i = brk st"
  have am: "addrs t \<noteq> []" using ne by (simp add: addrs_Nil)
  then have cm: "(case addrs t of [] \<Rightarrow> this | a # _ \<Rightarrow> a) = m"
    by (cases "addrs t") (simp_all add: m_def)
  from set_begin_set [OF inv o] obtain st1 where st1:
    "set_begin st this = Some (Returns i st1)" "bk st st1"
    "iters st1 = (iters st)(i \<mapsto> \<lparr>node' = Some m, container' = Some this\<rparr>)"
    unfolding cm i_def by blast
  have inv1: "set_inv st1 this t" using bk_set_inv [OF st1(2)] inv by simp
  have o1: "oom st1 = []" using bk_oom [OF st1(2)] o by simp
  have it1: "iters st1 i = Some \<lparr>node' = Some m, container' = Some this\<rparr>" using st1(3) by simp
  have mt: "m \<in> set (addrs t)" using am by (simp add: m_def)
  from set_inv_anchor [OF inv1] ne obtain f where f: "nodes st1 this = Some f" "left f = root t"
    by auto
  have tr: "tree_at (nodes st1) t (Some this)" and nth: "this \<notin> set (addrs t)"
    using set_inv_facts [OF inv1] by simp_all
  from ne obtain x where x: "root t = Some x" by (cases t) auto
  have xt: "x \<noteq> this" using root_in_addrs [OF x] nth by auto
  from set_node_live [OF inv1 mt] obtain mn where mn: "nodes st1 m = Some mn" ..
  from climb_from_left_spine [OF tr x mn [unfolded m_def]]
  have lm: "left mn = None"
    and cl: "climb_from_left st1 m (parent mn) = climb_from_left st1 x (Some this)"
    by (simp_all add: m_def)
  have cl2: "climb_from_left st1 x (Some this) = climb_from_left st1 this (parent f)"
    using f x by (subst climb_from_left.simps) simp
  have ba: "base_assert st1 i = Some (Returns () st1)"
    using base_assert_set [OF inv1 mt it1] by simp
  have pf: "map_option parent (nodes st this) = Some (parent f)"
    using lnk_fields [OF bk_lnk [OF st1(2), of this]] f(1) by simp
  have pre: "decrement st1 i =
      bind (climb_from_left st1 this (parent f)) (\<lambda>new st3.
        bind (move_to_another_node st3 i new) (\<lambda>_ st4. base_assert st4 i))"
    using ba it1 mn lm cl cl2 by (simp add: decrement_def get_node_def)
  have live_m: "node' \<lparr>node' = Some m, container' = Some this\<rparr> = None \<or>
      (\<exists>n z. node' \<lparr>node' = Some m, container' = Some this\<rparr> = Some n \<and> nodes st1 n = Some z)"
    using mn by simp
  have 1: "decrement st1 i = Some (Aborts AssertFail)" if "parent f = None"
  proof -
    have c: "climb_from_left st1 this (parent f) = Some (Returns None st1)"
      using that by (subst climb_from_left.simps) simp
    from move_to_another_node_bk [OF it1 live_m _ o1, of None] obtain st2 where st2:
      "move_to_another_node st1 i None = Some (Returns () st2)"
      "iters st2 = (iters st1)(i \<mapsto> \<lparr>node' = Some m, container' = Some this\<rparr>\<lparr>node' := None\<rparr>)"
      by auto
    have "base_assert st2 i = Some (Aborts AssertFail)"
      using st2(2) by (simp add: base_assert_def)
    then show ?thesis unfolding pre using c st2(1) by simp
  qed
  have 2: "\<exists>st2. decrement st1 i = Some (Returns () st2) \<and>
      iters st2 i = Some \<lparr>node' = Some this, container' = Some this\<rparr>" if "parent f = Some this"
  proof -
    have c: "climb_from_left st1 this (parent f) = Some (Returns (Some this) st1)"
      using that f x xt by (subst climb_from_left.simps) simp
    from move_to_another_node_bk [OF it1 live_m _ o1, of "Some this"] f(1) obtain st2 where st2:
      "move_to_another_node st1 i (Some this) = Some (Returns () st2)" "bk st1 st2"
      "iters st2 = (iters st1)(i \<mapsto> \<lparr>node' = Some m, container' = Some this\<rparr>\<lparr>node' := Some this\<rparr>)"
      by auto
    have i2: "iters st2 i = Some \<lparr>node' = Some this, container' = Some this\<rparr>"
      using st2(3) by simp
    from lnk_fields [OF bk_lnk [OF st2(2), of this]] f x obtain f2 where
      "nodes st2 this = Some f2" "left f2 = Some x" by auto
    then have "base_assert st2 i = Some (Returns () st2)"
      using i2 xt by (simp add: base_assert_def)
    then show ?thesis unfolding pre using c st2(1) i2 by simp
  qed
  show ?thesis using st1(1) 1 2 pf by auto
qed

end
